(* ===== verification/Prelude.thy ===== *)
theory Prelude
  imports Main "HOL-Library.Word" "HOL-Library.Monad_Syntax"
begin

text \<open>
  What the components share: the machine integers of the kernel as words, the
  operations of Rust's \<open>core\<close> on them that the sources use, the arithmetic
  facts that carry word goals over to \<open>nat\<close>, and lemmas on lists.

  The kernel is built with \<^verbatim>\<open>cargo run --release\<close> (\<^verbatim>\<open>Cargo.toml\<close>,
  \<open>[profile.release]\<close>, without \<open>overflow-checks\<close>): \<open>+\<close>, \<open>-\<close> and \<open>*\<close>
  on machine integers wrap around, which is what \<open>+\<close>, \<open>-\<close> and \<open>*\<close> do on words.
  Explicit panics (\<open>assert!\<close>, \<open>panic!\<close>, \<open>unwrap\<close>, an index out of range) are
  the value \<open>None\<close> of an \<open>option\<close> where the code can reach them.
\<close>

unbundle bit_operations_syntax

section \<open>Machine integers\<close>

type_synonym usize = "64 word"
type_synonym u64 = "64 word"
type_synonym u32 = "32 word"
type_synonym u16 = "16 word"
type_synonym u8 = "8 word"

definition saturating_sub :: "'a::len word \<Rightarrow> 'a word \<Rightarrow> 'a word" where
  "saturating_sub a b = (if b \<le> a then a - b else 0)"

definition checked_add :: "'a::len word \<Rightarrow> 'a word \<Rightarrow> 'a word option" where
  "checked_add a b = (if a \<le> a + b then Some (a + b) else None)"

definition is_power_of_two :: "'a::len word \<Rightarrow> bool" where
  "is_power_of_two w = list_ex (\<lambda>k. w = push_bit k 1) [0..<LENGTH('a)]"

named_theorems usize_arith \<open>facts that read word arithmetic in \<open>nat\<close>\<close>

lemma unat_usize_less [simp]: "unat (a :: usize) < 18446744073709551616"
  using unsigned_less [of a] by simp

lemma unat_add_usize [usize_arith]:
  "unat a + unat b < 18446744073709551616 \<Longrightarrow> unat (a + b :: usize) = unat a + unat b"
  by (simp add: unat_word_ariths)

lemma unat_sub_usize [usize_arith]:
  "unat b \<le> unat a \<Longrightarrow> unat (a - b :: usize) = unat a - unat b"
  by (simp add: unat_sub word_le_nat_alt)

lemma unat_saturating_sub [simp]:
  "unat (saturating_sub a b) = unat a - unat b"
  by (simp add: saturating_sub_def unat_sub word_le_nat_alt)

lemma unat_min_word: "unat (min a b :: 'a::len word) = min (unat a) (unat b)"
  by (simp add: min_def word_le_nat_alt)

lemma unat_max_word: "unat (max a b :: 'a::len word) = max (unat a) (unat b)"
  by (simp add: max_def word_le_nat_alt)

lemmas usize_order [usize_arith] =
  word_le_nat_alt word_less_nat_alt unat_min_word unat_max_word

lemma unat_eq_usize: "(a :: 'a::len word) = b \<longleftrightarrow> unat a = unat b"
  by (simp add: word_unat_eq_iff)

lemma checked_add_usize:
  "checked_add (a :: usize) b =
     (if unat a + unat b < 18446744073709551616 then Some (a + b) else None)"
proof -
  have "a \<le> a + b \<longleftrightarrow> unat a + unat b < 18446744073709551616"
    using no_olen_add_nat [of a b] by simp
  then show ?thesis by (simp add: checked_add_def)
qed

section \<open>Masks and powers of two\<close>

lemma and_not_mask: "(x :: 'a::len word) AND NOT (mask k) = push_bit k (drop_bit k x)"
  by (rule bit_eqI) (auto simp: bit_simps)

lemma unat_and_not_mask: "unat ((x :: usize) AND NOT (mask k)) = unat x div 2 ^ k * 2 ^ k"
proof -
  have "unat x div 2 ^ k * 2 ^ k < 2 ^ 64"
    by (rule le_less_trans [OF div_times_less_eq_dividend]) (use unsigned_less [of x] in simp)
  moreover have "take_bit 64 (unat x) = unat x"
    by (simp add: take_bit_nat_eq_self_iff)
  then have "unat (push_bit k (drop_bit k x)) = take_bit 64 (push_bit k (drop_bit k (unat x)))"
    by (simp only: unsigned_push_bit_eq unsigned_drop_bit_eq len_num0 len_bit0 len_num1
        mult.commute) simp
  ultimately show ?thesis
    by (simp add: and_not_mask push_bit_eq_mult drop_bit_eq_div take_bit_nat_eq_self_iff)
qed

lemma unat_and_mask: "unat ((x :: usize) AND mask k) = unat x mod 2 ^ k"
  by (simp add: unsigned_and_eq unsigned_take_bit_eq flip: take_bit_eq_mask take_bit_eq_mod)

lemma is_power_of_two_iff:
  "is_power_of_two (w :: 'a::len word) \<longleftrightarrow> (\<exists>k<LENGTH('a). w = 2 ^ k)"
  by (auto simp: is_power_of_two_def list_ex_iff)

lemma unat_exp_usize: "k < 64 \<Longrightarrow> unat (2 ^ k :: usize) = 2 ^ k"
  using unsigned_push_bit_eq [of k "1 :: usize", where 'a = nat]
  by (simp add: take_bit_nat_eq_self_iff)

text \<open>Every power of two of a \<open>usize\<close> is a \<open>nat\<close> power of two.\<close>

lemma is_power_of_two_usizeE:
  assumes "is_power_of_two (w :: usize)"
  obtains k where "k < 64" and "w - 1 = mask k" and "unat w = 2 ^ k"
  using assms by (auto simp: is_power_of_two_iff mask_eq_exp_minus_1 unat_exp_usize)

lemma is_power_of_two_pos: "is_power_of_two (w :: usize) \<Longrightarrow> 0 < unat w"
  by (erule is_power_of_two_usizeE) simp

section \<open>Rounding in \<open>nat\<close>\<close>

definition round_down :: "nat \<Rightarrow> nat \<Rightarrow> nat" where
  "round_down a x = x div a * a"

definition round_up :: "nat \<Rightarrow> nat \<Rightarrow> nat" where
  "round_up a x = (x + (a - 1)) div a * a"

lemma round_down_le [simp]: "round_down a x \<le> x"
  by (simp add: round_down_def)

lemma round_down_gt: "0 < a \<Longrightarrow> x < round_down a x + a"
  using dividend_less_div_times [of a x] by (simp add: round_down_def)

lemma dvd_round_down [simp]: "a dvd round_down a x"
  by (simp add: round_down_def)

lemma dvd_round_up [simp]: "a dvd round_up a x"
  by (simp add: round_up_def)

lemma round_up_eq: "round_up a x = round_down a (x + (a - 1))"
  by (simp add: round_up_def round_down_def)

lemma round_up_ge: "0 < a \<Longrightarrow> x \<le> round_up a x"
  using round_down_gt [of a "x + (a - 1)"] by (simp add: round_up_eq)

lemma round_up_less: "0 < a \<Longrightarrow> round_up a x < x + a"
  using round_down_le [of a "x + (a - 1)"] unfolding round_up_eq by linarith

lemma round_down_dvd: "a dvd x \<Longrightarrow> round_down a x = x"
  by (simp add: round_down_def)

lemma round_up_dvd:
  assumes "0 < a" and "a dvd x"
  shows "round_up a x = x"
proof -
  obtain k where "x = a * k" using assms(2) by (elim dvdE)
  moreover have "(a - 1 + a * k) div a = k"
    using assms(1) by (intro div_nat_eqI) (auto simp: algebra_simps)
  ultimately show ?thesis by (simp add: round_up_def add.commute)
qed

lemma round_down_greatest: "0 < a \<Longrightarrow> a dvd y \<Longrightarrow> y \<le> x \<Longrightarrow> y \<le> round_down a x"
  by (auto simp: round_down_def less_eq_div_iff_mult_less_eq mult.commute elim!: dvdE)

lemma round_up_least: "0 < a \<Longrightarrow> a dvd y \<Longrightarrow> x \<le> y \<Longrightarrow> round_up a x \<le> y"
proof -
  assume a: "0 < a" "a dvd y" "x \<le> y"
  then have "round_up a x \<le> round_up a y"
    by (simp add: round_up_def div_le_mono)
  with a show ?thesis by (simp add: round_up_dvd)
qed

text \<open>Consecutive blocks of \<open>m\<close> tile an interval.\<close>

lemma tile_union: "(\<Union>k<n. {a + k * m..<a + k * m + m}) = {a..<a + n * (m::nat)}"
proof (induction n)
  case 0
  then show ?case by simp
next
  case (Suc n)
  have "(\<Union>k<Suc n. {a + k * m..<a + k * m + m}) =
      {a..<a + n * m} \<union> {a + n * m..<a + n * m + m}"
    by (simp add: lessThan_Suc Suc Un_commute)
  also have "\<dots> = {a..<a + Suc n * m}"
    by (subst ivl_disj_un_two(3)) (simp_all add: algebra_simps)
  finally show ?case .
qed

section \<open>Lists\<close>

lemma dropWhile_Cons_length: "dropWhile P xs = y # ys \<Longrightarrow> length ys < length xs"
  using length_dropWhile_le [of P xs] by simp

lemma find_SomeD: "find P xs = Some x \<Longrightarrow> x \<in> set xs \<and> P x"
  by (induction xs) (auto split: if_splits)

end
