(* ===== verification/Kernel_Error.thy ===== *)
theory Kernel_Error
  imports Prelude
begin

text \<open>
  The kernel's error values, \<^verbatim>\<open>libkernel/src/error.rs\<close>, and their translation to the
  negative \<open>errno\<close> a system call returns, \<^verbatim>\<open>libkernel/src/error/syscall_error.rs\<close>. The
  variants of the inner enums carry the name of their enum as a prefix. \<open>Result<T>\<close> is
  the sum \<open>KernelError + 'a\<close>; \<open>isize\<close> results are integers. The catch-all arm of
  \<open>kern_err_to_syscall\<close> is a \<open>todo!\<close>, which panics: the value \<open>None\<close>.
\<close>

datatype ProbeError =
    Probe_NoReg | Probe_NoRegSize | Probe_NoInterrupts | Probe_NoParentInterrupt
  | Probe_NotInterruptController | Probe_Deferred | Probe_NoMatch

datatype MapError =
    Map_PhysNotAligned | Map_VirtNotAligned | Map_SizeMismatch | Map_WalkFailed
  | Map_InvalidDescriptor | Map_TooSmall | Map_AlreadyMapped | Map_NonCanonicalAddress
  | Map_NotL3Mapped

datatype IoError = Io_OutOfBounds | Io_MetadataCorruption

datatype FsError =
    Fs_NotFound | Fs_NotADirectory | Fs_IsADirectory | Fs_AlreadyExists
  | Fs_DirectoryNotEmpty | Fs_Busy | Fs_InvalidInput | Fs_InvalidFs | Fs_OutOfBounds
  | Fs_PermissionDenied | Fs_DriverNotFound | Fs_TooManyFiles | Fs_NoDevice | Fs_Loop
  | Fs_CrossDevice

datatype ExecError =
  Exec_InvalidElfFormat | Exec_InvalidScriptFormat | Exec_InvalidPHdrFormat

datatype KernelError =
    NoMemory | NoMemRegion | InvalidValue | InUse | MappingError MapError | TooLarge
  | NotSupported | AddressFamilyNotSupported | Probe ProbeError | Io IoError | Fs FsError
  | Exec ExecError | NotATty | Fault | BadFd | SeekPipe | BrokenPipe | NotPermitted
  | BufferFull | TryAgain | NoProcess | NoChildProcess | TimedOut | RangeError
  | OpNotSupported | Interrupted | NameTooLong | NotASocket | Other string

type_synonym 'a result = "KernelError + 'a"

fun kern_err_to_syscall :: "KernelError \<Rightarrow> int option" where
  "kern_err_to_syscall BadFd = Some (-9)"
| "kern_err_to_syscall InvalidValue = Some (-22)"
| "kern_err_to_syscall Fault = Some (-14)"
| "kern_err_to_syscall TryAgain = Some (-11)"
| "kern_err_to_syscall BrokenPipe = Some (-32)"
| "kern_err_to_syscall InUse = Some (-16)"
| "kern_err_to_syscall NotPermitted = Some (-1)"
| "kern_err_to_syscall BufferFull = Some (-36)"
| "kern_err_to_syscall NameTooLong = Some (-36)"
| "kern_err_to_syscall (Fs Fs_NotFound) = Some (-2)"
| "kern_err_to_syscall (Fs Fs_IsADirectory) = Some (-21)"
| "kern_err_to_syscall (Fs Fs_NotADirectory) = Some (-20)"
| "kern_err_to_syscall (Fs Fs_AlreadyExists) = Some (-17)"
| "kern_err_to_syscall (Fs Fs_DirectoryNotEmpty) = Some (-39)"
| "kern_err_to_syscall (Fs Fs_Busy) = Some (-16)"
| "kern_err_to_syscall (Fs Fs_InvalidInput) = Some (-22)"
| "kern_err_to_syscall (Fs Fs_PermissionDenied) = Some (-13)"
| "kern_err_to_syscall (Fs Fs_TooManyFiles) = Some (-24)"
| "kern_err_to_syscall (Fs Fs_NoDevice) = Some (-19)"
| "kern_err_to_syscall (Fs Fs_Loop) = Some (-40)"
| "kern_err_to_syscall NotATty = Some (-25)"
| "kern_err_to_syscall SeekPipe = Some (-29)"
| "kern_err_to_syscall NotSupported = Some (-38)"
| "kern_err_to_syscall NoMemory = Some (-12)"
| "kern_err_to_syscall TimedOut = Some (-110)"
| "kern_err_to_syscall RangeError = Some (-34)"
| "kern_err_to_syscall NoChildProcess = Some (-10)"
| "kern_err_to_syscall OpNotSupported = Some (-95)"
| "kern_err_to_syscall Interrupted = Some (-4)"
| "kern_err_to_syscall NoProcess = Some (-3)"
| "kern_err_to_syscall AddressFamilyNotSupported = Some (-97)"
| "kern_err_to_syscall e = None"

text \<open>Errors that system calls return and that reach the \<open>todo!\<close> arm.\<close>

lemma kern_err_to_syscall_panics:
  "kern_err_to_syscall NotASocket = None" "kern_err_to_syscall TooLarge = None"
  "kern_err_to_syscall (Fs Fs_CrossDevice) = None" "kern_err_to_syscall (MappingError e) = None"
  by simp_all

end
