(* ===== verification/Address.thy ===== *)
theory Address
  imports Prelude
begin

text \<open>
  Typed addresses, \<^verbatim>\<open>libkernel/src/memory/address.rs\<close> and
  \<^verbatim>\<open>libkernel/src/memory/page.rs\<close>. An \<open>Address<K, T>\<close> is a \<open>usize\<close> with two
  phantom types: the model keeps the \<open>usize\<close>. The kinds of address (virtual,
  physical, user, guest) share the representation and the arithmetic.
  \<open>align\<close> and \<open>align_up\<close> assert a power of two: \<open>None\<close> is the failed assertion;
  \<open>align_bits\<close> and \<open>align_up_bits\<close> are their bodies, used alone where the
  alignment is the constant page size.
\<close>

type_synonym addr = usize
type_synonym pfn = usize

section \<open>Definitions\<close>

definition PAGE_SIZE :: usize where
  "PAGE_SIZE = 4096"

definition PAGE_SHIFT :: nat where
  "PAGE_SHIFT = 12"

definition PAGE_MASK :: usize where
  "PAGE_MASK = PAGE_SIZE - 1"

definition is_page_aligned :: "addr \<Rightarrow> bool" where
  "is_page_aligned a \<longleftrightarrow> a AND PAGE_MASK = 0"

definition add_pages :: "addr \<Rightarrow> usize \<Rightarrow> addr" where
  "add_pages a count = a + PAGE_SIZE * count"

definition align_bits :: "addr \<Rightarrow> usize \<Rightarrow> addr" where
  "align_bits a n = a AND NOT (n - 1)"

definition align :: "addr \<Rightarrow> usize \<Rightarrow> addr option" where
  "align a n = (if is_power_of_two n then Some (align_bits a n) else None)"

definition page_aligned :: "addr \<Rightarrow> addr" where
  "page_aligned a = a AND NOT PAGE_MASK"

definition align_up_bits :: "addr \<Rightarrow> usize \<Rightarrow> addr" where
  "align_up_bits a n = (a + (n - 1)) AND NOT (n - 1)"

definition align_up :: "addr \<Rightarrow> usize \<Rightarrow> addr option" where
  "align_up a n = (if is_power_of_two n then Some (align_up_bits a n) else None)"

definition page_offset :: "addr \<Rightarrow> usize" where
  "page_offset a = a AND PAGE_MASK"

definition add_bytes :: "addr \<Rightarrow> usize \<Rightarrow> addr" where
  "add_bytes a n = a + n"

definition sub_bytes :: "addr \<Rightarrow> usize \<Rightarrow> addr" where
  "sub_bytes a n = a - n"

definition is_null :: "addr \<Rightarrow> bool" where
  "is_null a \<longleftrightarrow> a = 0"

definition to_pfn :: "addr \<Rightarrow> pfn" where
  "to_pfn a = drop_bit PAGE_SHIFT a"

definition pfn_pa :: "pfn \<Rightarrow> addr" where
  "pfn_pa n = push_bit PAGE_SHIFT n"

definition buddy :: "pfn \<Rightarrow> nat \<Rightarrow> pfn" where
  "buddy n order = n XOR push_bit order 1"

text \<open>
  An \<open>AddressTranslator\<close> is a pair of functions; the two translators of the source.
\<close>

record translator =
  virt_to_phys :: "addr \<Rightarrow> addr"
  phys_to_virt :: "addr \<Rightarrow> addr"

definition IdentityTranslator :: translator where
  "IdentityTranslator = \<lparr>virt_to_phys = (\<lambda>va. va), phys_to_virt = (\<lambda>pa. pa)\<rparr>"

definition PageOffsetTranslator :: "usize \<Rightarrow> translator" where
  "PageOffsetTranslator off =
     \<lparr>virt_to_phys = (\<lambda>va. va - off), phys_to_virt = (\<lambda>pa. pa + off)\<rparr>"

section \<open>Reading the bit tricks as arithmetic\<close>

lemma PAGE_MASK_mask: "PAGE_MASK = mask 12"
  by (simp add: PAGE_MASK_def PAGE_SIZE_def mask_eq_exp_minus_1)

lemma is_power_of_two_PAGE_SIZE [simp]: "is_power_of_two PAGE_SIZE"
  unfolding is_power_of_two_iff PAGE_SIZE_def by (rule exI [of _ 12]) simp

lemma unat_PAGE_SIZE [simp]: "unat PAGE_SIZE = 4096"
  by (simp add: PAGE_SIZE_def)

lemma is_page_aligned_dvd: "is_page_aligned a \<longleftrightarrow> 4096 dvd unat a"
  using and_mask_dvd_nat [of 12 a] by (simp add: is_page_aligned_def PAGE_MASK_mask)

lemma unat_page_offset: "unat (page_offset a) = unat a mod 4096"
  using unat_and_mask [of a 12] by (simp add: page_offset_def PAGE_MASK_mask)

lemma unat_page_aligned: "unat (page_aligned a) = round_down 4096 (unat a)"
  using unat_and_not_mask [of a 12]
  by (simp add: page_aligned_def PAGE_MASK_mask round_down_def)

lemma unat_align_bits:
  "is_power_of_two n \<Longrightarrow> unat (align_bits a n) = round_down (unat n) (unat a)"
  by (erule is_power_of_two_usizeE)
    (simp add: align_bits_def unat_and_not_mask round_down_def)

lemma unat_align_up_bits:
  assumes "is_power_of_two n" and "unat a + (unat n - 1) < 18446744073709551616"
  shows "unat (align_up_bits a n) = round_up (unat n) (unat a)"
proof -
  obtain k where k: "k < 64" "n - 1 = mask k" "unat n = 2 ^ k"
    using assms(1) by (rule is_power_of_two_usizeE)
  have "unat (n - 1) = unat n - 1"
    using is_power_of_two_pos [OF assms(1)] by (simp add: unat_sub_usize)
  then have "unat (a + (n - 1)) = unat a + (unat n - 1)"
    using assms(2) by (simp add: unat_add_usize)
  then show ?thesis
    using k unat_and_not_mask [of "a + (n - 1)" k]
    by (simp add: align_up_bits_def round_up_def)
qed

lemma align_PAGE_SIZE [simp]: "align a PAGE_SIZE = Some (align_bits a PAGE_SIZE)"
  by (simp add: align_def)

lemma align_up_PAGE_SIZE [simp]: "align_up a PAGE_SIZE = Some (align_up_bits a PAGE_SIZE)"
  by (simp add: align_up_def)

lemma unat_to_pfn: "unat (to_pfn a) = unat a div 4096"
  by (simp add: to_pfn_def PAGE_SHIFT_def drop_bit_eq_div unat_div_distrib)

section \<open>Address translators\<close>

text \<open>
  What the users of an \<open>AddressTranslator\<close> rely on: the two directions are inverse, and
  translation keeps distances, so that a region stays one region of the same size.
\<close>

locale address_translator =
  fixes to_phys :: "addr \<Rightarrow> addr" and to_virt :: "addr \<Rightarrow> addr"
  assumes phys_virt: "to_phys (to_virt pa) = pa"
    and virt_phys: "to_virt (to_phys va) = va"
    and virt_add: "to_virt (pa + n) = to_virt pa + n"
begin

lemma phys_add: "to_phys (va + n) = to_phys va + n"
  using virt_add [of "to_phys va" n] phys_virt virt_phys by metis

lemma to_virt_inj: "to_virt a = to_virt b \<longleftrightarrow> a = b"
  using phys_virt by metis

end

interpretation identity: address_translator
  "virt_to_phys IdentityTranslator" "phys_to_virt IdentityTranslator"
  by unfold_locales (simp_all add: IdentityTranslator_def)

interpretation page_offset_map: address_translator
  "virt_to_phys (PageOffsetTranslator off)" "phys_to_virt (PageOffsetTranslator off)" for off
  by unfold_locales (simp_all add: PageOffsetTranslator_def algebra_simps)

end
