(* ===== verification/Region.thy ===== *)
theory Region
  imports Address
begin

text \<open>
  Contiguous memory regions, \<^verbatim>\<open>libkernel/src/memory/region.rs\<close>. A region is a start
  address and a size in bytes. \<open>end_address\<close> is \<open>address + size\<close> at 64 bits: a
  region is \<open>valid\<close> when that sum does not wrap. The abstract view of a region is
  \<open>span r\<close>, the set of byte addresses it covers, and the lemmas below say what each
  operation does to it.
\<close>

record region =
  address :: addr
  rsize :: usize

section \<open>Operations\<close>

definition rnew :: "addr \<Rightarrow> usize \<Rightarrow> region" where
  "rnew a n = \<lparr>address = a, rsize = n\<rparr>"

definition empty_region :: region where
  "empty_region = \<lparr>address = 0, rsize = 0\<rparr>"

definition is_empty :: "region \<Rightarrow> bool" where
  "is_empty r \<longleftrightarrow> rsize r = 0"

definition from_start_end_address :: "addr \<Rightarrow> addr \<Rightarrow> region option" where
  "from_start_end_address s e =
     (if s \<le> e then Some \<lparr>address = s, rsize = e - s\<rparr> else None)"

text \<open>
  The body of \<open>from_start_end_address\<close>, for the callers whose own guard implies the assertion.
\<close>

definition from_start_end_unchecked :: "addr \<Rightarrow> addr \<Rightarrow> region" where
  "from_start_end_unchecked s e = \<lparr>address = s, rsize = e - s\<rparr>"

definition start_address :: "region \<Rightarrow> addr" where
  "start_address r = address r"

definition end_address :: "region \<Rightarrow> addr" where
  "end_address r = address r + rsize r"

definition end_address_inclusive :: "region \<Rightarrow> addr" where
  "end_address_inclusive r = address r + saturating_sub (rsize r) 1"

definition cap_size :: "region \<Rightarrow> usize \<Rightarrow> region" where
  "cap_size r max_size = (if max_size < rsize r then rnew (start_address r) max_size else r)"

definition shrink_start :: "region \<Rightarrow> usize \<Rightarrow> region" where
  "shrink_start r x =
     \<lparr>address = add_bytes (start_address r) x, rsize = saturating_sub (rsize r) x\<rparr>"

definition with_start_address :: "region \<Rightarrow> addr \<Rightarrow> region" where
  "with_start_address r a = r\<lparr>address := a\<rparr>"

definition with_size :: "region \<Rightarrow> usize \<Rightarrow> region" where
  "with_size r n = r\<lparr>rsize := n\<rparr>"

definition region_is_page_aligned :: "region \<Rightarrow> bool" where
  "region_is_page_aligned r = is_page_aligned (address r)"

definition overlaps :: "region \<Rightarrow> region \<Rightarrow> bool" where
  "overlaps r other =
     (let start1 = start_address r; end1 = end_address r;
          start2 = start_address other; end2 = end_address other
      in \<not> (end1 \<le> start2 \<or> end2 \<le> start1))"

definition is_before :: "region \<Rightarrow> region \<Rightarrow> bool" where
  "is_before r other \<longleftrightarrow> end_address r \<le> start_address other"

definition is_after :: "region \<Rightarrow> region \<Rightarrow> bool" where
  "is_after r other \<longleftrightarrow> start_address r \<ge> end_address other"

definition merge :: "region \<Rightarrow> region \<Rightarrow> region option" where
  "merge r other =
     (let start1 = address r; end1 = end_address r;
          start2 = address other; end2 = end_address other
      in if end1 \<ge> start2 \<and> start1 \<le> end2
         then let merged_start = min start1 start2; merged_end = max end1 end2
              in Some \<lparr>address = merged_start, rsize = merged_end - merged_start\<rparr>
         else None)"

text \<open>
  In \<open>punch_hole\<close> the assertion of \<open>from_start_end_address\<close> holds on both branches, so
  the \<open>option\<close> it returns is the fragment.
\<close>

definition punch_hole :: "region \<Rightarrow> region \<Rightarrow> region option \<times> region option" where
  "punch_hole r other =
     (let s_start = start_address r; s_end = end_address r;
          o_start = start_address other; o_end = end_address other;
          left =
            (if s_start < o_start
             then let e = min s_end o_start
                  in if e > s_start then from_start_end_address s_start e else None
             else None);
          right =
            (if s_end > o_end
             then let s = max s_start o_end
                  in if s < s_end then from_start_end_address s s_end else None
             else None)
      in (left, right))"

definition contains :: "region \<Rightarrow> region \<Rightarrow> bool" where
  "contains r other \<longleftrightarrow>
     start_address r \<le> start_address other \<and>
     end_address_inclusive r \<ge> end_address_inclusive other"

definition contains_address :: "region \<Rightarrow> addr \<Rightarrow> bool" where
  "contains_address r a \<longleftrightarrow> start_address r \<le> a \<and> a < end_address r"

definition region_add_pages :: "region \<Rightarrow> usize \<Rightarrow> region" where
  "region_add_pages r n =
     (let offset = push_bit PAGE_SHIFT n
      in \<lparr>address = address r + offset, rsize = saturating_sub (rsize r) offset\<rparr>)"

definition expand_by :: "region \<Rightarrow> usize \<Rightarrow> region option" where
  "expand_by r n =
     (if n AND PAGE_MASK = 0 then Some (r\<lparr>rsize := rsize r + n\<rparr>) else None)"

definition intersection :: "region \<Rightarrow> region \<Rightarrow> region option" where
  "intersection r other =
     (if is_empty r \<or> is_empty other then None
      else let intersection_start = max (start_address r) (start_address other);
               intersection_end =
                 min (end_address_inclusive r) (end_address_inclusive other)
           in if intersection_start \<le> intersection_end
              then Some (rnew intersection_start
                     (intersection_end - intersection_start + 1))
              else None)"

definition align_to_page_boundary :: "region \<Rightarrow> region option" where
  "align_to_page_boundary r =
     from_start_end_address (align_bits (start_address r) PAGE_SIZE)
       (align_up_bits (end_address r) PAGE_SIZE)"

record mappable_region =
  mapped_region :: region
  offset_from_page_start :: usize

definition to_mappable_region :: "region \<Rightarrow> mappable_region option" where
  "to_mappable_region r =
     (case from_start_end_address (align_bits (start_address r) PAGE_SIZE)
             (align_up_bits (end_address r) PAGE_SIZE) of
        None \<Rightarrow> None
      | Some aligned_region \<Rightarrow>
          Some \<lparr>mapped_region = aligned_region,
                offset_from_page_start = page_offset (start_address r)\<rparr>)"

text \<open>
  The iterators yield one element per whole page; \<open>count\<close> runs from 0 to the number
  of pages.
\<close>

definition iter_pages :: "region \<Rightarrow> addr list" where
  "iter_pages r =
     map (\<lambda>count. add_pages (start_address r) (of_nat count))
       [0..<unat (drop_bit PAGE_SHIFT (rsize r))]"

definition iter_pfns :: "region \<Rightarrow> pfn list" where
  "iter_pfns r =
     map (\<lambda>count. to_pfn (start_address r) + of_nat count)
       [0..<unat (drop_bit PAGE_SHIFT (rsize r))]"

definition map_via :: "(addr \<Rightarrow> addr) \<Rightarrow> region \<Rightarrow> region" where
  "map_via tr r = rnew (tr (address r)) (rsize r)"

section \<open>The bytes of a region\<close>

definition lo :: "region \<Rightarrow> nat" where
  "lo r = unat (address r)"

definition hi :: "region \<Rightarrow> nat" where
  "hi r = unat (address r) + unat (rsize r)"

definition span :: "region \<Rightarrow> nat set" where
  "span r = {lo r..<hi r}"

definition valid :: "region \<Rightarrow> bool" where
  "valid r \<longleftrightarrow> hi r < 2 ^ 64"

definition opt_span :: "region option \<Rightarrow> nat set" where
  "opt_span x = (case x of None \<Rightarrow> {} | Some r \<Rightarrow> span r)"

named_theorems region_defs \<open>the region operations read in \<open>nat\<close>\<close>

lemma lo_le_hi [simp]: "lo r \<le> hi r"
  by (simp add: lo_def hi_def)

lemma hi_minus_lo: "hi r - lo r < 18446744073709551616"
  by (simp add: lo_def hi_def)

lemma lo_less [simp]: "lo r < 18446744073709551616"
  by (simp add: lo_def)

lemma opt_span_simps [simp]: "opt_span None = {}" "opt_span (Some r) = span r"
  by (simp_all add: opt_span_def)

lemma rnew_sel [simp]: "address (rnew a n) = a" "rsize (rnew a n) = n"
  by (simp_all add: rnew_def)

lemma region_eqI: "lo r = lo q \<Longrightarrow> hi r = hi q \<Longrightarrow> r = (q :: region)"
  by (cases r; cases q) (simp add: lo_def hi_def word_unat_eq_iff)

lemma unat_start_address [region_defs]: "unat (start_address r) = lo r"
  by (simp add: start_address_def lo_def)

lemma unat_end_address [region_defs]: "valid r \<Longrightarrow> unat (end_address r) = hi r"
  by (simp add: end_address_def valid_def hi_def unat_add_usize)

lemma unat_end_address_inclusive:
  assumes "hi r \<le> 2 ^ 64"
  shows "unat (end_address_inclusive r) = max (lo r) (hi r - 1)"
proof -
  have "unat (address r) + (unat (rsize r) - 1) < 2 ^ 64"
    using assms unat_usize_less [of "address r"] by (simp add: hi_def del: unat_usize_less)
  then have "unat (end_address_inclusive r) = unat (address r) + (unat (rsize r) - 1)"
    by (simp add: end_address_inclusive_def unat_add_usize)
  then show ?thesis by (auto simp: lo_def hi_def max_def)
qed

lemma is_empty_span: "is_empty r \<longleftrightarrow> span r = {}"
  by (simp add: is_empty_def span_def lo_def hi_def unat_eq_0)

text \<open>The region that covers the bytes from \<open>a\<close> up to \<open>b\<close>.\<close>

definition region_of :: "nat \<Rightarrow> nat \<Rightarrow> region" where
  "region_of a b = rnew (of_nat a) (of_nat (b - a))"

lemma region_of_sel [simp]:
  assumes "a \<le> b" and "b < 18446744073709551616"
  shows "lo (region_of a b) = a" and "hi (region_of a b) = b" and "valid (region_of a b)"
  using assms
  by (simp_all add: region_of_def lo_def hi_def valid_def unat_of_nat del: of_nat_diff)

lemma from_start_end_address_eq:
  "from_start_end_address s e =
     (if unat s \<le> unat e then Some (region_of (unat s) (unat e)) else None)"
proof -
  have "s \<le> e \<Longrightarrow> of_nat (unat e - unat s) = e - s"
    by (simp add: word_le_nat_alt)
  then show ?thesis
    by (simp add: from_start_end_address_def word_le_nat_alt region_of_def rnew_def del: of_nat_diff)
qed

lemma from_start_end_address_checked:
  "s \<le> e \<Longrightarrow> from_start_end_address s e = Some (from_start_end_unchecked s e)"
  by (simp add: from_start_end_address_def from_start_end_unchecked_def)

lemma from_start_end_unchecked_eq:
  "unat s \<le> unat e \<Longrightarrow> from_start_end_unchecked s e = region_of (unat s) (unat e)"
  using from_start_end_address_eq [of s e] from_start_end_address_checked [of s e]
  by (simp add: word_le_nat_alt)

lemma overlaps_iff [region_defs]:
  "valid r \<Longrightarrow> valid q \<Longrightarrow> overlaps r q \<longleftrightarrow> lo q < hi r \<and> lo r < hi q"
  by (auto simp: overlaps_def Let_def usize_arith region_defs)

lemma is_before_iff [region_defs]: "valid r \<Longrightarrow> is_before r q \<longleftrightarrow> hi r \<le> lo q"
  by (simp add: is_before_def usize_arith region_defs)

lemma is_after_iff [region_defs]: "valid q \<Longrightarrow> is_after r q \<longleftrightarrow> hi q \<le> lo r"
  by (simp add: is_after_def usize_arith region_defs)

lemma contains_address_iff [region_defs]:
  "valid r \<Longrightarrow> contains_address r a \<longleftrightarrow> unat a \<in> span r"
  by (simp add: contains_address_def usize_arith region_defs span_def)

lemma contains_iff:
  "hi r \<le> 2 ^ 64 \<Longrightarrow> hi q \<le> 2 ^ 64 \<Longrightarrow>
   contains r q \<longleftrightarrow> lo r \<le> lo q \<and> max (lo q) (hi q - 1) \<le> max (lo r) (hi r - 1)"
  by (simp add: contains_def usize_arith region_defs unat_end_address_inclusive)

lemma merge_None: "valid r \<Longrightarrow> valid q \<Longrightarrow> merge r q = None \<longleftrightarrow> hi r < lo q \<or> hi q < lo r"
  by (auto simp: merge_def Let_def usize_arith region_defs lo_def)

lemma merge_SomeD:
  assumes "valid r" and "valid q" and "merge r q = Some m"
  shows "lo m = min (lo r) (lo q)" and "hi m = max (hi r) (hi q)" and "valid m"
    and "lo q \<le> hi r" and "lo r \<le> hi q"
proof -
  have touch: "lo q \<le> hi r" "lo r \<le> hi q"
    using merge_None [OF assms(1,2)] assms(3) by auto
  then show "lo q \<le> hi r" and "lo r \<le> hi q" by auto
  have m: "m = \<lparr>address = min (address r) (address q),
      rsize = max (end_address r) (end_address q) - min (address r) (address q)\<rparr>"
    using assms(3) by (auto simp: merge_def Let_def split: if_splits)
  have "unat (min (address r) (address q)) = min (lo r) (lo q)"
    by (simp add: unat_min_word lo_def)
  moreover have "unat (max (end_address r) (end_address q)) = max (hi r) (hi q)"
    using assms by (simp add: unat_max_word region_defs)
  moreover have "min (lo r) (lo q) \<le> max (hi r) (hi q)"
    by (simp add: min_le_iff_disj le_max_iff_disj)
  ultimately show "lo m = min (lo r) (lo q)" and hi: "hi m = max (hi r) (hi q)"
    unfolding m by (simp_all add: lo_def [of "\<lparr>address = _, rsize = _\<rparr>"]
        hi_def [of "\<lparr>address = _, rsize = _\<rparr>"] unat_sub_usize)
  show "valid m" using hi assms by (simp add: valid_def)
qed

lemma merge_Some_span:
  assumes "valid r" and "valid q" and "merge r q = Some m"
  shows "valid m" and "span m = span r \<union> span q"
  using merge_SomeD [OF assms] lo_le_hi [of r] lo_le_hi [of q] by (auto simp: span_def)

text \<open>
  Merging two regions whose end addresses do not wrap gives one region that covers
  exactly the bytes of both. It is refused exactly when a gap of at least one byte lies
  between them.
\<close>

lemma merge_span:
  assumes "valid r" and "valid q"
  shows "case merge r q of
           Some m \<Rightarrow> valid m \<and> span m = span r \<union> span q
         | None \<Rightarrow> hi r < lo q \<or> hi q < lo r"
  using merge_None [OF assms] merge_Some_span [OF assms] by (simp split: option.split)

text \<open>\<open>punch_hole\<close> on regions whose end addresses do not wrap, in \<open>nat\<close>.\<close>

lemma punch_hole_eq:
  assumes "valid r" and "valid q"
  shows "punch_hole r q =
    (if lo r < lo q \<and> lo r < hi r then Some (region_of (lo r) (min (hi r) (lo q))) else None,
     if hi q < hi r \<and> lo r < hi r then Some (region_of (max (lo r) (hi q)) (hi r)) else None)"
  using assms
  by (auto simp: punch_hole_def Let_def usize_arith region_defs from_start_end_address_eq)

lemma punch_hole_left:
  assumes "valid r" and "valid q"
  shows "fst (punch_hole r q) = None \<longleftrightarrow> lo q \<le> lo r \<or> span r = {}"
    and "fst (punch_hole r q) = Some l \<Longrightarrow>
           valid l \<and> lo l = lo r \<and> hi l = min (hi r) (lo q) \<and> lo l < hi l"
proof -
  show "fst (punch_hole r q) = None \<longleftrightarrow> lo q \<le> lo r \<or> span r = {}"
    by (auto simp: punch_hole_eq [OF assms] span_def)
  assume "fst (punch_hole r q) = Some l"
  then have c: "lo r < lo q" "lo r < hi r" and l: "l = region_of (lo r) (min (hi r) (lo q))"
    by (simp_all add: punch_hole_eq [OF assms] split: if_splits)
  then have "lo r \<le> min (hi r) (lo q)" "min (hi r) (lo q) < 18446744073709551616"
    using assms by (simp_all add: valid_def min_less_iff_disj)
  from region_of_sel [OF this] c show
    "valid l \<and> lo l = lo r \<and> hi l = min (hi r) (lo q) \<and> lo l < hi l"
    unfolding l by simp
qed

lemma punch_hole_right:
  assumes "valid r" and "valid q"
  shows "snd (punch_hole r q) = None \<longleftrightarrow> hi r \<le> hi q \<or> span r = {}"
    and "snd (punch_hole r q) = Some l \<Longrightarrow>
           valid l \<and> lo l = max (lo r) (hi q) \<and> hi l = hi r \<and> lo l < hi l"
proof -
  show "snd (punch_hole r q) = None \<longleftrightarrow> hi r \<le> hi q \<or> span r = {}"
    by (auto simp: punch_hole_eq [OF assms] span_def)
  assume "snd (punch_hole r q) = Some l"
  then have c: "hi q < hi r" "lo r < hi r" and l: "l = region_of (max (lo r) (hi q)) (hi r)"
    by (simp_all add: punch_hole_eq [OF assms] split: if_splits)
  then have "max (lo r) (hi q) \<le> hi r" "hi r < 18446744073709551616"
    using assms by (simp_all add: valid_def)
  from region_of_sel [OF this] c show
    "valid l \<and> lo l = max (lo r) (hi q) \<and> hi l = hi r \<and> lo l < hi l"
    unfolding l by simp
qed

lemma punch_hole_bytes:
  assumes "valid r" and "valid q"
  shows "opt_span (fst (punch_hole r q)) \<union> opt_span (snd (punch_hole r q)) = span r - span q"
proof -
  note left = punch_hole_left [OF assms] and right = punch_hole_right [OF assms]
  have "opt_span (fst (punch_hole r q)) = {x \<in> span r. x < lo q}"
  proof (cases "fst (punch_hole r q)")
    case None
    then show ?thesis using left(1) by (auto simp: span_def)
  next
    case (Some l)
    then show ?thesis using left(2) [OF Some] by (auto simp: span_def)
  qed
  moreover have "opt_span (snd (punch_hole r q)) = {x \<in> span r. hi q \<le> x}"
  proof (cases "snd (punch_hole r q)")
    case None
    then show ?thesis using right(1) by (auto simp: span_def)
  next
    case (Some l)
    then show ?thesis using right(2) [OF Some] by (auto simp: span_def)
  qed
  moreover have "{x \<in> span r. x < lo q} \<union> {x \<in> span r. hi q \<le> x} = span r - span q"
    by (auto simp: span_def)
  ultimately show ?thesis by (simp only:)
qed

text \<open>
  Punching a hole \<open>q\<close> into a region \<open>r\<close> leaves exactly the bytes of \<open>r\<close> that
  are not in \<open>q\<close>. The left fragment lies before the hole, the right fragment after it,
  and no fragment is empty.
\<close>

lemma punch_hole_span:
  assumes "valid r" and "valid q"
  shows "case punch_hole r q of (left, right) \<Rightarrow>
           opt_span left \<union> opt_span right = span r - span q \<and>
           (\<forall>l. left = Some l \<longrightarrow> valid l \<and> span l \<noteq> {} \<and> hi l \<le> lo q) \<and>
           (\<forall>l. right = Some l \<longrightarrow> valid l \<and> span l \<noteq> {} \<and> hi q \<le> lo l)"
proof -
  have "\<forall>l. fst (punch_hole r q) = Some l \<longrightarrow> valid l \<and> span l \<noteq> {} \<and> hi l \<le> lo q"
    using punch_hole_left(2) [OF assms] by (auto simp: span_def)
  moreover have "\<forall>l. snd (punch_hole r q) = Some l \<longrightarrow> valid l \<and> span l \<noteq> {} \<and> hi q \<le> lo l"
    using punch_hole_right(2) [OF assms] by (auto simp: span_def)
  ultimately show ?thesis
    using punch_hole_bytes [OF assms] by (simp only: case_prod_beta)
qed

text \<open>
  \<open>intersection\<close> computes the common bytes of two regions, and \<open>None\<close> when there
  are none. It is exact for regions that end at the very top of the address space too,
  where the exclusive end address wraps to 0.
\<close>

lemma intersection_span:
  assumes "hi r \<le> 2 ^ 64" and "hi q \<le> 2 ^ 64"
  shows "opt_span (intersection r q) = span r \<inter> span q \<and>
         (intersection r q = None \<longleftrightarrow> span r \<inter> span q = {})"
proof (cases "span r = {} \<or> span q = {}")
  case True
  then have "is_empty r \<or> is_empty q"
    by (simp add: is_empty_span)
  then have "intersection r q = None"
    unfolding intersection_def by (simp only: if_True)
  with True show ?thesis by auto
next
  case False
  then have ne: "lo r < hi r" "lo q < hi q" "\<not> is_empty r" "\<not> is_empty q"
    by (simp_all add: is_empty_span span_def)
  let ?s = "max (start_address r) (start_address q)"
  let ?e = "min (end_address_inclusive r) (end_address_inclusive q)"
  have s: "unat ?s = max (lo r) (lo q)"
    by (simp add: unat_max_word region_defs)
  have e: "unat ?e = min (hi r) (hi q) - 1"
    using ne unfolding unat_min_word unat_end_address_inclusive [OF assms(1)]
      unat_end_address_inclusive [OF assms(2)] by linarith
  have iff: "?s \<le> ?e \<longleftrightarrow> max (lo r) (lo q) < min (hi r) (hi q)"
    unfolding word_le_nat_alt s e using ne by linarith
  show ?thesis
  proof (cases "?s \<le> ?e")
    case False
    then have "intersection r q = None"
      using ne(3,4) unfolding intersection_def Let_def by (simp only: if_False simp_thms)
    moreover have "span r \<inter> span q = {}"
      using False unfolding iff by (auto simp: span_def)
    ultimately show ?thesis by simp
  next
    case True
    let ?i = "rnew ?s (?e - ?s + 1)"
    have "unat (?e - ?s) = min (hi r) (hi q) - 1 - max (lo r) (lo q)"
      by (simp only: unat_sub [OF True] s e)
    moreover have "min (hi r) (hi q) - 1 - max (lo r) (lo q) + 1 =
        min (hi r) (hi q) - max (lo r) (lo q)"
      using True unfolding iff by linarith
    moreover have "min (hi r) (hi q) - max (lo r) (lo q) < 18446744073709551616"
      using hi_minus_lo [of r] by linarith
    ultimately have "unat (?e - ?s + 1) = min (hi r) (hi q) - max (lo r) (lo q)"
      by (simp only: unat_add_usize unat_1)
    then have "lo ?i = max (lo r) (lo q)" and "hi ?i = min (hi r) (hi q)"
      using True unfolding iff lo_def [of ?i] hi_def [of ?i] rnew_sel s by linarith+
    then have "span ?i = span r \<inter> span q" and "span ?i \<noteq> {}"
      using True unfolding iff span_def by auto
    moreover have "intersection r q = Some ?i"
      using True ne(3,4) unfolding intersection_def Let_def by (simp only: if_False if_True simp_thms)
    ultimately show ?thesis by simp
  qed
qed

text \<open>
  For two regions of at least one byte, \<open>contains\<close> decides inclusion of the bytes
  and \<open>overlaps\<close> decides whether they share a byte. (On empty regions \<open>contains\<close> compares
  inclusive ends that saturate at the start: see \<open>contains_empty\<close>.)
\<close>

lemma contains_overlaps_span:
  assumes "valid r" and "valid q" and "span r \<noteq> {}" and "span q \<noteq> {}"
  shows "(contains r q \<longleftrightarrow> span q \<subseteq> span r) \<and> (overlaps r q \<longleftrightarrow> span r \<inter> span q \<noteq> {})"
proof -
  have ne: "lo r < hi r" "lo q < hi q"
    using assms(3,4) by (simp_all add: span_def)
  have "contains r q \<longleftrightarrow> lo r \<le> lo q \<and> hi q \<le> hi r"
    using assms(1,2) ne by (subst contains_iff) (auto simp: valid_def)
  moreover have "span q \<subseteq> span r \<longleftrightarrow> lo r \<le> lo q \<and> hi q \<le> hi r"
    using ne by (auto simp: span_def atLeastLessThan_subset_iff)
  moreover have "span r \<inter> span q \<noteq> {} \<longleftrightarrow> lo q < hi r \<and> lo r < hi q"
    using ne by (auto simp: span_def)
  ultimately show ?thesis
    using overlaps_iff [OF assms(1,2)] by blast
qed

text \<open>
  An empty region is reported to contain a one-byte region at the same address, although
  it has no bytes: the inclusive end of an empty region saturates at its start.
\<close>

lemma contains_empty:
  "contains (rnew a 0) (rnew a 1)" "span (rnew a 0) = {}" "span (rnew a 1) \<noteq> {}"
  by (simp_all add: contains_def end_address_inclusive_def start_address_def saturating_sub_def
      span_def lo_def hi_def)

lemma align_to_page_boundary_eq:
  assumes "hi r + 4095 < 2 ^ 64"
  shows "\<exists>q. align_to_page_boundary r = Some q \<and> valid q \<and> lo q = round_down 4096 (lo r) \<and>
    hi q = round_up 4096 (hi r) \<and> lo q \<le> lo r \<and> hi r \<le> hi q"
proof -
  let ?a = "align_bits (start_address r) PAGE_SIZE"
  let ?b = "align_up_bits (end_address r) PAGE_SIZE"
  have v: "valid r" using assms by (simp add: valid_def)
  have a: "unat ?a = round_down 4096 (lo r)"
    by (simp add: unat_align_bits region_defs)
  have b: "unat ?b = round_up 4096 (hi r)"
    using assms v by (subst unat_align_up_bits) (simp_all add: region_defs)
  have le: "round_down 4096 (lo r) \<le> lo r" "hi r \<le> round_up 4096 (hi r)"
    using round_up_ge [of 4096 "hi r"] by simp_all
  then have ord: "round_down 4096 (lo r) \<le> round_up 4096 (hi r)"
    using lo_le_hi [of r] by linarith
  moreover have "round_up 4096 (hi r) < 18446744073709551616"
    using round_up_less [of 4096 "hi r"] assms by simp
  ultimately have q: "lo (region_of (round_down 4096 (lo r)) (round_up 4096 (hi r))) = round_down 4096 (lo r)"
    "hi (region_of (round_down 4096 (lo r)) (round_up 4096 (hi r))) = round_up 4096 (hi r)"
    "valid (region_of (round_down 4096 (lo r)) (round_up 4096 (hi r)))"
    by (rule region_of_sel)+
  have "align_to_page_boundary r =
        Some (region_of (round_down 4096 (lo r)) (round_up 4096 (hi r)))"
    using ord by (simp add: align_to_page_boundary_def from_start_end_address_eq a b)
  with q le show ?thesis by simp
qed

text \<open>
  \<open>align_to_page_boundary\<close> returns the smallest page-aligned region that covers the
  given one (and does not fail its assertion) when the end, rounded up, does not wrap.
\<close>

lemma align_to_page_boundary_least:
  assumes "hi r + 4095 < 2 ^ 64"
  shows "\<exists>q. align_to_page_boundary r = Some q \<and> valid q \<and>
           4096 dvd lo q \<and> 4096 dvd hi q \<and> lo q \<le> lo r \<and> hi r \<le> hi q \<and>
           (\<forall>a b. 4096 dvd a \<and> 4096 dvd b \<and> a \<le> lo r \<and> hi r \<le> b \<longrightarrow> a \<le> lo q \<and> hi q \<le> b)"
proof -
  obtain q where "align_to_page_boundary r = Some q" "valid q" "lo q = round_down 4096 (lo r)"
    "hi q = round_up 4096 (hi r)" "lo q \<le> lo r" "hi r \<le> hi q"
    using align_to_page_boundary_eq [OF assms] by blast
  then show ?thesis by (simp add: round_down_greatest round_up_least)
qed

section \<open>Pages of a region\<close>

lemma unat_drop_PAGE_SHIFT: "unat (drop_bit PAGE_SHIFT (n :: usize)) = unat n div 4096"
  by (simp add: PAGE_SHIFT_def drop_bit_eq_div unat_div_distrib)

lemma unat_page_count: "k < unat (n :: usize) div 4096 \<Longrightarrow> unat (of_nat k :: usize) = k"
  using unat_usize_less [of n] by (simp add: unat_of_nat del: unat_usize_less)

text \<open>
  \<open>iter_pages\<close> on a region that does not wrap yields the start of every whole page
  of the region in ascending order: page \<open>k\<close> starts \<open>k\<close> pages after the region and ends
  inside it, the pages tile the region, and less than a page is left over.
\<close>

lemma iter_pages_tile:
  assumes "valid r"
  shows "map unat (iter_pages r) = map (\<lambda>k. lo r + k * 4096) [0..<(hi r - lo r) div 4096] \<and>
         (\<Union>p \<in> set (iter_pages r). span (rnew p PAGE_SIZE)) =
            {lo r..<lo r + (hi r - lo r) div 4096 * 4096} \<and>
         hi r < lo r + (hi r - lo r) div 4096 * 4096 + 4096"
proof -
  let ?n = "(hi r - lo r) div 4096"
  have n: "unat (rsize r) div 4096 = ?n" by (simp add: hi_def lo_def)
  have page: "unat (add_pages (start_address r) (of_nat k)) = lo r + k * 4096" if "k < ?n" for k
  proof -
    have k: "unat (of_nat k :: usize) = k"
      using that unat_page_count [of k "rsize r"] n by simp
    have "(k + 1) * 4096 \<le> hi r - lo r"
      using that less_eq_div_iff_mult_less_eq [of 4096 "k + 1" "hi r - lo r"] by simp
    then have le: "lo r + (k + 1) * 4096 \<le> hi r"
      using lo_le_hi [of r] by linarith
    then have "unat (PAGE_SIZE * of_nat k) = k * 4096"
      using assms k by (simp add: unat_word_ariths valid_def)
    then show ?thesis
      using assms le by (simp add: add_pages_def unat_add_usize region_defs valid_def)
  qed
  then have pages: "map unat (iter_pages r) = map (\<lambda>k. lo r + k * 4096) [0..<?n]"
    by (simp add: iter_pages_def unat_drop_PAGE_SHIFT n)
  have "span (rnew p PAGE_SIZE) = {unat p..<unat p + 4096}" for p
    by (simp add: span_def lo_def hi_def)
  then have "(\<Union>p \<in> set (iter_pages r). span (rnew p PAGE_SIZE)) =
      (\<Union>a \<in> set (map unat (iter_pages r)). {a..<a + 4096})"
    by simp
  also have "\<dots> = (\<Union>k < ?n. {lo r + k * 4096..<lo r + k * 4096 + 4096})"
    unfolding pages by (simp add: atLeast0LessThan)
  also have "\<dots> = {lo r..<lo r + ?n * 4096}"
    by (rule tile_union)
  finally show ?thesis
    using pages lo_le_hi [of r] dividend_less_div_times [of 4096 "hi r - lo r"] by simp
qed

section \<open>Translating a region\<close>

context address_translator
begin

lemma map_via_inverse:
  "map_via to_phys (map_via to_virt r) = r" "map_via to_virt (map_via to_phys r) = r"
  by (simp_all add: map_via_def rnew_def phys_virt virt_phys)

lemma map_via_iter_pages: "iter_pages (map_via to_virt r) = map to_virt (iter_pages r)"
  by (simp add: iter_pages_def map_via_def add_pages_def virt_add start_address_def)

end

text \<open>
  Under the page-offset translator of the kernel, translating a physical region to
  virtual and back is the identity, and the pages of the translated region are the translated
  pages, in order.
\<close>

lemma map_via_page_offset:
  "map_via (virt_to_phys (PageOffsetTranslator off))
     (map_via (phys_to_virt (PageOffsetTranslator off)) r) = r \<and>
   iter_pages (map_via (phys_to_virt (PageOffsetTranslator off)) r) =
     map (phys_to_virt (PageOffsetTranslator off)) (iter_pages r)"
  using page_offset_map.map_via_inverse(1) page_offset_map.map_via_iter_pages by simp

end
