(* ===== verification/Region_List.thy ===== *)
theory Region_List
  imports Kernel_Error Region
begin

text \<open>
  \<open>RegionList\<close> of \<^verbatim>\<open>libkernel/src/memory/allocators/smalloc.rs\<close>: a buffer of \<open>max\<close>
  regions behind a raw pointer of which \<open>count\<close> are in use. The model keeps the regions in
  use as a list (its length is \<open>count\<close>), the capacity and the value of the pointer. Growing
  a list moves its regions to a new buffer: the list stays, pointer and capacity change.
  \<open>None\<close> is a panic.
\<close>

section \<open>Region lists\<close>

record region_list =
  rl_max :: usize
  rl_ptr :: addr
  regions :: "region list"

definition rl_new :: "usize \<Rightarrow> addr \<Rightarrow> region_list" where
  "rl_new m p = \<lparr>rl_max = m, rl_ptr = p, regions = []\<rparr>"

definition count :: "region_list \<Rightarrow> usize" where
  "count l = of_nat (length (regions l))"

definition rl_is_empty :: "region_list \<Rightarrow> bool" where
  "rl_is_empty l \<longleftrightarrow> count l = 0"

fun remove_at :: "region list \<Rightarrow> nat \<Rightarrow> region list" where
  "remove_at rs i = (if i \<ge> length rs then rs else take i rs @ drop (Suc i) rs)"

text \<open>Step 1 of \<open>insert_region\<close>: absorb every region that touches the new one.\<close>

function merge_scan :: "region list \<Rightarrow> nat \<Rightarrow> region \<Rightarrow> region list \<times> region" where
  "merge_scan rs i new_region =
     (if i < length rs
      then (case merge (rs ! i) new_region of
              Some merged \<Rightarrow> merge_scan (remove_at rs i) 0 merged
            | None \<Rightarrow> merge_scan rs (Suc i) new_region)
      else (rs, new_region))"
  by pat_completeness auto
termination
  by (relation "measures [\<lambda>(rs, i, _). length rs, \<lambda>(rs, i, _). length rs - i]") auto

declare merge_scan.simps [simp del]

fun position :: "('a \<Rightarrow> bool) \<Rightarrow> 'a list \<Rightarrow> nat option" where
  "position P [] = None"
| "position P (x # xs) = (if P x then Some 0 else map_option Suc (position P xs))"

text \<open>Step 2: the position the new region belongs to.\<close>

definition insert_idx :: "region list \<Rightarrow> region \<Rightarrow> nat" where
  "insert_idx rs new =
     (case position (\<lambda>x. start_address x > start_address new) rs of
        Some i \<Rightarrow> i | None \<Rightarrow> length rs)"

definition insert_region :: "region_list \<Rightarrow> region \<Rightarrow> region_list option" where
  "insert_region l new_region =
     (if count l = rl_max l then None
      else
        let (rs, new_region) = merge_scan (regions l) 0 new_region;
            i = insert_idx rs new_region
        in Some (l\<lparr>regions := take i rs @ new_region # drop i rs\<rparr>))"

definition requires_reallocation :: "region_list \<Rightarrow> bool" where
  "requires_reallocation l \<longleftrightarrow> count l \<ge> rl_max l - 1"

section \<open>Invariant of a region list\<close>

text \<open>
  The regions of a list are in ascending order, with a gap of at least one byte between
  neighbours, and none of them wraps; the list fits its buffer.
\<close>

definition apart :: "region \<Rightarrow> region \<Rightarrow> bool" where
  "apart a b \<longleftrightarrow> hi a < lo b"

definition separated :: "region list \<Rightarrow> bool" where
  "separated rs \<longleftrightarrow> sorted_wrt apart rs \<and> list_all valid rs"

definition rl_inv :: "region_list \<Rightarrow> bool" where
  "rl_inv l \<longleftrightarrow> separated (regions l) \<and> length (regions l) \<le> unat (rl_max l)"

definition bytes :: "region list \<Rightarrow> nat set" where
  "bytes rs = (\<Union>r \<in> set rs. span r)"

lemma bytes_simps [simp]:
  "bytes [] = {}" "bytes (r # rs) = span r \<union> bytes rs" "bytes (xs @ ys) = bytes xs \<union> bytes ys"
  by (auto simp: bytes_def)

lemma separated_simps [simp]:
  "separated []"
  "separated (r # rs) \<longleftrightarrow> valid r \<and> (\<forall>q \<in> set rs. apart r q) \<and> separated rs"
  "separated (xs @ ys) \<longleftrightarrow>
     separated xs \<and> separated ys \<and> (\<forall>x \<in> set xs. \<forall>y \<in> set ys. apart x y)"
  by (auto simp: separated_def sorted_wrt_append)

lemma separated_valid: "separated rs \<Longrightarrow> r \<in> set rs \<Longrightarrow> valid r"
  by (simp add: separated_def list_all_iff)

lemma separated_nth_less:
  "separated rs \<Longrightarrow> i < j \<Longrightarrow> j < length rs \<Longrightarrow> hi (rs ! i) < lo (rs ! j)"
  using sorted_wrt_nth_less [of apart rs i j] by (simp add: separated_def apart_def)

lemma apart_trans: "apart a b \<Longrightarrow> apart b c \<Longrightarrow> apart a c"
  unfolding apart_def using lo_le_hi [of b] by linarith

lemma unat_count: "length (regions l) \<le> unat (rl_max l) \<Longrightarrow> unat (count l) = length (regions l)"
  using unat_usize_less [of "rl_max l"]
  by (simp add: count_def unat_of_nat del: unat_usize_less)

lemma nth_split: "i < length xs \<Longrightarrow> xs = take i xs @ xs ! i # drop (Suc i) xs"
  by (rule id_take_nth_drop)

lemma remove_at_split:
  assumes "i < length rs"
  obtains xs ys where "rs = xs @ rs ! i # ys" and "remove_at rs i = xs @ ys" and "length xs = i"
  using that [of "take i rs" "drop (Suc i) rs"] nth_split [OF assms] assms by auto

declare remove_at.simps [simp del]

lemma position_Some:
  "position P xs = Some i \<Longrightarrow> i < length xs \<and> P (xs ! i) \<and> (\<forall>j < i. \<not> P (xs ! j))"
proof (induction xs arbitrary: i)
  case (Cons x xs)
  show ?case
  proof (cases "P x")
    case False
    then obtain k where k: "position P xs = Some k" "i = Suc k" using Cons.prems by auto
    with Cons.IH [OF k(1)] False show ?thesis by (auto simp: nth_Cons split: nat.splits)
  qed (use Cons.prems in simp)
qed simp

lemma position_None: "position P xs = None \<longleftrightarrow> (\<forall>x \<in> set xs. \<not> P x)"
  by (induction xs) auto

subsection \<open>Removal\<close>

lemma separated_remove_at:
  assumes "separated rs" and "i < length rs"
  shows "separated (remove_at rs i)" and "bytes (remove_at rs i) = bytes rs - span (rs ! i)"
    and "span (rs ! i) \<subseteq> bytes rs" and "Suc (length (remove_at rs i)) = length rs"
    and "set (remove_at rs i) \<subseteq> set rs"
proof -
  obtain xs ys where s: "rs = xs @ rs ! i # ys" and rm: "remove_at rs i = xs @ ys"
    using remove_at_split [OF assms(2)] by metis
  have sep: "separated (xs @ rs ! i # ys)" using assms(1) s by simp
  then show "separated (remove_at rs i)" unfolding rm by simp
  have disj: "span r \<inter> span (rs ! i) = {}" if "r \<in> set (xs @ ys)" for r
    using that sep lo_le_hi [of r] lo_le_hi [of "rs ! i"] by (auto simp: apart_def span_def)
  then have "bytes (xs @ ys) = bytes (xs @ rs ! i # ys) - span (rs ! i)"
    by (fastforce simp: bytes_def)
  then show "bytes (remove_at rs i) = bytes rs - span (rs ! i)"
    using s rm by simp
  show "span (rs ! i) \<subseteq> bytes rs"
    using assms(2) by (auto simp: bytes_def intro!: bexI [of _ "rs ! i"])
  show "Suc (length (remove_at rs i)) = length rs"
    unfolding rm using arg_cong [OF s, of length] by simp
  show "set (remove_at rs i) \<subseteq> set rs"
    unfolding rm using arg_cong [OF s, of set] by auto
qed

subsection \<open>Insertion\<close>

text \<open>
  The scan ends with a region that no region of the list touches any more; together they
  cover the same bytes as before.
\<close>

lemma merge_scan_spec:
  assumes "separated rs" and "valid new" and "\<forall>j < i. merge (rs ! j) new = None" and "i \<le> length rs"
  shows "case merge_scan rs i new of (rs', new') \<Rightarrow>
    separated rs' \<and> valid new' \<and> length rs' \<le> length rs \<and>
    (\<forall>r \<in> set rs'. apart r new' \<or> apart new' r) \<and>
    bytes rs' \<union> span new' = bytes rs \<union> span new"
  using assms
proof (induction rs i new rule: merge_scan.induct)
  case (1 rs i new)
  show ?case
  proof (cases "i < length rs")
    case False
    have "apart r new \<or> apart new r" if "r \<in> set rs" for r
      using that False "1.prems" merge_None [of r new] separated_valid [of rs r]
      by (auto simp: in_set_conv_nth apart_def)
    then show ?thesis
      unfolding merge_scan.simps [of rs i new] using False "1.prems" by simp
  next
    case True
    have v: "valid (rs ! i)" using True "1.prems"(1) by (simp add: separated_valid)
    show ?thesis
    proof (cases "merge (rs ! i) new")
      case None
      with True "1.prems" "1.IH"(1) [OF True None] show ?thesis
        unfolding merge_scan.simps [of rs i new] by (simp add: less_Suc_eq all_conj_distrib)
    next
      case (Some m)
      obtain xs ys where s: "rs = xs @ rs ! i # ys" and rm: "remove_at rs i = xs @ ys"
        using remove_at_split [OF True] by metis
      have "separated (xs @ rs ! i # ys)" using "1.prems"(1) s by metis
      then have "separated (remove_at rs i)" unfolding rm by simp
      have len: "length (remove_at rs i) < length rs"
        unfolding rm using arg_cong [OF s, of length] by simp
      note \<open>separated (remove_at rs i)\<close>
      moreover have "valid m" "span m = span (rs ! i) \<union> span new"
        using merge_Some_span [OF v "1.prems"(2) Some] by simp_all
      ultimately have "case merge_scan (remove_at rs i) 0 m of (rs', new') \<Rightarrow>
          separated rs' \<and> valid new' \<and> length rs' \<le> length (remove_at rs i) \<and>
          (\<forall>r \<in> set rs'. apart r new' \<or> apart new' r) \<and>
          bytes rs' \<union> span new' = bytes (remove_at rs i) \<union> span m"
        using "1.IH"(2) [OF True Some] by simp
      moreover have "bytes (remove_at rs i) \<union> span m = bytes rs \<union> span new"
        unfolding rm \<open>span m = _\<close> using arg_cong [OF s, of bytes] by auto
      ultimately show ?thesis
        unfolding merge_scan.simps [of rs i new] using True Some len by auto
    qed
  qed
qed

text \<open>A property that merging preserves survives the scan.\<close>

lemma merge_scan_closed:
  assumes "\<And>a b m. P a \<Longrightarrow> P b \<Longrightarrow> merge a b = Some m \<Longrightarrow> P m"
    and "\<forall>r \<in> set rs. P r" and "P new"
  shows "case merge_scan rs i new of (rs', new') \<Rightarrow> (\<forall>r \<in> set rs'. P r) \<and> P new'"
  using assms(2,3)
proof (induction rs i new rule: merge_scan.induct)
  case (1 rs i new)
  have rm: "\<forall>r \<in> set (remove_at rs i). P r"
    using "1.prems"(1) by (auto simp: remove_at.simps dest: in_set_takeD in_set_dropD)
  show ?case
  proof (cases "i < length rs")
    case True
    show ?thesis
    proof (cases "merge (rs ! i) new")
      case None
      with True "1.IH"(1) [OF True None "1.prems"] show ?thesis
        unfolding merge_scan.simps [of rs i new] by simp
    next
      case (Some m)
      have "P m" using assms(1) [OF _ "1.prems"(2) Some] "1.prems"(1) True by simp
      with True Some "1.IH"(2) [OF True Some rm] show ?thesis
        unfolding merge_scan.simps [of rs i new] by simp
    qed
  next
    case False
    with "1.prems" show ?thesis unfolding merge_scan.simps [of rs i new] by simp
  qed
qed

lemma insert_idx_Cons:
  "insert_idx (r # rs) new = (if lo new < lo r then 0 else Suc (insert_idx rs new))"
  by (auto simp: insert_idx_def word_less_nat_alt region_defs split: option.splits)

lemma separated_insert:
  assumes "separated rs" and "valid new" and "\<forall>r \<in> set rs. apart r new \<or> apart new r"
  shows "separated (take (insert_idx rs new) rs @ new # drop (insert_idx rs new) rs)"
  using assms
proof (induction rs)
  case Nil
  then show ?case by simp
next
  case (Cons r rs)
  show ?case
  proof (cases "lo new < lo r")
    case True
    then have "apart new r"
      using Cons.prems(3) lo_le_hi [of r] by (auto simp: apart_def)
    moreover from this have "apart new q" if "q \<in> set rs" for q
      using Cons.prems(1) that apart_trans [of new r q] by simp
    ultimately show ?thesis using True Cons.prems by (simp add: insert_idx_Cons)
  next
    case False
    then have "apart r new"
      using Cons.prems(3) lo_le_hi [of new] by (auto simp: apart_def)
    moreover have "apart r q" if "q \<in> set (take n rs) \<union> set (drop n rs)" for q n
      using that Cons.prems(1) by (auto dest: in_set_takeD in_set_dropD)
    ultimately show ?thesis
      using False Cons by (auto simp: insert_idx_Cons)
  qed
qed

lemma bytes_insert: "bytes (take n rs @ new # drop n rs) = bytes rs \<union> span new"
proof -
  have "bytes rs = bytes (take n rs) \<union> bytes (drop n rs)"
    using bytes_simps(3) [of "take n rs" "drop n rs"] by simp
  then show ?thesis by auto
qed

lemma insert_region_spec:
  assumes "rl_inv l" and "valid r" and "count l \<noteq> rl_max l"
  obtains l' where "insert_region l r = Some l'" and "rl_inv l'"
    and "bytes (regions l') = bytes (regions l) \<union> span r"
    and "length (regions l') \<le> Suc (length (regions l))"
    and "rl_max l' = rl_max l" and "rl_ptr l' = rl_ptr l"
proof -
  obtain rs new where ms: "merge_scan (regions l) 0 r = (rs, new)" by fastforce
  have spec: "separated rs" "valid new" "length rs \<le> length (regions l)"
    "\<forall>q \<in> set rs. apart q new \<or> apart new q" "bytes rs \<union> span new = bytes (regions l) \<union> span r"
    using merge_scan_spec [of "regions l" r 0] assms(1,2) ms by (simp_all add: rl_inv_def)
  let ?rs = "take (insert_idx rs new) rs @ new # drop (insert_idx rs new) rs"
  have ins: "insert_region l r = Some (l\<lparr>regions := ?rs\<rparr>)"
    using assms(3) ms by (simp add: insert_region_def Let_def)
  have "length (regions l) < unat (rl_max l)"
    using assms unat_count [of l] by (auto simp: rl_inv_def word_unat_eq_iff)
  then have inv: "rl_inv (l\<lparr>regions := ?rs\<rparr>)"
    using spec separated_insert [OF spec(1,2,4)] by (simp add: rl_inv_def)
  have bytes: "bytes ?rs = bytes (regions l) \<union> span r" and len: "length ?rs = Suc (length rs)"
    using spec(5) by (simp_all only: bytes_insert) simp
  show ?thesis
    by (rule that [OF ins inv]) (use bytes len spec(3) in \<open>simp_all del: bytes_simps\<close>)
qed

lemma insert_region_closed:
  assumes "insert_region l r = Some l'"
    and "\<And>a b m. P a \<Longrightarrow> P b \<Longrightarrow> merge a b = Some m \<Longrightarrow> P m"
    and "\<forall>q \<in> set (regions l). P q" and "P r"
  shows "\<forall>q \<in> set (regions l'). P q"
proof -
  obtain rs new where ms: "merge_scan (regions l) 0 r = (rs, new)" by fastforce
  have "case merge_scan (regions l) 0 r of (rs', new') \<Rightarrow> (\<forall>r \<in> set rs'. P r) \<and> P new'"
    by (rule merge_scan_closed) (fact assms(2), fact+)
  then have "(\<forall>q \<in> set rs. P q) \<and> P new" using ms by simp
  with assms(1) ms show ?thesis
    by (auto simp: insert_region_def Let_def split: if_splits) (meson in_set_takeD in_set_dropD)+
qed

text \<open>Two such properties: ending below a bound, and being non-empty.\<close>

lemma insert_region_below:
  assumes "insert_region l r = Some l'" and "\<forall>q \<in> set (regions l). valid q \<and> hi q \<le> B"
    and "valid r" and "hi r \<le> B"
  shows "\<forall>q \<in> set (regions l'). valid q \<and> hi q \<le> B"
proof -
  have "valid m \<and> hi m \<le> B" if "valid a \<and> hi a \<le> B" "valid b \<and> hi b \<le> B" "merge a b = Some m" for a b m
    using merge_SomeD [OF _ _ that(3)] that(1,2) by simp
  with assms show ?thesis by (elim insert_region_closed) blast+
qed

lemma insert_region_nonempty:
  assumes "insert_region l r = Some l'" and "\<forall>q \<in> set (regions l). valid q \<and> lo q < hi q"
    and "valid r" and "lo r < hi r"
  shows "\<forall>q \<in> set (regions l'). lo q < hi q"
proof -
  have "valid m \<and> lo m < hi m" if "valid a \<and> lo a < hi a" "valid b \<and> lo b < hi b" "merge a b = Some m" for a b m
    using merge_SomeD [OF _ _ that(3)] that(1,2) by (simp add: min_less_iff_disj less_max_iff_disj)
  with assms have "\<forall>q \<in> set (regions l'). valid q \<and> lo q < hi q"
    by (elim insert_region_closed) blast+
  then show ?thesis by simp
qed

text \<open>
  Claim C36. \<open>insert_region\<close> on a list with a free slot keeps the list sorted, separated and
  within its buffer, and the list then covers its former bytes and those of the new region:
  nothing is lost and nothing is added, whatever it overlaps or touches. On a full list
  it panics.
\<close>

theorem insert_region_bytes:
  assumes "rl_inv l" and "valid r"
  shows "(count l = rl_max l \<longrightarrow> insert_region l r = None) \<and>
         (count l \<noteq> rl_max l \<longrightarrow>
            (\<exists>l'. insert_region l r = Some l' \<and> rl_inv l' \<and>
               bytes (regions l') = bytes (regions l) \<union> span r \<and>
               length (regions l') \<le> Suc (length (regions l))))"
proof (cases "count l = rl_max l")
  case True
  then show ?thesis by (simp add: insert_region_def)
next
  case False
  obtain l' where "insert_region l r = Some l'" "rl_inv l'"
    "bytes (regions l') = bytes (regions l) \<union> span r"
    "length (regions l') \<le> Suc (length (regions l))"
    using insert_region_spec [OF assms False] by metis
  with False show ?thesis by blast
qed

theorem insert_region_bytes_witness:
  "case insert_region \<lparr>rl_max = 4, rl_ptr = 0, regions = [rnew 0x1000 0x100, rnew 0x1200 0x100]\<rparr>
      (rnew 0x1100 0x100) of
     None \<Rightarrow> False
   | Some l' \<Rightarrow> regions l' = [rnew 0x1000 0x300] \<and> rl_inv l'"
proof -
  let ?l = "\<lparr>rl_max = 4, rl_ptr = 0, regions = [rnew 0x1000 0x100, rnew 0x1200 0x100]\<rparr>"
  have inv: "rl_inv ?l" "valid (rnew 0x1100 0x100)"
    by (simp_all add: rl_inv_def apart_def valid_def lo_def hi_def)
  have "insert_region ?l (rnew 0x1100 0x100) =
      Some \<lparr>rl_max = 4, rl_ptr = 0, regions = [rnew 0x1000 0x300]\<rparr>"
    by code_simp
  moreover have "count ?l \<noteq> rl_max ?l" by (simp add: count_def)
  ultimately show ?thesis using insert_region_bytes [OF inv] by simp
qed

end
