(* ===== verification/Smalloc.thy ===== *)
theory Smalloc
  imports Region_List
begin

text \<open>
  The boot-time physical allocator \<open>Smalloc\<close> of
  \<^verbatim>\<open>libkernel/src/memory/allocators/smalloc.rs\<close>: a list of memory regions and a list of
  reservations inside or outside them. \<open>None\<close> is a panic or a loop that does not end; an
  operation that returns a \<open>Result\<close> gives the result together with the new state.
\<close>

section \<open>The allocator\<close>

record smalloc =
  memory :: region_list
  res :: region_list
  permit_region_realloc :: bool

datatype RegionListType = Mem | Res

definition smalloc_new :: "region_list \<Rightarrow> region_list \<Rightarrow> smalloc" where
  "smalloc_new m r = \<lparr>memory = m, res = r, permit_region_realloc = False\<rparr>"

definition permit_region_list_reallocs :: "smalloc \<Rightarrow> smalloc" where
  "permit_region_list_reallocs s = s\<lparr>permit_region_realloc := True\<rparr>"

text \<open>The inner loop that skips reservations ending before the candidate.\<close>

function skip_res :: "region list \<Rightarrow> nat \<Rightarrow> region \<Rightarrow> nat" where
  "skip_res rs res_idx candidate =
     (if res_idx < length rs \<and> end_address (rs ! res_idx) \<le> start_address candidate
      then skip_res rs (Suc res_idx) candidate
      else res_idx)"
  by pat_completeness auto
termination
  by (relation "measure (\<lambda>(rs, i, _). length rs - i)") auto

declare skip_res.simps [simp del]

text \<open>
  The search inside one memory region. It returns the address found, or nothing, and the
  reservation index reached, which the search of the next memory region starts from.
\<close>

partial_function (option) search_region ::
  "region list \<Rightarrow> usize \<Rightarrow> region \<Rightarrow> nat \<Rightarrow> region \<Rightarrow> (addr option \<times> nat) option" where
  "search_region rs algn mem_region res_idx candidate =
     (if \<not> contains mem_region candidate then Some (None, res_idx)
      else
        let res_idx = skip_res rs res_idx candidate
        in if res_idx < length rs \<and> overlaps candidate (rs ! res_idx)
           then (case align_up (end_address (rs ! res_idx)) algn of
                   None \<Rightarrow> None
                 | Some a \<Rightarrow>
                     search_region rs algn mem_region res_idx (with_start_address candidate a))
           else Some (Some (start_address candidate), res_idx))"

declare search_region.simps [code]

fun search_memory ::
  "region list \<Rightarrow> usize \<Rightarrow> usize \<Rightarrow> region list \<Rightarrow> nat \<Rightarrow> addr option option" where
  "search_memory rs sz algn [] res_idx = Some None"
| "search_memory rs sz algn (mem_region # ms) res_idx =
     (case align_up (start_address mem_region) algn of
        None \<Rightarrow> None
      | Some a \<Rightarrow>
          (case search_region rs algn mem_region res_idx (rnew a sz) of
             None \<Rightarrow> None
           | Some (Some p, _) \<Rightarrow> Some (Some p)
           | Some (None, res_idx') \<Rightarrow> search_memory rs sz algn ms res_idx'))"

definition find_allocation_location :: "smalloc \<Rightarrow> usize \<Rightarrow> usize \<Rightarrow> addr option option" where
  "find_allocation_location s sz algn =
     search_memory (regions (res s)) sz algn (regions (memory s)) 0"

text \<open>
  \<open>free\<close> and \<open>grow_region_list\<close> call each other: freeing may need room for a split
  reservation, and growing frees the old buffer. Growing the memory list can call for one
  growth of the reserved list, whose own \<open>free\<close> finds the doubled capacity; the fuel counts
  the nesting and \<open>REALLOC_DEPTH\<close> covers it. The element removed by \<open>free\<close> is the
  one at the index found before the growth, as in the source.
\<close>

definition REGION_BYTES :: usize where
  "REGION_BYTES = 16"

definition REGION_ALIGN :: usize where
  "REGION_ALIGN = 8"

definition insert_res :: "smalloc \<Rightarrow> region \<Rightarrow> smalloc option" where
  "insert_res s r = map_option (\<lambda>l. s\<lparr>res := l\<rparr>) (insert_region (res s) r)"

text \<open>
  The index may have been overtaken by a growth of the list. The source copies from beyond its end
  then, with a length that wraps around: undefined behaviour, which is \<open>None\<close>.
\<close>

definition free_at :: "smalloc \<Rightarrow> nat \<Rightarrow> region \<Rightarrow> region \<Rightarrow> smalloc option" where
  "free_at s index old region_to_remove =
     (if index \<ge> length (regions (res s)) then None
      else
      let s = s\<lparr>res := (res s)\<lparr>regions := remove_at (regions (res s)) index\<rparr>\<rparr>;
          start_val = start_address old;
          end_val = end_address old;
          remove_start = start_address region_to_remove;
          remove_end = end_address region_to_remove
      in Option.bind
           (if remove_start > start_val
            then insert_res s (rnew start_val (remove_start - start_val)) else Some s)
           (\<lambda>s. if remove_end < end_val
                then insert_res s (rnew remove_end (end_val - remove_end)) else Some s))"

fun free_fuel :: "nat \<Rightarrow> translator \<Rightarrow> smalloc \<Rightarrow> addr \<Rightarrow> usize \<Rightarrow> (unit result \<times> smalloc) option"
  and grow_fuel :: "nat \<Rightarrow> translator \<Rightarrow> smalloc \<Rightarrow> RegionListType \<Rightarrow> (unit result \<times> smalloc) option"
where
  "free_fuel 0 tr s a sz = None"
| "free_fuel (Suc fuel) tr s a sz =
     (let region_to_remove = rnew a sz
      in case position (\<lambda>r. contains r region_to_remove) (regions (res s)) of
           None \<Rightarrow> Some (Inl NoMemRegion, s)
         | Some index \<Rightarrow>
             let old = regions (res s) ! index
             in Option.bind
                  (if requires_reallocation (res s) then grow_fuel fuel tr s Res
                   else Some (Inr (), s))
                  (\<lambda>(r, s). case r of
                      Inl e \<Rightarrow> Some (Inl e, s)
                    | Inr _ \<Rightarrow>
                        map_option (\<lambda>s. (Inr (), s)) (free_at s index old region_to_remove)))"
| "grow_fuel 0 tr s t = None"
| "grow_fuel (Suc fuel) tr s t =
     (if \<not> permit_region_realloc s then Some (Inl NoMemory, s)
      else
        let lst = (case t of Mem \<Rightarrow> memory s | Res \<Rightarrow> res s);
            old_max = rl_max lst;
            new_max = old_max * 2;
            new_size = new_max * REGION_BYTES
        in Option.bind (find_allocation_location s new_size REGION_ALIGN)
             (\<lambda>found. case found of
                None \<Rightarrow> Some (Inl NoMemory, s)
              | Some a \<Rightarrow>
                  let new_ptr = phys_to_virt tr a;
                      old_size = old_max * REGION_BYTES;
                      old_ptr = rl_ptr lst;
                      lst = lst\<lparr>rl_ptr := new_ptr, rl_max := new_max\<rparr>;
                      s = (case t of Mem \<Rightarrow> s\<lparr>memory := lst\<rparr> | Res \<Rightarrow> s\<lparr>res := lst\<rparr>)
                  in Option.bind (free_fuel fuel tr s old_ptr old_size)
                       (\<lambda>(_, s). map_option (\<lambda>s. (Inr (), s))
                          (insert_res s (rnew new_ptr new_size)))))"

definition REALLOC_DEPTH :: nat where
  "REALLOC_DEPTH = 6"

definition smalloc_free ::
  "translator \<Rightarrow> smalloc \<Rightarrow> addr \<Rightarrow> usize \<Rightarrow> (unit result \<times> smalloc) option" where
  "smalloc_free tr s a sz = free_fuel REALLOC_DEPTH tr s a sz"

definition grow_region_list ::
  "translator \<Rightarrow> smalloc \<Rightarrow> RegionListType \<Rightarrow> (unit result \<times> smalloc) option" where
  "grow_region_list tr s t = grow_fuel REALLOC_DEPTH tr s t"

definition NULL_PAGE_RGN :: region where
  "NULL_PAGE_RGN = rnew 0 PAGE_SIZE"

partial_function (option) smalloc_alloc ::
  "translator \<Rightarrow> smalloc \<Rightarrow> usize \<Rightarrow> usize \<Rightarrow> (addr result \<times> smalloc) option" where
  "smalloc_alloc tr s sz algn =
     Option.bind
       (if requires_reallocation (res s) then grow_region_list tr s Res else Some (Inr (), s))
       (\<lambda>(r, s). case r of
           Inl e \<Rightarrow> Some (Inl e, s)
         | Inr _ \<Rightarrow>
             Option.bind (find_allocation_location s sz algn)
               (\<lambda>found. case found of
                   None \<Rightarrow> Some (Inl NoMemory, s)
                 | Some a \<Rightarrow>
                     if is_null a
                     then Option.bind (insert_res s NULL_PAGE_RGN)
                            (\<lambda>s. smalloc_alloc tr s sz algn)
                     else map_option (\<lambda>s. (Inr a, s)) (insert_res s (rnew a sz))))"

declare smalloc_alloc.simps [code]

definition add_reservation ::
  "translator \<Rightarrow> smalloc \<Rightarrow> region \<Rightarrow> (unit result \<times> smalloc) option" where
  "add_reservation tr s r =
     Option.bind
       (if requires_reallocation (res s) then grow_region_list tr s Res else Some (Inr (), s))
       (\<lambda>(g, s). case g of
           Inl e \<Rightarrow> Some (Inl e, s)
         | Inr _ \<Rightarrow> map_option (\<lambda>s. (Inr (), s)) (insert_res s r))"

definition base_ram_base_address :: "smalloc \<Rightarrow> addr option" where
  "base_ram_base_address s =
     (if rl_is_empty (memory s) then None else Some (start_address (regions (memory s) ! 0)))"

definition insert_mem :: "smalloc \<Rightarrow> region \<Rightarrow> smalloc option" where
  "insert_mem s r = map_option (\<lambda>l. s\<lparr>memory := l\<rparr>) (insert_region (memory s) r)"

definition add_memory ::
  "translator \<Rightarrow> smalloc \<Rightarrow> region \<Rightarrow> (unit result \<times> smalloc) option" where
  "add_memory tr s r =
     Option.bind
       (if requires_reallocation (memory s) then grow_region_list tr s Mem else Some (Inr (), s))
       (\<lambda>(g, s). case g of
           Inl e \<Rightarrow> Some (Inl e, s)
         | Inr _ \<Rightarrow> map_option (\<lambda>s. (Inr (), s)) (insert_mem s r))"

definition insert_opt_mem :: "smalloc \<Rightarrow> region option \<Rightarrow> smalloc option" where
  "insert_opt_mem s x = (case x of None \<Rightarrow> Some s | Some r \<Rightarrow> insert_mem s r)"

definition claim_region ::
  "translator \<Rightarrow> smalloc \<Rightarrow> region \<Rightarrow> (unit result \<times> smalloc) option" where
  "claim_region tr s r =
     (if \<not> list_ex (\<lambda>m. contains m r) (regions (memory s)) then Some (Inl InvalidValue, s)
      else
        Option.bind
          (if requires_reallocation (memory s) then grow_region_list tr s Mem
           else Some (Inr (), s))
          (\<lambda>(g, s). case g of
              Inl e \<Rightarrow> Some (Inl e, s)
            | Inr _ \<Rightarrow>
                (case position (\<lambda>m. contains m r) (regions (memory s)) of
                   None \<Rightarrow> None
                 | Some containing_idx \<Rightarrow>
                     let containing = regions (memory s) ! containing_idx;
                         s = s\<lparr>memory := (memory s)
                               \<lparr>regions := remove_at (regions (memory s)) containing_idx\<rparr>\<rparr>;
                         (left, right) = punch_hole containing r
                     in Option.bind (insert_opt_mem s left)
                          (\<lambda>s. map_option (\<lambda>s. (Inr (), s)) (insert_opt_mem s right)))))"

definition alloc_page :: "translator \<Rightarrow> smalloc \<Rightarrow> (pfn result \<times> smalloc) option" where
  "alloc_page tr s =
     map_option (\<lambda>(r, s). (map_sum (\<lambda>e. e) (\<lambda>pa. drop_bit PAGE_SHIFT pa) r, s))
       (smalloc_alloc tr s PAGE_SIZE PAGE_SIZE)"

text \<open>
  \<open>FreeRegionsIter\<close>: the fragments still to be looked at are \<open>current_fragment\<close>, when
  there is one, followed by what \<open>mem_iter\<close> has left. The result lists what repeated calls of
  \<open>next\<close> yield. Each call of \<open>from_start_end_address\<close> stands under a guard that implies
  its assertion.
\<close>

function iter_free_from :: "region list \<Rightarrow> region list \<Rightarrow> region list" where
  "iter_free_from [] rs = []"
| "iter_free_from (fragment # pending) rs =
     (case dropWhile (\<lambda>r. is_before r fragment) rs of
        [] \<Rightarrow> fragment # iter_free_from pending []
      | res_region # rs' \<Rightarrow>
          if is_after res_region fragment then fragment # iter_free_from pending (res_region # rs')
          else if start_address fragment < start_address res_region
          then from_start_end_unchecked (start_address fragment) (start_address res_region) #
               iter_free_from
                 ((if end_address res_region < end_address fragment
                   then [from_start_end_unchecked (end_address res_region) (end_address fragment)]
                   else []) @ pending) rs'
          else if end_address res_region \<ge> end_address fragment then iter_free_from pending rs'
          else iter_free_from
                 (from_start_end_unchecked (end_address res_region) (end_address fragment) # pending)
                 rs')"
  by pat_completeness auto
termination
  by (relation "measure (\<lambda>(fs, rs). length fs + length rs)")
    (auto dest: dropWhile_Cons_length)

declare iter_free_from.simps(2) [simp del]

definition iter_free :: "smalloc \<Rightarrow> region list" where
  "iter_free s = iter_free_from (regions (memory s)) (regions (res s))"

end
