(* ===== verification/Smalloc_Proofs.thy ===== *)
theory Smalloc_Proofs
  imports Smalloc
begin

text \<open>
  What the boot allocator does: its search finds the lowest free spot, an allocation reserves
  memory that was free, freeing gives back exactly the bytes named, and the list of free
  regions is memory minus reservations.
\<close>

section \<open>The search for a free spot\<close>

text \<open>
  A block of \<open>n\<close> bytes at \<open>p\<close> avoids a reservation when it ends before it or starts
  after it. Rounding and adding sizes does not wrap when every region ends at least
  \<open>A + n\<close> bytes below the top of the address space.
\<close>


definition avoids :: "nat \<Rightarrow> region \<Rightarrow> nat \<Rightarrow> bool" where
  "avoids n r p \<longleftrightarrow> p + n \<le> lo r \<or> hi r \<le> p"

definition roomy :: "nat \<Rightarrow> nat \<Rightarrow> region list \<Rightarrow> bool" where
  "roomy n A rs \<longleftrightarrow> (\<forall>r \<in> set rs. hi r + A + n \<le> 2 ^ 64)"

lemma skip_res_spec:
  assumes "separated rs" and "i \<le> length rs" and "\<forall>j < i. hi (rs ! j) \<le> lo c"
  shows "i \<le> skip_res rs i c" and "skip_res rs i c \<le> length rs"
    and "\<forall>j < skip_res rs i c. hi (rs ! j) \<le> lo c"
    and "skip_res rs i c < length rs \<Longrightarrow> lo c < hi (rs ! skip_res rs i c)"
  using assms
proof (atomize (full), induction rs i c rule: skip_res.induct)
  case (1 rs i c)
  have v: "i < length rs \<Longrightarrow> valid (rs ! i)"
    using "1.prems" by (simp add: separated_valid)
  show ?case
  proof (cases "i < length rs \<and> end_address (rs ! i) \<le> start_address c")
    case True
    then have "hi (rs ! i) \<le> lo c" using v by (simp add: word_le_nat_alt region_defs)
    then have "\<forall>j < Suc i. hi (rs ! j) \<le> lo c" using "1.prems" by (simp add: less_Suc_eq)
    with "1.IH" [OF True] "1.prems" True
    have "Suc i \<le> skip_res rs (Suc i) c \<and> skip_res rs (Suc i) c \<le> length rs \<and>
        (\<forall>j < skip_res rs (Suc i) c. hi (rs ! j) \<le> lo c) \<and>
        (skip_res rs (Suc i) c < length rs \<longrightarrow> lo c < hi (rs ! skip_res rs (Suc i) c))"
      by (meson Suc_leI)
    moreover have "skip_res rs i c = skip_res rs (Suc i) c"
      by (subst skip_res.simps) (simp only: True if_True simp_thms)
    ultimately show ?thesis by simp
  next
    case False
    then have "skip_res rs i c = i"
      by (subst skip_res.simps) (simp only: if_False)
    with False "1.prems" v show ?thesis
      by (auto simp: word_le_nat_alt region_defs)
  qed
qed

lemma skip_res_advance:
  assumes "separated rs" and "i < length rs" and "hi (rs ! i) \<le> lo c" "\<forall>j < i. hi (rs ! j) \<le> lo c"
  shows "i < skip_res rs i c"
proof -
  have "valid (rs ! i)" using assms by (simp add: separated_valid)
  then have "skip_res rs i c = skip_res rs (Suc i) c"
    using assms(2,3) by (subst skip_res.simps) (simp add: word_le_nat_alt region_defs)
  moreover have "Suc i \<le> skip_res rs (Suc i) c"
    using assms by (intro skip_res_spec) (auto simp: less_Suc_eq)
  ultimately show ?thesis by simp
qed


lemma align_up_spec:
  assumes "is_power_of_two algn" and "unat a + unat algn \<le> 2 ^ 64"
  obtains b where "align_up a algn = Some b" and "unat b = round_up (unat algn) (unat a)"
proof -
  have "unat a + (unat algn - 1) < 18446744073709551616"
    using assms is_power_of_two_pos [OF assms(1)] by simp
  then show ?thesis
    using that assms(1) by (simp add: align_up_def unat_align_up_bits)
qed

definition search_result ::
  "region list \<Rightarrow> nat \<Rightarrow> nat \<Rightarrow> region \<Rightarrow> nat \<Rightarrow> addr option \<times> nat \<Rightarrow> bool" where
  "search_result rs n A m s out \<longleftrightarrow>
     snd out \<le> length rs \<and> (\<forall>j < snd out. hi (rs ! j) \<le> hi m) \<and>
     (case fst out of
        Some p \<Rightarrow> A dvd unat p \<and> s \<le> unat p \<and> unat p + n \<le> hi m \<and>
                  (\<forall>r \<in> set rs. avoids n r (unat p)) \<and>
                  (\<forall>q. A dvd q \<and> s \<le> q \<and> q < unat p \<longrightarrow> (\<exists>r \<in> set rs. \<not> avoids n r q))
      | None \<Rightarrow> \<forall>q. A dvd q \<and> s \<le> q \<and> q + n \<le> hi m \<longrightarrow> (\<exists>r \<in> set rs. \<not> avoids n r q))"

lemma all_avoided:
  assumes "separated rs" and "k \<le> length rs" and "\<forall>j < k. hi (rs ! j) \<le> p"
    and "k < length rs \<Longrightarrow> p + n \<le> lo (rs ! k)"
  shows "\<forall>r \<in> set rs. avoids n r p"
proof
  fix r assume "r \<in> set rs"
  then obtain j where j: "j < length rs" "r = rs ! j" by (auto simp: in_set_conv_nth)
  consider "j < k" | "j = k" | "k < j" by linarith
  then show "avoids n r p"
  proof cases
    case 3
    then have "hi (rs ! k) < lo (rs ! j)"
      using assms(1) j(1) by (simp add: separated_nth_less)
    moreover have "p + n \<le> lo (rs ! k)" using 3 j(1) assms(4) by simp
    ultimately show ?thesis
      unfolding avoids_def j(2) using lo_le_hi [of "rs ! k"] by linarith
  qed (use j assms in \<open>auto simp: avoids_def\<close>)
qed

lemma search_result_earlier:
  assumes "search_result rs n A m t out" and "s \<le> t"
    and "\<And>q. A dvd q \<Longrightarrow> s \<le> q \<Longrightarrow> q < t \<Longrightarrow> \<exists>r \<in> set rs. \<not> avoids n r q"
  shows "search_result rs n A m s out"
  using assms unfolding search_result_def
  by (auto split: option.splits) (meson not_le)+

lemma search_region_spec:
  assumes rs: "separated rs" "roomy n A rs"
    and m: "valid m" "lo m < hi m"
    and A: "is_power_of_two algn" "A = unat algn" and n: "n = unat sz" "0 < n"
    and c: "rsize c = sz" "valid c" "lo m \<le> lo c" "A dvd lo c"
    and i: "i \<le> length rs" "\<forall>j < i. hi (rs ! j) \<le> lo c" "\<forall>j < i. hi (rs ! j) \<le> hi m"
  shows "\<exists>out. search_region rs algn m i c = Some out \<and> search_result rs n A m (lo c) out"
  using c i
proof (induction "length rs - skip_res rs i c" arbitrary: i c rule: less_induct)
  case less
  note c = less.prems(1-4) and i = less.prems(5-7)
  let ?k = "skip_res rs i c"
  have hic: "hi c = lo c + n" using c(1) n(1) by (simp add: hi_def lo_def)
  have cont: "contains m c \<longleftrightarrow> lo c + n \<le> hi m"
    using m c n(2) hic by (subst contains_iff) (auto simp: valid_def)
  note k = skip_res_spec [OF rs(1) i(1,2)]
  show ?case
  proof (cases "contains m c")
    case False
    then have "search_region rs algn m i c = Some (None, i)"
      by (simp add: search_region.simps)
    moreover have "search_result rs n A m (lo c) (None, i)"
      using False cont i by (auto simp: search_result_def)
    ultimately show ?thesis by blast
  next
    case True
    show ?thesis
    proof (cases "?k < length rs \<and> overlaps c (rs ! ?k)")
      case False
      then have "search_region rs algn m i c = Some (Some (start_address c), ?k)"
        using True by (auto simp: search_region.simps [of rs algn m i c] Let_def)
      moreover have "?k < length rs \<Longrightarrow> lo c + n \<le> lo (rs ! ?k)"
        using False k(4) hic overlaps_iff [OF c(2) separated_valid [OF rs(1), of "rs ! ?k"]] by auto
      then have "\<forall>r \<in> set rs. avoids n r (lo c)"
        using all_avoided [OF rs(1) k(2,3)] by blast
      then have "search_result rs n A m (lo c) (Some (start_address c), ?k)"
        using True cont c k(2,3) by (fastforce simp: search_result_def region_defs)
      ultimately show ?thesis by blast
    next
      case overlap: True
      let ?r = "rs ! ?k"
      have r: "valid ?r" "hi ?r + A + n \<le> 2 ^ 64" "?r \<in> set rs"
        using overlap rs by (auto simp: separated_valid roomy_def)
      then obtain b where b: "align_up (end_address ?r) algn = Some b" "unat b = round_up A (hi ?r)"
        using align_up_spec [OF A(1), of "end_address ?r"] A(2)
        by (metis unat_end_address add_leD1)
      let ?c = "with_start_address c b"
      have A0: "0 < A" using is_power_of_two_pos [OF A(1)] A(2) by simp
      have loc: "lo ?c = round_up A (hi ?r)" "rsize ?c = sz"
        using b(2) c(1) by (simp_all add: with_start_address_def lo_def)
      have touch: "lo ?r < lo c + n" "lo c < hi ?r"
        using overlap overlaps_iff [OF c(2) r(1)] hic by simp_all
      have up: "hi ?r \<le> lo ?c" "lo ?c < hi ?r + A"
        using round_up_ge [OF A0] round_up_less [OF A0] loc(1) by simp_all
      have bad: "\<not> avoids n ?r q" if "A dvd q" "lo c \<le> q" "q < lo ?c" for q
      proof -
        have "q < hi ?r"
          using that(1,3) round_up_least [OF A0 that(1), of "hi ?r"] loc(1) by linarith
        with that(2) touch show ?thesis by (simp add: avoids_def)
      qed
      have vc: "valid ?c"
        using up r(2) loc n(1) by (simp add: valid_def hi_def lo_def)
      have pre: "\<forall>j < ?k. hi (rs ! j) \<le> lo ?c" "\<forall>j < ?k. hi (rs ! j) \<le> hi m"
        using k(3) touch up True cont by fastforce+
      have "?k < skip_res rs ?k ?c"
        using overlap rs(1) up(1) pre(1) by (intro skip_res_advance) auto
      moreover have "skip_res rs ?k ?c \<le> length rs"
        using skip_res_spec(2) [OF rs(1) k(2) pre(1)] .
      ultimately have "length rs - skip_res rs ?k ?c < length rs - ?k" by linarith
      from less.hyps [OF this loc(2) vc _ _ k(2) pre] obtain out where
        out: "search_region rs algn m ?k ?c = Some out" "search_result rs n A m (lo ?c) out"
        using c(3) touch up loc(1) by fastforce
      have "search_region rs algn m i c = Some out"
        using True overlap b(1) out(1) by (simp add: search_region.simps [of rs algn m i c] Let_def)
      moreover have "search_result rs n A m (lo c) out"
        using search_result_earlier [OF out(2), of "lo c"] bad r(3) touch up by fastforce
      ultimately show ?thesis by blast
    qed
  qed
qed

text \<open>A place in memory, and a place no reservation reaches.\<close>

definition in_memory :: "region list \<Rightarrow> nat \<Rightarrow> nat \<Rightarrow> nat \<Rightarrow> bool" where
  "in_memory ms n A p \<longleftrightarrow> A dvd p \<and> (\<exists>m \<in> set ms. lo m \<le> p \<and> p + n \<le> hi m)"

definition unreserved :: "region list \<Rightarrow> nat \<Rightarrow> nat \<Rightarrow> bool" where
  "unreserved rs n p \<longleftrightarrow> (\<forall>r \<in> set rs. avoids n r p)"

definition first_fit :: "region list \<Rightarrow> region list \<Rightarrow> nat \<Rightarrow> nat \<Rightarrow> addr option \<Rightarrow> bool" where
  "first_fit ms rs n A out \<longleftrightarrow>
     (case out of
        Some p \<Rightarrow> in_memory ms n A (unat p) \<and> unreserved rs n (unat p) \<and>
                  (\<forall>q < unat p. \<not> (in_memory ms n A q \<and> unreserved rs n q))
      | None \<Rightarrow> \<forall>q. \<not> (in_memory ms n A q \<and> unreserved rs n q))"

lemma in_memory_Cons:
  "in_memory (m # ms) n A q \<longleftrightarrow> (A dvd q \<and> lo m \<le> q \<and> q + n \<le> hi m) \<or> in_memory ms n A q"
  by (auto simp: in_memory_def)

lemma first_fit_here:
  assumes "search_result rs n A m s (Some p, k)" and "lo m \<le> s"
    and "\<And>q. A dvd q \<Longrightarrow> lo m \<le> q \<Longrightarrow> s \<le> q" and "separated (m # ms)" and "0 < n"
  shows "first_fit (m # ms) rs n A (Some p)"
proof -
  have p: "A dvd unat p" "s \<le> unat p" "unat p + n \<le> hi m" "unreserved rs n (unat p)"
    and least: "\<And>q. A dvd q \<Longrightarrow> s \<le> q \<Longrightarrow> q < unat p \<Longrightarrow> \<not> unreserved rs n q"
    using assms(1) by (auto simp: search_result_def unreserved_def)
  have "\<not> in_memory ms n A q" if "q < unat p" for q
  proof
    assume "in_memory ms n A q"
    then obtain m' where "m' \<in> set ms" "lo m' \<le> q" by (auto simp: in_memory_def)
    moreover from this(1) have "hi m < lo m'" using assms(4) by (simp add: apart_def)
    ultimately show False using that p(3) by linarith
  qed
  moreover have "in_memory (m # ms) n A (unat p)"
    using p assms(2) by (simp add: in_memory_Cons)
  ultimately show ?thesis
    using p(4) least assms(3) by (auto simp: first_fit_def in_memory_Cons)
qed

lemma first_fit_next:
  assumes "search_result rs n A m s (None, k)" and "first_fit ms rs n A out"
    and "\<And>q. A dvd q \<Longrightarrow> lo m \<le> q \<Longrightarrow> s \<le> q"
  shows "first_fit (m # ms) rs n A out"
proof -
  have "\<not> unreserved rs n q" if "A dvd q" "lo m \<le> q" "q + n \<le> hi m" for q
    using assms(1,3) that by (auto simp: search_result_def unreserved_def)
  with assms(2) show ?thesis
    by (auto simp: first_fit_def in_memory_Cons split: option.splits)
qed

lemma search_memory_spec:
  assumes rs: "separated rs" "roomy n A rs" and ms: "separated ms" "roomy n A ms" "\<forall>m \<in> set ms. lo m < hi m"
    and A: "is_power_of_two algn" "A = unat algn" and n: "n = unat sz" "0 < n"
    and i: "i \<le> length rs" "\<forall>m \<in> set ms. \<forall>j < i. hi (rs ! j) \<le> lo m"
  shows "\<exists>out. search_memory rs sz algn ms i = Some out \<and> first_fit ms rs n A out"
  using ms i
proof (induction ms arbitrary: i)
  case Nil
  then show ?case by (simp add: first_fit_def in_memory_def)
next
  case (Cons m ms)
  have A0: "0 < A" using is_power_of_two_pos [OF A(1)] A(2) by simp
  have m: "valid m" "lo m < hi m" "hi m + A + n \<le> 2 ^ 64"
    using Cons.prems(1-3) by (auto simp: roomy_def)
  obtain b where b: "align_up (start_address m) algn = Some b" "unat b = round_up A (lo m)"
    using align_up_spec [OF A(1), of "start_address m"] A(2) m by (auto simp: region_defs)
  have up: "lo m \<le> unat b" "unat b < lo m + A"
    using round_up_ge [OF A0] round_up_less [OF A0] b(2) by simp_all
  have lob: "lo (rnew b sz) = unat b" by (simp add: lo_def)
  have c: "rsize (rnew b sz) = sz" "valid (rnew b sz)" "lo m \<le> lo (rnew b sz)" "A dvd lo (rnew b sz)"
    using up m n(1) b(2) by (simp_all add: valid_def hi_def lob)
  have "\<forall>j < i. hi (rs ! j) \<le> lo (rnew b sz)" "\<forall>j < i. hi (rs ! j) \<le> hi m"
    using Cons.prems(5) c(3) m(2) by fastforce+
  from search_region_spec [OF rs m(1,2) A n c Cons.prems(4) this]
  obtain out k where out: "search_region rs algn m i (rnew b sz) = Some (out, k)"
    and sr: "search_result rs n A m (unat b) (out, k)"
    using lob by auto
  have start: "unat b \<le> q" if "A dvd q" "lo m \<le> q" for q
    using round_up_least [OF A0 that] b(2) by simp
  show ?case
  proof (cases out)
    case (Some p)
    then have "search_memory rs sz algn (m # ms) i = Some (Some p)"
      using out b(1) by simp
    with first_fit_here [OF _ up(1) start Cons.prems(1) n(2)] sr Some show ?thesis by blast
  next
    case None
    have "\<forall>m' \<in> set ms. \<forall>j < k. hi (rs ! j) \<le> lo m'"
      using sr Cons.prems(1) by (fastforce simp: search_result_def apart_def)
    moreover have "k \<le> length rs" using sr by (simp add: search_result_def)
    moreover have "separated ms" "roomy n A ms" "\<forall>m \<in> set ms. lo m < hi m"
      using Cons.prems(1-3) by (auto simp: roomy_def)
    ultimately obtain out' where out': "search_memory rs sz algn ms k = Some out'"
      and "first_fit ms rs n A out'"
      using Cons.IH by blast
    then have "first_fit (m # ms) rs n A out'"
      using first_fit_next start sr None by blast
    moreover have "search_memory rs sz algn (m # ms) i = Some out'"
      using None out b(1) out' by simp
    ultimately show ?thesis by blast
  qed
qed

section \<open>Allocation\<close>

definition smalloc_inv :: "smalloc \<Rightarrow> bool" where
  "smalloc_inv s \<longleftrightarrow> rl_inv (memory s) \<and> rl_inv (res s) \<and>
     (\<forall>m \<in> set (regions (memory s)). lo m < hi m) \<and> (\<forall>r \<in> set (regions (res s)). lo r < hi r)"

definition headroom :: "smalloc \<Rightarrow> nat \<Rightarrow> nat \<Rightarrow> bool" where
  "headroom s n A \<longleftrightarrow> roomy n A (regions (memory s)) \<and> roomy n A (regions (res s))"

abbreviation mem_bytes :: "smalloc \<Rightarrow> nat set" where
  "mem_bytes s \<equiv> bytes (regions (memory s))"

abbreviation res_bytes :: "smalloc \<Rightarrow> nat set" where
  "res_bytes s \<equiv> bytes (regions (res s))"

lemma unreserved_bytes:
  assumes "\<forall>r \<in> set rs. lo r < hi r" and "0 < n"
  shows "unreserved rs n p \<longleftrightarrow> {p..<p + n} \<inter> bytes rs = {}"
proof -
  have "avoids n r p \<longleftrightarrow> {p..<p + n} \<inter> span r = {}" if "lo r < hi r" for r
    using that assms(2) unfolding avoids_def span_def by auto
  then show ?thesis using assms(1) by (auto simp: unreserved_def bytes_def)
qed

lemma find_allocation_location_spec:
  assumes "smalloc_inv s" and "headroom s (unat sz) (unat algn)" and "is_power_of_two algn"
    and "0 < unat sz"
  obtains out where "find_allocation_location s sz algn = Some out"
    and "first_fit (regions (memory s)) (regions (res s)) (unat sz) (unat algn) out"
  using search_memory_spec [of "regions (res s)" "unat sz" "unat algn" "regions (memory s)" algn sz 0]
    assms that
  by (auto simp: smalloc_inv_def rl_inv_def headroom_def find_allocation_location_def)

lemma not_requires_reallocation:
  assumes "rl_inv l" and "Suc (length (regions l)) < unat (rl_max l)"
  shows "\<not> requires_reallocation l" and "count l \<noteq> rl_max l"
proof -
  have c: "unat (count l) = length (regions l)"
    using assms(1) by (simp add: rl_inv_def unat_count)
  have "unat (rl_max l - 1) = unat (rl_max l) - 1"
    using assms(2) by (simp add: unat_sub_usize)
  with c assms(2) show "\<not> requires_reallocation l"
    by (simp add: requires_reallocation_def word_le_nat_alt)
  show "count l \<noteq> rl_max l" using c assms(2) by auto
qed

lemma insert_res_spec:
  assumes "smalloc_inv s" and "valid r" and "lo r < hi r"
    and "Suc (length (regions (res s))) < unat (rl_max (res s))"
  obtains s' where "insert_res s r = Some s'" and "smalloc_inv s'" and "memory s' = memory s"
    and "res_bytes s' = res_bytes s \<union> span r"
    and "length (regions (res s')) \<le> Suc (length (regions (res s)))"
    and "rl_max (res s') = rl_max (res s)"
    and "permit_region_realloc s' = permit_region_realloc s"
proof -
  have inv: "rl_inv (res s)" "\<forall>q \<in> set (regions (res s)). valid q \<and> lo q < hi q"
    using assms(1) by (auto simp: smalloc_inv_def rl_inv_def separated_valid)
  obtain l' where l': "insert_region (res s) r = Some l'" "rl_inv l'"
      "bytes (regions l') = res_bytes s \<union> span r"
      "length (regions l') \<le> Suc (length (regions (res s)))" "rl_max l' = rl_max (res s)"
    using insert_region_spec [OF inv(1) assms(2) not_requires_reallocation(2) [OF inv(1) assms(4)]]
    by metis
  have "\<forall>q \<in> set (regions l'). lo q < hi q"
    by (rule insert_region_nonempty [OF l'(1) inv(2) assms(2,3)])
  with assms(1) l' show ?thesis
    by (intro that [of "s\<lparr>res := l'\<rparr>"]) (simp_all add: insert_res_def smalloc_inv_def)
qed

text \<open>One round of \<open>alloc\<close> when neither list has to grow.\<close>

lemma smalloc_alloc_round:
  assumes "\<not> requires_reallocation (res s)" and "find_allocation_location s sz algn = Some out"
  shows "smalloc_alloc tr s sz algn =
    (case out of
       None \<Rightarrow> Some (Inl NoMemory, s)
     | Some a \<Rightarrow>
         if a = 0 then Option.bind (insert_res s NULL_PAGE_RGN) (\<lambda>s. smalloc_alloc tr s sz algn)
         else map_option (\<lambda>s. (Inr a, s)) (insert_res s (rnew a sz)))"
  using assms by (subst smalloc_alloc.simps) (simp add: is_null_def)

text \<open>What an allocation promises, given that no reservation of the null page is needed.\<close>

definition alloc_ok :: "smalloc \<Rightarrow> nat \<Rightarrow> nat \<Rightarrow> addr result \<times> smalloc \<Rightarrow> bool" where
  "alloc_ok s n A out \<longleftrightarrow>
     (case out of (r, s') \<Rightarrow>
        smalloc_inv s' \<and> memory s' = memory s \<and>
        (case r of
           Inr a \<Rightarrow> a \<noteq> 0 \<and> in_memory (regions (memory s)) n A (unat a) \<and>
                    {unat a..<unat a + n} \<inter> res_bytes s = {} \<and>
                    res_bytes s' = res_bytes s \<union> {unat a..<unat a + n} \<and>
                    (\<forall>q < unat a. in_memory (regions (memory s)) n A q \<longrightarrow>
                       {q..<q + n} \<inter> res_bytes s \<noteq> {})
         | Inl e \<Rightarrow> e = NoMemory \<and> s' = s \<and>
                    (\<forall>q. in_memory (regions (memory s)) n A q \<longrightarrow> {q..<q + n} \<inter> res_bytes s \<noteq> {})))"

lemma smalloc_alloc_nonnull:
  assumes inv: "smalloc_inv s" and room: "headroom s (unat sz) (unat algn)"
    and algn: "is_power_of_two algn" and sz: "0 < unat sz"
    and cap: "Suc (length (regions (res s))) < unat (rl_max (res s))"
    and nn: "find_allocation_location s sz algn \<noteq> Some (Some 0)"
  shows "\<exists>out. smalloc_alloc tr s sz algn = Some out \<and> alloc_ok s (unat sz) (unat algn) out"
proof -
  have nreq: "\<not> requires_reallocation (res s)"
    using inv cap not_requires_reallocation by (simp add: smalloc_inv_def)
  have ne: "\<forall>r \<in> set (regions (res s)). lo r < hi r" using inv by (simp add: smalloc_inv_def)
  note free = unreserved_bytes [OF ne sz]
  obtain out where out: "find_allocation_location s sz algn = Some out"
    and ff: "first_fit (regions (memory s)) (regions (res s)) (unat sz) (unat algn) out"
    using find_allocation_location_spec [OF inv room algn sz] .
  show ?thesis
  proof (cases out)
    case None
    then have "smalloc_alloc tr s sz algn = Some (Inl NoMemory, s)"
      using smalloc_alloc_round [OF nreq out] by simp
    moreover have "alloc_ok s (unat sz) (unat algn) (Inl NoMemory, s)"
      using ff None inv by (simp add: alloc_ok_def first_fit_def free)
    ultimately show ?thesis by blast
  next
    case (Some a)
    with nn out have a0: "a \<noteq> 0" by simp
    have mem: "in_memory (regions (memory s)) (unat sz) (unat algn) (unat a)"
      and un: "{unat a..<unat a + unat sz} \<inter> res_bytes s = {}"
      and least: "\<forall>q < unat a. in_memory (regions (memory s)) (unat sz) (unat algn) q \<longrightarrow>
           {q..<q + unat sz} \<inter> res_bytes s \<noteq> {}"
      using ff Some by (auto simp: first_fit_def free)
    obtain m where m: "m \<in> set (regions (memory s))" "unat a + unat sz \<le> hi m"
      using mem by (auto simp: in_memory_def)
    have "valid m"
      using m(1) inv by (auto simp: smalloc_inv_def rl_inv_def intro: separated_valid)
    then have r: "valid (rnew a sz)" "lo (rnew a sz) < hi (rnew a sz)"
      "span (rnew a sz) = {unat a..<unat a + unat sz}"
      using m(2) sz by (simp_all add: valid_def hi_def lo_def span_def)
    obtain s' where s': "insert_res s (rnew a sz) = Some s'" "smalloc_inv s'" "memory s' = memory s"
      "res_bytes s' = res_bytes s \<union> {unat a..<unat a + unat sz}"
      using insert_res_spec [OF inv r(1,2) cap] r(3) by metis
    have "smalloc_alloc tr s sz algn = Some (Inr a, s')"
      using smalloc_alloc_round [OF nreq out] Some a0 s'(1) by simp
    moreover have "alloc_ok s (unat sz) (unat algn) (Inr a, s')"
      using s' a0 mem un least by (simp add: alloc_ok_def)
    ultimately show ?thesis by blast
  qed
qed

lemma null_page [simp]:
  "valid NULL_PAGE_RGN" "lo NULL_PAGE_RGN = 0" "hi NULL_PAGE_RGN = 4096"
  "span NULL_PAGE_RGN = {0..<4096}"
  by (simp_all add: NULL_PAGE_RGN_def valid_def lo_def hi_def span_def)

lemma insert_null_page:
  assumes inv: "smalloc_inv s" and room: "headroom s n A" "4096 + A + n \<le> 2 ^ 64"
    and cap: "Suc (length (regions (res s))) < unat (rl_max (res s))"
  obtains s' where "insert_res s NULL_PAGE_RGN = Some s'" and "smalloc_inv s'"
    and "memory s' = memory s" and "res_bytes s' = res_bytes s \<union> {0..<4096}" and "headroom s' n A"
    and "length (regions (res s')) \<le> Suc (length (regions (res s)))"
    and "rl_max (res s') = rl_max (res s)"
proof -
  obtain s' where s': "insert_res s NULL_PAGE_RGN = Some s'" "smalloc_inv s'" "memory s' = memory s"
    "res_bytes s' = res_bytes s \<union> {0..<4096}"
    "length (regions (res s')) \<le> Suc (length (regions (res s)))"
    "rl_max (res s') = rl_max (res s)"
    using insert_res_spec [OF inv _ _ cap, of NULL_PAGE_RGN] by auto
  have "\<forall>q \<in> set (regions (res s)). valid q \<and> hi q \<le> 2 ^ 64 - A - n"
    using inv room(1)
    by (fastforce simp: smalloc_inv_def rl_inv_def headroom_def roomy_def intro: separated_valid)
  then have "\<forall>q \<in> set (regions (res s')). valid q \<and> hi q \<le> 2 ^ 64 - A - n"
    using s'(1) room(2) insert_region_below [of "res s" NULL_PAGE_RGN "res s'" "2 ^ 64 - A - n"]
    by (auto simp: insert_res_def)
  then have "headroom s' n A"
    using room s'(3) by (auto simp: headroom_def roomy_def)
  with s' show ?thesis using that by blast
qed

lemma smalloc_alloc_run:
  assumes "smalloc_inv s" and "headroom s (unat sz) (unat algn)"
    and "4096 + unat algn + unat sz \<le> 2 ^ 64"
    and "is_power_of_two algn" and "0 < unat sz"
    and "Suc (Suc (length (regions (res s)))) < unat (rl_max (res s))"
  shows "\<exists>r s' N. smalloc_alloc tr s sz algn = Some (r, s') \<and> (N = {} \<or> N = {0..<4096}) \<and>
    smalloc_inv s' \<and> memory s' = memory s \<and>
    (case r of
       Inr a \<Rightarrow> a \<noteq> 0 \<and> in_memory (regions (memory s)) (unat sz) (unat algn) (unat a) \<and>
                {unat a..<unat a + unat sz} \<inter> res_bytes s = {} \<and>
                res_bytes s' = res_bytes s \<union> N \<union> {unat a..<unat a + unat sz} \<and>
                (\<forall>q < unat a. in_memory (regions (memory s)) (unat sz) (unat algn) q \<longrightarrow>
                   {q..<q + unat sz} \<inter> (res_bytes s \<union> N) \<noteq> {})
     | Inl e \<Rightarrow> e = NoMemory \<and> res_bytes s' = res_bytes s \<union> N \<and>
                (\<forall>q. in_memory (regions (memory s)) (unat sz) (unat algn) q \<longrightarrow>
                   {q..<q + unat sz} \<inter> (res_bytes s \<union> N) \<noteq> {}))"
proof (cases "find_allocation_location s sz algn = Some (Some 0)")
  case False
  have "Suc (length (regions (res s))) < unat (rl_max (res s))" using assms(6) by simp
  from smalloc_alloc_nonnull [OF assms(1,2,4,5) this False, of tr] obtain r s' where
    "smalloc_alloc tr s sz algn = Some (r, s')" "alloc_ok s (unat sz) (unat algn) (r, s')" by auto
  then show ?thesis
    by (intro exI [of _ r] exI [of _ s'] exI [of _ "{}"])
      (auto simp: alloc_ok_def split: sum.splits)
next
  case True
  have cap: "Suc (length (regions (res s))) < unat (rl_max (res s))" using assms(6) by simp
  obtain s1 where s1: "insert_res s NULL_PAGE_RGN = Some s1" "smalloc_inv s1" "memory s1 = memory s"
    "res_bytes s1 = res_bytes s \<union> {0..<4096}" "headroom s1 (unat sz) (unat algn)"
    "length (regions (res s1)) \<le> Suc (length (regions (res s)))" "rl_max (res s1) = rl_max (res s)"
    using insert_null_page [OF assms(1,2,3) cap] .
  have ne: "\<forall>r \<in> set (regions (res s1)). lo r < hi r" using s1(2) by (simp add: smalloc_inv_def)
  obtain out where out: "find_allocation_location s1 sz algn = Some out"
    "first_fit (regions (memory s1)) (regions (res s1)) (unat sz) (unat algn) out"
    using find_allocation_location_spec [OF s1(2,5) assms(4,5)] .
  have "\<not> unreserved (regions (res s1)) (unat sz) 0"
    unfolding unreserved_bytes [OF ne assms(5)] s1(4) using assms(5) by auto
  then have "find_allocation_location s1 sz algn \<noteq> Some (Some 0)"
    using out by (auto simp: first_fit_def)
  moreover have "Suc (length (regions (res s1))) < unat (rl_max (res s1))"
    using s1(6,7) assms(6) by simp
  ultimately obtain r s' where
    r: "smalloc_alloc tr s1 sz algn = Some (r, s')" "alloc_ok s1 (unat sz) (unat algn) (r, s')"
    using smalloc_alloc_nonnull [OF s1(2,5) assms(4,5), of tr] by fastforce
  have "\<not> requires_reallocation (res s)"
    using assms(1) cap not_requires_reallocation by (simp add: smalloc_inv_def)
  from smalloc_alloc_round [OF this True] have "smalloc_alloc tr s sz algn = Some (r, s')"
    using s1(1) r(1) by simp
  with r(2) s1(3,4) show ?thesis
    by (intro exI [of _ r] exI [of _ s'] exI [of _ "{0..<4096}"])
      (auto simp: alloc_ok_def Int_Un_distrib split: sum.splits)
qed

text \<open>
  Claim C33. With room for two more reservations, and with neither memory nor reservations so close to the
  end of the address space that aligning and adding the size would wrap around, \<open>alloc\<close> of a
  positive size at a power-of-two alignment returns. A successful allocation is a block of that size
  at the alignment inside one memory region. It is never at address 0, it shares no byte with a reservation, and it is then
  reserved while every other reservation stays. In both cases the page at address 0 may have been
  reserved first, as the set \<open>N\<close>, and nothing else changes; counting that page as reserved then, the block
  is the lowest one that fits, and \<open>NoMemory\<close> is returned only when none does.
\<close>

theorem smalloc_alloc_reserves:
  assumes "smalloc_inv s" and "headroom s (unat sz) (unat algn)"
    and "4096 + unat algn + unat sz \<le> 2 ^ 64"
    and "is_power_of_two algn" and "0 < unat sz"
    and "Suc (Suc (length (regions (res s)))) < unat (rl_max (res s))"
  shows "\<exists>r s' N. smalloc_alloc tr s sz algn = Some (r, s') \<and> (N = {} \<or> N = {0..<4096}) \<and>
    smalloc_inv s' \<and> memory s' = memory s \<and>
    (case r of
       Inr a \<Rightarrow> a \<noteq> 0 \<and> in_memory (regions (memory s)) (unat sz) (unat algn) (unat a) \<and>
                {unat a..<unat a + unat sz} \<inter> res_bytes s = {} \<and>
                res_bytes s' = res_bytes s \<union> N \<union> {unat a..<unat a + unat sz} \<and>
                (\<forall>q < unat a. in_memory (regions (memory s)) (unat sz) (unat algn) q \<longrightarrow>
                   {q..<q + unat sz} \<inter> (res_bytes s \<union> N) \<noteq> {})
     | Inl e \<Rightarrow> e = NoMemory \<and> res_bytes s' = res_bytes s \<union> N \<and>
                (\<forall>q. in_memory (regions (memory s)) (unat sz) (unat algn) q \<longrightarrow>
                   {q..<q + unat sz} \<inter> (res_bytes s \<union> N) \<noteq> {}))"
  using assms by (rule smalloc_alloc_run)

theorem smalloc_alloc_reserves_witness:
  "\<exists>a s'. smalloc_alloc IdentityTranslator
     (smalloc_new \<lparr>rl_max = 8, rl_ptr = 0, regions = [rnew 0x1000 0x10000]\<rparr>
       \<lparr>rl_max = 8, rl_ptr = 0, regions = [rnew 0x1000 0x1000]\<rparr>) 0x100 0x100 = Some (Inr a, s') \<and>
     smalloc_inv s' \<and> a = 0x2000"
proof -
  let ?s = "smalloc_new \<lparr>rl_max = 8, rl_ptr = 0, regions = [rnew 0x1000 0x10000]\<rparr>
    \<lparr>rl_max = 8, rl_ptr = 0, regions = [rnew 0x1000 0x1000]\<rparr>"
  have inv: "smalloc_inv ?s" "headroom ?s (unat (0x100 :: usize)) (unat (0x100 :: usize))"
    by (simp_all add: smalloc_inv_def headroom_def roomy_def rl_inv_def smalloc_new_def valid_def
        lo_def hi_def)
  have pow: "is_power_of_two (0x100 :: usize)"
    unfolding is_power_of_two_iff by (rule exI [of _ 8]) simp
  have run: "map_option fst (smalloc_alloc IdentityTranslator ?s 0x100 0x100) = Some (Inr 0x2000)"
    by code_simp
  show ?thesis
    using smalloc_alloc_reserves [OF inv _ pow, of IdentityTranslator] run
    by (auto simp: smalloc_new_def)
qed


section \<open>Freeing\<close>

lemma insert_res_fragment:
  assumes "smalloc_inv s" and "a \<le> b" and "Suc (length (regions (res s))) < unat (rl_max (res s))"
  obtains s' where "(if a < b then insert_res s (rnew a (b - a)) else Some s) = Some s'"
    and "smalloc_inv s'" and "memory s' = memory s"
    and "res_bytes s' = res_bytes s \<union> {unat a..<unat b}"
    and "length (regions (res s')) \<le> Suc (length (regions (res s)))"
    and "rl_max (res s') = rl_max (res s)"
proof (cases "a < b")
  case True
  then have r: "valid (rnew a (b - a))" "lo (rnew a (b - a)) < hi (rnew a (b - a))"
    "span (rnew a (b - a)) = {unat a..<unat b}"
    by (simp_all add: valid_def hi_def lo_def span_def word_less_nat_alt unat_sub_usize)
  obtain s' where "insert_res s (rnew a (b - a)) = Some s'" "smalloc_inv s'" "memory s' = memory s"
    "res_bytes s' = res_bytes s \<union> {unat a..<unat b}"
    "length (regions (res s')) \<le> Suc (length (regions (res s)))" "rl_max (res s') = rl_max (res s)"
    using insert_res_spec [OF assms(1) r(1,2) assms(3)] r(3) by metis
  with True show ?thesis using that by simp
next
  case False
  with assms(2) have "a = b" by simp
  with False assms(1) show ?thesis using that [of s] by simp
qed

lemma free_at_spec:
  assumes inv: "smalloc_inv s" and i: "i < length (regions (res s))"
    and old: "old = regions (res s) ! i" and r: "valid r" "lo old \<le> lo r" "hi r \<le> hi old"
    and cap: "Suc (length (regions (res s))) < unat (rl_max (res s))"
  obtains s' where "free_at s i old r = Some s'" and "smalloc_inv s'" and "memory s' = memory s"
    and "res_bytes s' = res_bytes s - span r"
proof -
  let ?s0 = "s\<lparr>res := (res s)\<lparr>regions := remove_at (regions (res s)) i\<rparr>\<rparr>"
  have sep: "separated (regions (res s))" using inv by (simp add: smalloc_inv_def rl_inv_def)
  note rm = separated_remove_at [OF sep i]
  have vold: "valid old" using old i sep by (simp add: separated_valid)
  have inv0: "smalloc_inv ?s0"
    using inv rm(1,4,5) by (auto simp: smalloc_inv_def rl_inv_def)
  have le: "start_address old \<le> start_address r" "end_address r \<le> end_address old"
    using r vold by (simp_all add: word_le_nat_alt region_defs)
  have cap0: "Suc (Suc (length (regions (res ?s0)))) < unat (rl_max (res ?s0))"
    using cap rm(4) by simp
  obtain s1 where s1: "(if start_address old < start_address r
        then insert_res ?s0 (rnew (start_address old) (start_address r - start_address old))
        else Some ?s0) = Some s1"
    "smalloc_inv s1" "memory s1 = memory ?s0"
    "res_bytes s1 = res_bytes ?s0 \<union> {lo old..<lo r}"
    "length (regions (res s1)) \<le> Suc (length (regions (res ?s0)))"
    "rl_max (res s1) = rl_max (res ?s0)"
    using insert_res_fragment [OF inv0 le(1)] cap0 by (auto simp: region_defs)
  have "Suc (length (regions (res s1))) < unat (rl_max (res s1))"
    using s1(5,6) cap0 by simp
  then obtain s2 where s2: "(if end_address r < end_address old
        then insert_res s1 (rnew (end_address r) (end_address old - end_address r))
        else Some s1) = Some s2"
    "smalloc_inv s2" "memory s2 = memory s1" "res_bytes s2 = res_bytes s1 \<union> {hi r..<hi old}"
    using insert_res_fragment [OF s1(2) le(2)] r(1) vold by (auto simp: region_defs)
  have "free_at s i old r = Some s2"
    unfolding free_at_def Let_def s1(1) Option.bind.simps s2(1) using i by simp
  moreover have "res_bytes s2 = res_bytes s - span r"
  proof -
    have "res_bytes s2 = (res_bytes s - span old) \<union> {lo old..<lo r} \<union> {hi r..<hi old}"
      using s2(4) s1(4) rm(2) old by simp
    moreover have "span old \<subseteq> res_bytes s" using rm(3) old by simp
    moreover have "span old - span r = {lo old..<lo r} \<union> {hi r..<hi old}"
      using r(2,3) lo_le_hi [of r] by (auto simp: span_def simp del: lo_le_hi)
    moreover have "span r \<subseteq> span old" using r(2,3) by (auto simp: span_def)
    ultimately show ?thesis by blast
  qed
  ultimately show ?thesis using that s2(2,3) s1(3) by simp
qed

lemma smalloc_free_nogrow:
  assumes "\<not> requires_reallocation (res s)"
  shows "smalloc_free tr s a sz =
    (case position (\<lambda>r. contains r (rnew a sz)) (regions (res s)) of
       None \<Rightarrow> Some (Inl NoMemRegion, s)
     | Some index \<Rightarrow>
         map_option (\<lambda>s. (Inr (), s)) (free_at s index (regions (res s) ! index) (rnew a sz)))"
proof -
  obtain k where depth: "REALLOC_DEPTH = Suc k" using that [of 5] by (simp add: REALLOC_DEPTH_def)
  show ?thesis
    unfolding smalloc_free_def depth using assms by (simp add: Let_def split: option.split)
qed

lemma contains_nonempty:
  assumes "valid r" and "valid q" and "lo r < hi r" and "lo q < hi q"
  shows "contains r q \<longleftrightarrow> lo r \<le> lo q \<and> hi q \<le> hi r"
  using assms by (subst contains_iff) (auto simp: valid_def)

text \<open>
  Claim C34. Freeing a block of positive size that does not wrap around, while the reservation list has more than one
  unused slot (so that it is not grown), removes exactly
  the bytes of the block from the reservations when one reservation holds it, splitting that
  reservation as needed; otherwise it fails with \<open>NoMemRegion\<close> and changes nothing.
\<close>

theorem smalloc_free_releases:
  assumes "smalloc_inv s" and "Suc (length (regions (res s))) < unat (rl_max (res s))"
    and "unat a + unat sz < 2 ^ 64" and "0 < unat sz"
  shows "if \<exists>r \<in> set (regions (res s)). lo r \<le> unat a \<and> unat a + unat sz \<le> hi r
         then \<exists>s'. smalloc_free tr s a sz = Some (Inr (), s') \<and> smalloc_inv s' \<and>
                memory s' = memory s \<and> res_bytes s' = res_bytes s - {unat a..<unat a + unat sz}
         else smalloc_free tr s a sz = Some (Inl NoMemRegion, s)"
proof -
  have inv: "rl_inv (res s)" "separated (regions (res s))" "\<forall>r \<in> set (regions (res s)). lo r < hi r"
    using assms(1) by (auto simp: smalloc_inv_def rl_inv_def)
  note free = smalloc_free_nogrow [OF not_requires_reallocation(1) [OF inv(1) assms(2)], of tr a sz]
  let ?r = "rnew a sz"
  have r: "valid ?r" "lo ?r = unat a" "hi ?r = unat a + unat sz" "span ?r = {unat a..<unat a + unat sz}"
    using assms(3) by (simp_all add: valid_def lo_def hi_def span_def)
  have cont: "contains q ?r \<longleftrightarrow> lo q \<le> unat a \<and> unat a + unat sz \<le> hi q"
    if "q \<in> set (regions (res s))" for q
    using contains_nonempty [OF separated_valid [OF inv(2) that] r(1)] inv(3) that r(2,3) assms(4) by simp
  show ?thesis
  proof (cases "position (\<lambda>r. contains r ?r) (regions (res s))")
    case None
    then have "\<not> (\<exists>r \<in> set (regions (res s)). lo r \<le> unat a \<and> unat a + unat sz \<le> hi r)"
      using cont by (auto simp: position_None)
    with None free show ?thesis by simp
  next
    case (Some i)
    then have i: "i < length (regions (res s))" "contains (regions (res s) ! i) ?r"
      using position_Some by force+
    then have in_set: "regions (res s) ! i \<in> set (regions (res s))" by simp
    with cont i(2) have le: "lo (regions (res s) ! i) \<le> lo ?r" "hi ?r \<le> hi (regions (res s) ! i)"
      using r(2,3) by auto
    obtain s' where "free_at s i (regions (res s) ! i) ?r = Some s'" "smalloc_inv s'"
      "memory s' = memory s" "res_bytes s' = res_bytes s - span ?r"
      using free_at_spec [OF assms(1) i(1) refl r(1) le assms(2)] .
    then have "\<exists>s'. smalloc_free tr s a sz = Some (Inr (), s') \<and> smalloc_inv s' \<and>
        memory s' = memory s \<and> res_bytes s' = res_bytes s - {unat a..<unat a + unat sz}"
      using Some free r(4) by simp
    then show ?thesis using in_set le r(2,3) by auto
  qed
qed

theorem smalloc_free_releases_witness:
  "\<exists>s'. smalloc_free IdentityTranslator
     (smalloc_new \<lparr>rl_max = 8, rl_ptr = 0, regions = [rnew 0x1000 0x10000]\<rparr>
       \<lparr>rl_max = 8, rl_ptr = 0, regions = [rnew 0x1000 0x3000]\<rparr>) 0x2000 0x1000 = Some (Inr (), s') \<and>
     smalloc_inv s' \<and> res_bytes s' = {0x1000..<0x4000} - {0x2000..<0x3000}"
proof -
  let ?s = "smalloc_new \<lparr>rl_max = 8, rl_ptr = 0, regions = [rnew 0x1000 0x10000]\<rparr>
    \<lparr>rl_max = 8, rl_ptr = 0, regions = [rnew 0x1000 0x3000]\<rparr>"
  have inv: "smalloc_inv ?s"
    by (simp add: smalloc_inv_def rl_inv_def smalloc_new_def valid_def lo_def hi_def)
  have "Suc (length (regions (res ?s))) < unat (rl_max (res ?s))" by (simp add: smalloc_new_def)
  from smalloc_free_releases [OF inv this, where a = "0x2000" and sz = "0x1000" and tr = IdentityTranslator]
  show ?thesis by (auto simp: smalloc_new_def lo_def hi_def span_def)
qed


lemma requires_reallocation_full:
  assumes "rl_inv l" and "0 < unat (rl_max l)" and "unat (rl_max l) \<le> Suc (length (regions l))"
  shows "requires_reallocation l"
proof -
  have "unat (count l) = length (regions l)" using assms(1) by (simp add: rl_inv_def unat_count)
  moreover have "unat (rl_max l - 1) = unat (rl_max l) - 1" using assms(2) by (simp add: unat_sub_usize)
  ultimately show ?thesis using assms(3) by (simp add: requires_reallocation_def word_le_nat_alt)
qed

lemma list_ex_contains:
  assumes "rl_inv l" "\<forall>q \<in> set (regions l). lo q < hi q" and r: "valid r" "lo r < hi r"
  shows "list_ex (\<lambda>q. contains q r) (regions l) \<longleftrightarrow> (\<exists>q \<in> set (regions l). lo q \<le> lo r \<and> hi r \<le> hi q)"
proof -
  have "contains q r \<longleftrightarrow> lo q \<le> lo r \<and> hi r \<le> hi q" if "q \<in> set (regions l)" for q
    using contains_nonempty [OF separated_valid [OF _ that] r(1)] assms that by (simp add: rl_inv_def)
  then show ?thesis by (auto simp: list_ex_iff)
qed

lemma grow_refused:
  assumes "\<not> permit_region_realloc s"
  shows "grow_region_list tr s t = Some (Inl NoMemory, s)"
    and "requires_reallocation (res s) \<Longrightarrow> list_ex (\<lambda>q. contains q (rnew a sz)) (regions (res s)) \<Longrightarrow>
      smalloc_free tr s a sz = Some (Inl NoMemory, s)"
proof -
  obtain k where depth: "REALLOC_DEPTH = Suc (Suc k)" using that [of 4] by (simp add: REALLOC_DEPTH_def)
  show "grow_region_list tr s t = Some (Inl NoMemory, s)"
    unfolding grow_region_list_def depth using assms by simp
  assume "requires_reallocation (res s)" "list_ex (\<lambda>q. contains q (rnew a sz)) (regions (res s))"
  moreover from this(2) have "position (\<lambda>q. contains q (rnew a sz)) (regions (res s)) \<noteq> None"
    by (auto simp: position_None list_ex_iff)
  ultimately show "smalloc_free tr s a sz = Some (Inl NoMemory, s)"
    unfolding smalloc_free_def depth using assms by (auto simp: Let_def)
qed

text \<open>
  Claim C37. While growing the lists is not permitted, which is how the kernel runs the allocator, one
  slot of a list is never filled: with all slots but one in use, or all of them, an operation that
  may need a slot fails with \<open>NoMemory\<close> and changes nothing. For the reservations this is
  allocation, reservation, and freeing a non-empty block that one reservation holds; for the memory
  list it is adding memory and claiming a non-empty region that one memory region holds.
\<close>

theorem full_list_no_memory:
  assumes inv: "smalloc_inv s" and off: "\<not> permit_region_realloc s" and r: "valid r" "lo r < hi r"
  shows "(0 < unat (rl_max (res s)) \<and> unat (rl_max (res s)) \<le> Suc (length (regions (res s))) \<longrightarrow>
            smalloc_alloc tr s sz algn = Some (Inl NoMemory, s) \<and>
            add_reservation tr s r = Some (Inl NoMemory, s) \<and>
            ((\<exists>q \<in> set (regions (res s)). lo q \<le> lo r \<and> hi r \<le> hi q) \<longrightarrow>
               smalloc_free tr s (address r) (rsize r) = Some (Inl NoMemory, s))) \<and>
         (0 < unat (rl_max (memory s)) \<and> unat (rl_max (memory s)) \<le> Suc (length (regions (memory s))) \<longrightarrow>
            add_memory tr s r = Some (Inl NoMemory, s) \<and>
            ((\<exists>q \<in> set (regions (memory s)). lo q \<le> lo r \<and> hi r \<le> hi q) \<longrightarrow>
               claim_region tr s r = Some (Inl NoMemory, s)))"
proof -
  have l: "rl_inv (res s)" "rl_inv (memory s)" "\<forall>q \<in> set (regions (res s)). lo q < hi q"
    "\<forall>q \<in> set (regions (memory s)). lo q < hi q" using inv by (simp_all add: smalloc_inv_def)
  have "rnew (address r) (rsize r) = r" by simp
  note free = grow_refused(2) [OF off, of "address r" "rsize r" tr, unfolded this list_ex_contains [OF l(1,3) r]]
  show ?thesis
    using grow_refused(1) [OF off] free requires_reallocation_full [OF l(1)] requires_reallocation_full [OF l(2)]
      list_ex_contains [OF l(2,4) r]
    by (subst smalloc_alloc.simps) (simp add: add_reservation_def add_memory_def claim_region_def)
qed

theorem full_list_no_memory_witness:
  "smalloc_alloc IdentityTranslator
     (smalloc_new (rl_new 2 0) \<lparr>rl_max = 2, rl_ptr = 0, regions = [rnew 4096 4096]\<rparr>) 64 8 =
   Some (Inl NoMemory, smalloc_new (rl_new 2 0) \<lparr>rl_max = 2, rl_ptr = 0, regions = [rnew 4096 4096]\<rparr>)"
proof -
  let ?s = "smalloc_new (rl_new 2 0) \<lparr>rl_max = 2, rl_ptr = 0, regions = [rnew 4096 4096]\<rparr>"
  have s: "smalloc_inv ?s" "\<not> permit_region_realloc ?s" "valid (rnew 4096 64)" "lo (rnew 4096 64) < hi (rnew 4096 64)"
    by (simp_all add: smalloc_inv_def rl_inv_def smalloc_new_def rl_new_def valid_def lo_def hi_def)
  have "0 < unat (rl_max (res ?s)) \<and> unat (rl_max (res ?s)) \<le> Suc (length (regions (res ?s)))" by (simp add: smalloc_new_def)
  with full_list_no_memory [OF s, of IdentityTranslator 64 8] show ?thesis by blast
qed

section \<open>Claiming memory for another allocator\<close>

lemma insert_opt_mem_spec:
  assumes "smalloc_inv s" and "\<And>r. x = Some r \<Longrightarrow> valid r \<and> lo r < hi r"
    and "Suc (length (regions (memory s))) < unat (rl_max (memory s))"
  obtains s' where "insert_opt_mem s x = Some s'" and "smalloc_inv s'" and "res s' = res s"
    and "mem_bytes s' = mem_bytes s \<union> opt_span x"
    and "length (regions (memory s')) \<le> Suc (length (regions (memory s)))"
    and "rl_max (memory s') = rl_max (memory s)"
proof (cases x)
  case None
  then show ?thesis using that [of s] assms(1) by (simp add: insert_opt_mem_def)
next
  case (Some r)
  have inv: "rl_inv (memory s)" "\<forall>q \<in> set (regions (memory s)). valid q \<and> lo q < hi q"
    using assms(1) by (auto simp: smalloc_inv_def rl_inv_def separated_valid)
  have r: "valid r" "lo r < hi r" using assms(2) Some by auto
  obtain l' where l': "insert_region (memory s) r = Some l'" "rl_inv l'"
      "bytes (regions l') = mem_bytes s \<union> span r"
      "length (regions l') \<le> Suc (length (regions (memory s)))" "rl_max l' = rl_max (memory s)"
    using insert_region_spec [OF inv(1) r(1) not_requires_reallocation(2) [OF inv(1) assms(3)]]
    by metis
  have "\<forall>q \<in> set (regions l'). lo q < hi q"
    by (rule insert_region_nonempty [OF l'(1) inv(2) r])
  with assms(1) l' Some show ?thesis
    by (intro that [of "s\<lparr>memory := l'\<rparr>"])
      (simp_all add: insert_opt_mem_def insert_mem_def smalloc_inv_def)
qed

text \<open>
  Claim C35. Claiming a non-empty region that one memory region covers, with a spare slot in the
  memory list, takes exactly its bytes out of memory and leaves every reservation as it was.
  A region that no memory region covers is refused with \<open>InvalidValue\<close> and changes nothing.
\<close>

theorem claim_region_removes:
  assumes inv: "smalloc_inv s" and cap: "Suc (length (regions (memory s))) < unat (rl_max (memory s))"
    and r: "valid r" "lo r < hi r"
  shows "if \<exists>m \<in> set (regions (memory s)). lo m \<le> lo r \<and> hi r \<le> hi m
         then \<exists>s'. claim_region tr s r = Some (Inr (), s') \<and> smalloc_inv s' \<and> res s' = res s \<and>
                mem_bytes s' = mem_bytes s - span r
         else claim_region tr s r = Some (Inl InvalidValue, s)"
proof -
  let ?ms = "regions (memory s)"
  have ms: "rl_inv (memory s)" "separated ?ms" "\<forall>m \<in> set ?ms. lo m < hi m"
    using inv by (auto simp: smalloc_inv_def rl_inv_def)
  have cont: "contains m r \<longleftrightarrow> lo m \<le> lo r \<and> hi r \<le> hi m" if "m \<in> set ?ms" for m
    using contains_nonempty [OF separated_valid [OF ms(2) that] r(1)] ms(3) that r(2) by simp
  note nreq = not_requires_reallocation(1) [OF ms(1) cap]
  show ?thesis
  proof (cases "position (\<lambda>m. contains m r) ?ms")
    case None
    then have no: "\<not> list_ex (\<lambda>m. contains m r) ?ms"
      by (auto simp: position_None list_ex_iff)
    then have "\<not> (\<exists>m \<in> set ?ms. lo m \<le> lo r \<and> hi r \<le> hi m)"
      using cont by (auto simp: list_ex_iff)
    with no show ?thesis by (simp add: claim_region_def)
  next
    case (Some i)
    then have i: "i < length ?ms" "contains (?ms ! i) r"
      using position_Some by force+
    then have le: "lo (?ms ! i) \<le> lo r" "hi r \<le> hi (?ms ! i)" and in_set: "?ms ! i \<in> set ?ms"
      using cont [of "?ms ! i"] by auto
    have vm: "valid (?ms ! i)" using in_set ms(2) by (rule separated_valid [rotated])
    let ?s0 = "s\<lparr>memory := (memory s)\<lparr>regions := remove_at ?ms i\<rparr>\<rparr>"
    note rm = separated_remove_at [OF ms(2) i(1)]
    have inv0: "smalloc_inv ?s0" using inv rm(1,4,5) by (auto simp: smalloc_inv_def rl_inv_def)
    obtain left right where ph: "punch_hole (?ms ! i) r = (left, right)" by fastforce
    note parts = punch_hole_left [OF vm r(1)] punch_hole_right [OF vm r(1)]
    have frag: "\<And>l. left = Some l \<Longrightarrow> valid l \<and> lo l < hi l" "\<And>l. right = Some l \<Longrightarrow> valid l \<and> lo l < hi l"
      using parts(2,4) ph by auto
    have spans: "opt_span left \<union> opt_span right = span (?ms ! i) - span r"
      using punch_hole_bytes [OF vm r(1)] ph by simp
    have cap0: "Suc (Suc (length (regions (memory ?s0)))) < unat (rl_max (memory ?s0))"
      using cap rm(4) by simp
    obtain s1 where s1: "insert_opt_mem ?s0 left = Some s1" "smalloc_inv s1" "res s1 = res ?s0"
      "mem_bytes s1 = mem_bytes ?s0 \<union> opt_span left"
      "length (regions (memory s1)) \<le> Suc (length (regions (memory ?s0)))"
      "rl_max (memory s1) = rl_max (memory ?s0)"
      using insert_opt_mem_spec [OF inv0 frag(1)] cap0 by auto
    have "Suc (length (regions (memory s1))) < unat (rl_max (memory s1))"
      using s1(5,6) cap0 by simp
    then obtain s2 where s2: "insert_opt_mem s1 right = Some s2" "smalloc_inv s2" "res s2 = res s1"
      "mem_bytes s2 = mem_bytes s1 \<union> opt_span right"
      using insert_opt_mem_spec [OF s1(2) frag(2)] by metis
    have "list_ex (\<lambda>m. contains m r) ?ms" using i in_set by (auto simp: list_ex_iff)
    then have "claim_region tr s r = Some (Inr (), s2)"
      using nreq Some ph s1(1) s2(1) by (simp add: claim_region_def Let_def)
    moreover have "mem_bytes s2 = mem_bytes s - span r"
    proof -
      have "mem_bytes s2 = (mem_bytes s - span (?ms ! i)) \<union> (span (?ms ! i) - span r)"
        using s2(4) s1(4) rm(2) spans by auto
      moreover have "span r \<subseteq> span (?ms ! i)" using le by (auto simp: span_def)
      ultimately show ?thesis using rm(3) by blast
    qed
    ultimately show ?thesis using s2(2,3) s1(3) in_set le by auto
  qed
qed

theorem claim_region_removes_witness:
  "\<exists>s'. claim_region IdentityTranslator
     (smalloc_new \<lparr>rl_max = 8, rl_ptr = 0, regions = [rnew 0x1000 0x10000]\<rparr> (rl_new 8 0))
     (rnew 0x2000 0x1000) = Some (Inr (), s') \<and>
     smalloc_inv s' \<and> mem_bytes s' = {0x1000..<0x11000} - {0x2000..<0x3000}"
proof -
  let ?s = "smalloc_new \<lparr>rl_max = 8, rl_ptr = 0, regions = [rnew 0x1000 0x10000]\<rparr> (rl_new 8 0)"
  have inv: "smalloc_inv ?s"
    by (simp add: smalloc_inv_def rl_inv_def smalloc_new_def valid_def lo_def hi_def rl_new_def)
  have cap: "Suc (length (regions (memory ?s))) < unat (rl_max (memory ?s))"
    by (simp add: smalloc_new_def)
  have "valid (rnew 0x2000 0x1000)" "lo (rnew 0x2000 0x1000) < hi (rnew 0x2000 0x1000)"
    by (simp_all add: valid_def lo_def hi_def)
  from claim_region_removes [OF inv cap this, of IdentityTranslator]
  show ?thesis by (auto simp: smalloc_new_def lo_def hi_def span_def)
qed


end
