(* ===== verification/Smalloc_Iter.thy ===== *)
theory Smalloc_Iter
  imports Smalloc_Proofs
begin

text \<open>
  The iterator over free memory of \<^verbatim>\<open>smalloc.rs\<close> (\<open>iter_free\<close>), and the behaviours of the
  allocator that its comments do not promise but its code has, each proved on a concrete state.
\<close>

section \<open>Free memory\<close>

text \<open>No region of \<open>rs\<close> has bytes in two regions of \<open>fs\<close>.\<close>

definition one_each :: "region list \<Rightarrow> region list \<Rightarrow> bool" where
  "one_each fs rs \<longleftrightarrow>
     sorted_wrt (\<lambda>f g. \<forall>r \<in> set rs. span r \<inter> span f = {} \<or> span r \<inter> span g = {}) fs"

lemma one_each_Cons:
  "one_each (f # fs) rs \<longleftrightarrow>
     (\<forall>g \<in> set fs. \<forall>r \<in> set rs. span r \<inter> span f = {} \<or> span r \<inter> span g = {}) \<and> one_each fs rs"
  by (auto simp: one_each_def)

lemma one_each_subset: "one_each fs rs \<Longrightarrow> set qs \<subseteq> set rs \<Longrightarrow> one_each fs qs"
  unfolding one_each_def by (erule sorted_wrt_mono_rel [rotated]) blast

lemma bytes_disjoint:
  "bytes fs \<inter> bytes rs = {} \<longleftrightarrow> (\<forall>f \<in> set fs. \<forall>r \<in> set rs. span r \<inter> span f = {})"
  by (auto simp: bytes_def)

definition solid :: "region list \<Rightarrow> bool" where
  "solid rs \<longleftrightarrow> separated rs \<and> (\<forall>r \<in> set rs. lo r < hi r)"

lemma solid_Cons:
  "solid (r # rs) \<longleftrightarrow> valid r \<and> lo r < hi r \<and> (\<forall>q \<in> set rs. hi r < lo q) \<and> solid rs"
  by (auto simp: solid_def apart_def)

lemma solid_append: "solid (xs @ ys) \<Longrightarrow> solid ys"
  by (auto simp: solid_def)

lemma from_start_end_unchecked_span:
  assumes "unat a \<le> unat b"
  shows "lo (from_start_end_unchecked a b) = unat a" "hi (from_start_end_unchecked a b) = unat b"
    "valid (from_start_end_unchecked a b)" "span (from_start_end_unchecked a b) = {unat a..<unat b}"
  using assms by (simp_all add: from_start_end_unchecked_eq span_def)

lemma before_first:
  assumes "solid (f # fs)" and "\<forall>r \<in> set ds. valid r \<and> is_before r f"
  shows "bytes (f # fs) \<inter> bytes ds = {}"
proof -
  have "span r \<inter> span g = {}" if "g \<in> set (f # fs)" "r \<in> set ds" for g r
  proof -
    have "hi r \<le> lo f" using assms(2) that(2) by (auto simp: region_defs)
    moreover have "lo f \<le> lo g" using assms(1) that(1) by (auto simp: solid_Cons)
    ultimately show ?thesis by (auto simp: span_def)
  qed
  then show ?thesis by (auto simp: bytes_def)
qed

lemma after_first:
  assumes "solid (r # rs)" and "valid f" and "is_after r f"
  shows "span f \<inter> bytes (r # rs) = {}"
proof -
  have "hi f \<le> lo q" if "q \<in> set (r # rs)" for q
    using assms that by (force simp: region_defs solid_Cons)
  then show ?thesis by (fastforce simp: bytes_def span_def)
qed

lemma overlapping_step:
  fixes f r :: region and fs rs :: "region list"
  defines "tail \<equiv> from_start_end_unchecked (end_address r) (end_address f)"
  defines "fs' \<equiv> (if end_address r < end_address f then [tail] else []) @ fs"
  assumes f: "solid (f # fs)" and r: "solid (r # rs)" and one: "one_each (f # fs) (r # rs)"
    and meet: "lo f < hi r" "lo r < hi f"
  shows "solid fs'" and "one_each fs' rs"
    and "bytes (if start_address f < start_address r
           then [from_start_end_unchecked (start_address f) (start_address r)] else []) \<union>
         (bytes fs' - bytes rs) = bytes (f # fs) - bytes (r # rs)"
proof -
  have v: "valid f" "valid r" "lo f < hi f" "lo r < hi r"
    using f r by (simp_all add: solid_Cons)
  have ends: "unat (end_address f) = hi f" "unat (end_address r) = hi r"
    using v by (simp_all add: region_defs)
  have tail: "lo tail = hi r" "hi tail = hi f" "valid tail" "span tail = {hi r..<hi f}" if "hi r < hi f"
    using that from_start_end_unchecked_span [of "end_address r" "end_address f"]
    unfolding tail_def ends by auto
  have cond: "end_address r < end_address f \<longleftrightarrow> hi r < hi f"
    by (simp add: usize_arith ends)
  show "solid fs'"
    using f tail by (auto simp: fs'_def cond solid_Cons)
  have sub: "span tail \<subseteq> span f" if "hi r < hi f"
    using tail that meet by (auto simp: span_def)
  show "one_each fs' rs"
  proof -
    have "one_each (f # fs) rs" by (rule one_each_subset [OF one]) auto
    then have "one_each fs rs" and "hi r < hi f \<Longrightarrow> one_each (tail # fs) rs"
      using sub unfolding one_each_Cons by blast+
    then show ?thesis by (simp add: fs'_def cond)
  qed
  have "span r \<inter> span f \<noteq> {}"
  proof -
    have "max (lo f) (lo r) \<in> span r \<inter> span f" using meet v by (auto simp: span_def)
    then show ?thesis by blast
  qed
  then have r_fs: "span r \<inter> bytes fs = {}"
    using one by (auto simp: one_each_Cons bytes_def)
  have fs': "bytes fs' = {max (lo f) (hi r)..<hi f} \<union> bytes fs"
    using tail meet by (auto simp: fs'_def cond)
  have pre: "bytes (if start_address f < start_address r
      then [from_start_end_unchecked (start_address f) (start_address r)] else []) = {lo f..<lo r}"
    using from_start_end_unchecked_span(4) [of "start_address f" "start_address r"]
    by (simp add: usize_arith region_defs)
  have rs: "{lo f..<lo r} \<inter> bytes rs = {}"
    using r by (fastforce simp: solid_Cons bytes_def span_def)
  have "span f - span r = {lo f..<lo r} \<union> {max (lo f) (hi r)..<hi f}"
    using meet v by (auto simp: span_def)
  then show "bytes (if start_address f < start_address r
      then [from_start_end_unchecked (start_address f) (start_address r)] else []) \<union>
      (bytes fs' - bytes rs) = bytes (f # fs) - bytes (r # rs)"
    unfolding pre fs' using rs r_fs by auto
qed

lemma iter_free_from_bytes:
  "solid fs \<Longrightarrow> solid rs \<Longrightarrow> one_each fs rs \<Longrightarrow>
   bytes (iter_free_from fs rs) = bytes fs - bytes rs"
proof (induction fs rs rule: iter_free_from.induct)
  case (1 rs)
  then show ?case by simp
next
  case (2 f fs rs)
  let ?rs = "dropWhile (\<lambda>r. is_before r f) rs" and ?ds = "takeWhile (\<lambda>r. is_before r f) rs"
  have f: "valid f" "lo f < hi f" "solid fs" "\<forall>g \<in> set fs. hi f < lo g"
    using "2.prems"(1) by (simp_all add: solid_Cons)
  have "\<forall>r \<in> set ?ds. valid r \<and> is_before r f"
    using "2.prems"(2) by (auto simp: solid_def separated_def list_all_iff dest: set_takeWhileD)
  then have ds: "bytes (f # fs) \<inter> bytes ?ds = {}" by (rule before_first [OF "2.prems"(1)])
  have rest: "bytes (f # fs) - bytes rs = bytes (f # fs) - bytes ?rs"
    using ds bytes_simps(3) [of ?ds ?rs] by auto
  have solid: "solid ?rs" using "2.prems"(2) solid_append [of ?ds ?rs] by simp
  have one: "one_each (f # fs) ?rs"
    by (rule one_each_subset [OF "2.prems"(3)]) (auto dest: set_dropWhileD)
  show ?case
  proof (cases ?rs)
    case Nil
    have "bytes (iter_free_from fs []) = bytes fs"
      using "2.IH"(1) [OF Nil f(3)] by (simp add: solid_def one_each_def sorted_wrt_true)
    then show ?thesis unfolding rest by (subst iter_free_from.simps) (simp add: Nil)
  next
    case (Cons r rs')
    have r: "valid r" "lo r < hi r" "solid rs'" "solid (r # rs')"
      using solid Cons by (simp_all add: solid_Cons)
    have one_fs: "one_each fs (r # rs')" "one_each fs rs'"
      using one Cons one_each_subset [of fs "r # rs'" rs'] by (auto simp: one_each_Cons)
    have nb: "lo f < hi r"
      using Cons r(1) hd_dropWhile [of "\<lambda>r. is_before r f" rs] by (simp add: is_before_iff)
    show ?thesis
    proof (cases "is_after r f")
      case True
      have "bytes (iter_free_from fs (r # rs')) = bytes fs - bytes (r # rs')"
        by (rule "2.IH"(2) [OF Cons True f(3) r(4) one_fs(1)])
      moreover have "span f \<inter> bytes (r # rs') = {}" by (rule after_first [OF r(4) f(1) True])
      ultimately show ?thesis
        unfolding rest by (subst iter_free_from.simps) (auto simp: Cons True)
    next
      case False
      then have na: "lo r < hi f" using f(1) by (simp add: is_after_iff)
      let ?tail = "from_start_end_unchecked (end_address r) (end_address f)"
      let ?fs = "(if end_address r < end_address f then [?tail] else []) @ fs"
      note ov = overlapping_step [OF "2.prems"(1) r(4) one [unfolded Cons] nb na]
      have IH: "bytes (iter_free_from ?fs rs') = bytes ?fs - bytes rs'"
      proof (cases "start_address f < start_address r")
        case True
        show ?thesis by (rule "2.IH"(3) [OF Cons False True ov(1) r(3) ov(2)])
      next
        case pre: False
        show ?thesis
        proof (cases "end_address r \<ge> end_address f")
          case True
          then have "?fs = fs" by simp
          then show ?thesis using "2.IH"(4) [OF Cons False pre True f(3) r(3) one_fs(2)] by simp
        next
          case post: False
          then have fs: "?fs = ?tail # fs" by simp
          show ?thesis
            unfolding fs by (rule "2.IH"(5) [OF Cons False pre post ov(1) [unfolded fs] r(3) ov(2) [unfolded fs]])
        qed
      qed
      let ?pre = "if start_address f < start_address r
        then [from_start_end_unchecked (start_address f) (start_address r)] else []"
      have "iter_free_from (f # fs) rs = ?pre @ iter_free_from ?fs rs'"
        by (subst iter_free_from.simps) (auto simp: Cons False)
      then have "bytes (iter_free_from (f # fs) rs) = bytes ?pre \<union> bytes (iter_free_from ?fs rs')"
        by (simp only: bytes_simps(3))
      then show ?thesis unfolding rest IH Cons by (simp only: ov(3))
    qed
  qed
qed

text \<open>
  Claim C38. When no reservation has bytes in two memory regions, the free regions the iterator
  yields cover exactly the bytes of memory that are not reserved.
\<close>

theorem iter_free_bytes:
  assumes "smalloc_inv s" and "one_each (regions (memory s)) (regions (res s))"
  shows "bytes (iter_free s) = mem_bytes s - res_bytes s"
  using assms iter_free_from_bytes
  by (simp add: iter_free_def smalloc_inv_def rl_inv_def solid_def)

theorem iter_free_bytes_witness:
  "bytes (iter_free (smalloc_new
      \<lparr>rl_max = 8, rl_ptr = 0, regions = [rnew 0x1000 0x1000, rnew 0x4000 0x1000]\<rparr>
      \<lparr>rl_max = 8, rl_ptr = 0, regions = [rnew 0x1800 0x100, rnew 0x4800 0x1000]\<rparr>)) =
    {0x1000..<0x1800} \<union> {0x1900..<0x2000} \<union> {0x4000..<0x4800}"
proof -
  let ?s = "smalloc_new
      \<lparr>rl_max = 8, rl_ptr = 0, regions = [rnew 0x1000 0x1000, rnew 0x4000 0x1000]\<rparr>
      \<lparr>rl_max = 8, rl_ptr = 0, regions = [rnew 0x1800 0x100, rnew 0x4800 0x1000]\<rparr>"
  have "smalloc_inv ?s" and "one_each (regions (memory ?s)) (regions (res ?s))"
    by (simp_all add: smalloc_inv_def rl_inv_def smalloc_new_def valid_def apart_def lo_def hi_def
        one_each_def span_def)
  then show ?thesis
    by (subst iter_free_bytes) (auto simp: smalloc_new_def span_def lo_def hi_def)
qed

section \<open>Behaviours the comments do not promise\<close>

text \<open>
  A reservation that reaches over the gap between two memory regions is consumed at the
  first of them: the iterator yields the second region as free although its first 2048 bytes are
  reserved.
\<close>

lemma iter_free_yields_reserved:
  "iter_free (smalloc_new
      \<lparr>rl_max = 8, rl_ptr = 0, regions = [rnew 0x1000 0x1000, rnew 0x4000 0x1000]\<rparr>
      \<lparr>rl_max = 8, rl_ptr = 0, regions = [rnew 0x1800 0x3000]\<rparr>) =
   [rnew 0x1000 0x800, rnew 0x4000 0x1000]"
  by code_simp

text \<open>
  \<open>free\<close> looks up the reservation before it grows the list and uses that index
  after. With a full list, freeing the block at \<open>0x4000\<close> reports success, drops the
  reservation at \<open>0x2000\<close> and keeps the one it was asked to free.
\<close>

lemma smalloc_free_stale_index:
  "map_option (\<lambda>(r, s). (r, map (\<lambda>q. (address q, rsize q)) (regions (res s))))
     (smalloc_free IdentityTranslator
        \<lparr>memory = \<lparr>rl_max = 4, rl_ptr = 0, regions = [rnew 0x1000 0x10000]\<rparr>,
         res = \<lparr>rl_max = 4, rl_ptr = 0x9000,
                regions = [rnew 0x2000 0x1000, rnew 0x4000 0x1000, rnew 0x9000 64]\<rparr>,
         permit_region_realloc = True\<rparr> 0x4000 0x1000) =
   Some (Inr (), [(0x1000, 128), (0x4000, 0x1000)])"
  by code_simp

text \<open>
  \<open>grow_region_list\<close> reserves the new list at the value of its pointer. With the translator
  the kernel boots with, a virtual address becomes a reservation of physical memory and the list
  itself, at \<open>0x1000\<close>, stays unreserved.
\<close>

lemma grow_reserves_virtual_address:
  "map_option (\<lambda>(r, s). (r, map (\<lambda>q. (address q, rsize q)) (regions (res s))))
     (grow_region_list (PageOffsetTranslator 0xffff000000000000)
        \<lparr>memory = \<lparr>rl_max = 4, rl_ptr = 0, regions = [rnew 0x1000 0x10000]\<rparr>,
         res = \<lparr>rl_max = 4, rl_ptr = 0xffff000000009000, regions = [rnew 0x9000 64]\<rparr>,
         permit_region_realloc = True\<rparr> Res) =
   Some (Inr (), [(0x9000, 64), (0xffff000000001000, 128)])"
  by code_simp

section \<open>The depth bound on growing\<close>

text \<open>
  Freeing and growing call each other. Doubling a list leaves it with a spare slot, so the
  recursion is at most four calls deep: any bound above \<open>REALLOC_DEPTH\<close> gives the same
  result. The sizes rule out a list of no or one slot and a doubling that wraps.
\<close>

definition growable :: "region_list \<Rightarrow> bool" where
  "growable l \<longleftrightarrow> length (regions l) \<le> unat (rl_max l) \<and> 2 < unat (rl_max l) \<and> unat (rl_max l) < 2 ^ 58"

lemma doubled_has_room:
  assumes "growable l"
  shows "\<not> requires_reallocation (l\<lparr>rl_ptr := q, rl_max := rl_max l * 2\<rparr>)"
proof -
  have "unat (rl_max l * 2) = unat (rl_max l) * 2"
    using assms by (subst unat_mult_lem [THEN iffD1]) (auto simp: growable_def)
  then show ?thesis
    using assms
    by (auto simp: growable_def requires_reallocation_def count_def usize_arith unat_of_nat)
qed

lemma free_fuel_spare:
  "\<not> requires_reallocation (res s) \<Longrightarrow> free_fuel (Suc n) tr s a sz = free_fuel (Suc 0) tr s a sz"
  by (simp add: Let_def split: option.split)

lemma grow_fuel_Res:
  assumes "growable (res s)"
  shows "grow_fuel (Suc (Suc n)) tr s Res = grow_fuel (Suc (Suc 0)) tr s Res"
  using free_fuel_spare [of "s\<lparr>res := (res s)\<lparr>rl_ptr := q, rl_max := rl_max (res s) * 2\<rparr>\<rparr>" for q]
    doubled_has_room [OF assms]
  by (simp only: grow_fuel.simps(2)) (simp add: Let_def cong: option.case_cong)

lemma free_fuel_growable:
  assumes "growable (res s)"
  shows "free_fuel (Suc (Suc (Suc n))) tr s a sz = free_fuel (Suc (Suc (Suc 0))) tr s a sz"
  unfolding free_fuel.simps(2) grow_fuel_Res [OF assms, of n] ..

lemma grow_fuel_growable:
  assumes "growable (res s)"
  shows "grow_fuel (Suc (Suc (Suc (Suc n)))) tr s t = grow_fuel (Suc (Suc (Suc (Suc 0)))) tr s t"
proof (cases t)
  case Mem
  have free: "free_fuel (Suc (Suc (Suc n))) tr (s\<lparr>memory := l\<rparr>) a sz =
      free_fuel (Suc (Suc (Suc 0))) tr (s\<lparr>memory := l\<rparr>) a sz" for l a sz
    by (rule free_fuel_growable) (simp add: assms)
  show ?thesis
    unfolding Mem by (simp only: grow_fuel.simps(2) Let_def RegionListType.case free)
next
  case Res
  then show ?thesis using grow_fuel_Res [OF assms] by metis
qed

lemma realloc_depth_enough:
  assumes "growable (res s)" and "REALLOC_DEPTH \<le> depth"
  shows "free_fuel depth tr s a sz = smalloc_free tr s a sz \<and>
    grow_fuel depth tr s t = grow_region_list tr s t"
proof -
  obtain n where n: "depth = Suc (Suc (Suc (Suc n)))"
    using assms(2) by (auto simp: REALLOC_DEPTH_def le_iff_add add.commute numeral_eq_Suc)
  obtain k where k: "REALLOC_DEPTH = Suc (Suc (Suc (Suc k)))"
    using that [of 2] by (simp add: REALLOC_DEPTH_def)
  have "free_fuel depth tr s a sz = smalloc_free tr s a sz"
    unfolding n smalloc_free_def k using free_fuel_growable [OF assms(1)] by metis
  moreover have "grow_fuel depth tr s t = grow_region_list tr s t"
    unfolding n grow_region_list_def k using grow_fuel_growable [OF assms(1)] by metis
  ultimately show ?thesis ..
qed

end
