(* ===== verification/Slab.thy ===== *)
theory Slab
  imports Region Kernel_Error
begin

text \<open>
  One slab of the slab allocator, \<^verbatim>\<open>libkernel/src/memory/allocators/slab/slab.rs\<close>, and the size
  classes of \<^verbatim>\<open>slab/mod.rs\<close>. The free objects of a slab form a linked list that is stored in the
  objects themselves: the first two bytes of a free object hold the index of the next one. Memory
  is a function from the address of a \<open>u16\<close> to its value. Objects are at even distances from each
  other, so two list cells never overlap.

  The lemmas show that a slab is a stack of free object indices: \<open>slab_rep s mem xs\<close> says that
  the list in memory is \<open>xs\<close>, and every operation acts on \<open>xs\<close> as its name says.
\<close>

section \<open>Definitions\<close>

type_synonym obj_mem = "addr \<Rightarrow> u16"

definition SLAB_FRAME_ALLOC_ORDER :: nat where
  "SLAB_FRAME_ALLOC_ORDER = 2"

definition SLAB_SIZE_BYTES :: usize where
  "SLAB_SIZE_BYTES = push_bit SLAB_FRAME_ALLOC_ORDER PAGE_SIZE"

definition SLAB_MAX_OBJ_SHIFT :: nat where
  "SLAB_MAX_OBJ_SHIFT = 14 - 1"

text \<open>
  A \<open>core::alloc::Layout\<close> is a size and a power-of-two alignment.
  \<open>next_power_of_two\<close> is the least power of two that is not smaller, and \<open>ilog2\<close> its exponent:
  \<open>npt_log2\<close> is the exponent of both calls together. Above \<open>2 ^ 63\<close> the first call wraps to 0 and
  the second panics, which is \<open>None\<close>.
\<close>

record layout =
  layout_size :: usize
  layout_align :: usize

definition npt_log2 :: "usize \<Rightarrow> nat option" where
  "npt_log2 n = find (\<lambda>k. n \<le> push_bit k 1) [0..<64]"

definition alloc_order :: "layout \<Rightarrow> nat option option" where
  "alloc_order l =
     map_option (\<lambda>k. if k > SLAB_MAX_OBJ_SHIFT then None else Some (if k = 0 then 1 else k))
       (npt_log2 (max (layout_size l) (layout_align l)))"

record slab =
  obj_shift :: nat
  num_free :: nat
  next_free :: "u16 option"
  slab_base :: addr

datatype SlabState = SlabFree | SlabPartial | SlabFull

definition U16_MAX :: u16 where
  "U16_MAX = 0xFFFF"

definition slab_new :: "(addr \<Rightarrow> addr) \<Rightarrow> obj_mem \<Rightarrow> region \<Rightarrow> nat \<Rightarrow> (slab \<times> obj_mem) option" where
  "slab_new to_va mem rgn shift =
     (if rsize rgn \<noteq> SLAB_SIZE_BYTES \<or> shift < 1 \<or> shift > SLAB_MAX_OBJ_SHIFT then None
      else
        let num_objs = unat (drop_bit shift SLAB_SIZE_BYTES);
            va = to_va (start_address rgn);
            mem = fold (\<lambda>i mem. mem(va + of_nat i * push_bit shift 1 :=
                      (if i = num_objs - 1 then U16_MAX else of_nat (i + 1)))) [0..<num_objs] mem
        in Some (\<lparr>obj_shift = shift, num_free = num_objs, next_free = Some 0, slab_base = va\<rparr>, mem))"

definition calc_obj_idx :: "slab \<Rightarrow> u16 \<Rightarrow> addr" where
  "calc_obj_idx s idx = add_bytes (slab_base s) (ucast idx * push_bit (obj_shift s) 1)"

text \<open>The outer \<open>None\<close> is the failed \<open>unwrap\<close>.\<close>

definition alloc_object :: "slab \<Rightarrow> obj_mem \<Rightarrow> (addr option \<times> slab) option" where
  "alloc_object s mem =
     (if num_free s = 0 then Some (None, s)
      else case next_free s of
        None \<Rightarrow> None
      | Some i \<Rightarrow>
          let va = calc_obj_idx s i;
              nf = mem va
          in Some (Some va, s\<lparr>next_free := (if nf = U16_MAX then None else Some nf),
                               num_free := num_free s - 1\<rparr>))"

definition put_object :: "slab \<Rightarrow> obj_mem \<Rightarrow> addr \<Rightarrow> (slab \<times> obj_mem) option" where
  "put_object s mem va =
     (if \<not> contains_address (rnew (slab_base s) SLAB_SIZE_BYTES) va then None
      else
        let idx = drop_bit (obj_shift s) (va - slab_base s);
            mem = mem(va := (case next_free s of None \<Rightarrow> U16_MAX | Some n \<Rightarrow> n))
        in Some (s\<lparr>num_free := num_free s + 1, next_free := Some (ucast idx)\<rparr>, mem))"

definition capacity :: "slab \<Rightarrow> nat" where
  "capacity s = unat (drop_bit (obj_shift s) SLAB_SIZE_BYTES)"

definition slab_state :: "slab \<Rightarrow> SlabState" where
  "slab_state s =
     (if num_free s = 0 then SlabFull
      else if num_free s = capacity s then SlabFree
      else SlabPartial)"

section \<open>The free list in memory\<close>

text \<open>The slot of an object, and that the chain of indices from \<open>nf\<close> through memory is \<open>xs\<close>.\<close>

definition slot :: "slab \<Rightarrow> nat \<Rightarrow> addr" where
  "slot s i = slab_base s + of_nat (i * 2 ^ obj_shift s)"

fun chain :: "slab \<Rightarrow> obj_mem \<Rightarrow> u16 option \<Rightarrow> nat list \<Rightarrow> bool" where
  "chain s mem nf [] \<longleftrightarrow> nf = None"
| "chain s mem nf (i # is) \<longleftrightarrow>
     nf = Some (of_nat i) \<and> i < capacity s \<and>
     chain s mem (if mem (slot s i) = U16_MAX then None else Some (mem (slot s i))) is"

definition slab_ok :: "slab \<Rightarrow> bool" where
  "slab_ok s \<longleftrightarrow> 1 \<le> obj_shift s \<and> obj_shift s \<le> SLAB_MAX_OBJ_SHIFT \<and> unat (slab_base s) + 16384 < 2 ^ 64"

definition slab_rep :: "slab \<Rightarrow> obj_mem \<Rightarrow> nat list \<Rightarrow> bool" where
  "slab_rep s mem xs \<longleftrightarrow>
     slab_ok s \<and> chain s mem (next_free s) xs \<and> distinct xs \<and> num_free s = length xs"

lemma SLAB_SIZE_BYTES_eq: "SLAB_SIZE_BYTES = 16384"
  by (simp add: SLAB_SIZE_BYTES_def SLAB_FRAME_ALLOC_ORDER_def PAGE_SIZE_def push_bit_eq_mult)

lemma capacity_eq: "capacity s = 16384 div 2 ^ obj_shift s"
  unfolding capacity_def SLAB_SIZE_BYTES_eq unsigned_drop_bit_eq
  by (simp add: drop_bit_eq_div)

lemma capacity_bounds:
  assumes "slab_ok s"
  shows "capacity s * 2 ^ obj_shift s = 16384" and "2 \<le> capacity s" and "capacity s \<le> 8192"
proof -
  obtain k where k: "obj_shift s = Suc k" "k \<le> 12"
    using assms by (cases "obj_shift s") (auto simp: slab_ok_def SLAB_MAX_OBJ_SHIFT_def)
  then have "capacity s = 2 ^ (13 - k)"
    using power_diff [of "2 :: nat" "Suc k" 14] by (simp add: capacity_eq)
  moreover have "(2 :: nat) ^ (13 - k) * 2 ^ Suc k = 2 ^ 14"
    using k by (simp flip: power_add)
  ultimately show "capacity s * 2 ^ obj_shift s = 16384" using k by simp
  have "(2 :: nat) ^ 1 \<le> 2 ^ (13 - k)" "(2 :: nat) ^ (13 - k) \<le> 2 ^ 13"
    using k power_increasing [of 1 "13 - k" "2 :: nat"] power_increasing [of "13 - k" 13 "2 :: nat"]
    by simp_all
  then show "2 \<le> capacity s" "capacity s \<le> 8192"
    using \<open>capacity s = 2 ^ (13 - k)\<close> by simp_all
qed

lemma slot_offset:
  assumes "slab_ok s" and "i < capacity s"
  shows "i * 2 ^ obj_shift s < 16384" and "unat (slot s i) = unat (slab_base s) + i * 2 ^ obj_shift s"
proof -
  have "i * 2 ^ obj_shift s < capacity s * 2 ^ obj_shift s" using assms(2) by simp
  then show less: "i * 2 ^ obj_shift s < 16384" by (simp add: capacity_bounds(1) [OF assms(1)])
  then show "unat (slot s i) = unat (slab_base s) + i * 2 ^ obj_shift s"
    using assms(1) by (simp add: slot_def unat_add_usize unat_of_nat slab_ok_def del: of_nat_mult)
qed

lemma slot_inject:
  "slab_ok s \<Longrightarrow> i < capacity s \<Longrightarrow> j < capacity s \<Longrightarrow> slot s i = slot s j \<longleftrightarrow> i = j"
  by (auto simp: unat_eq_usize slot_offset)

lemma slot_frame [simp]:
  "slot (s\<lparr>next_free := f\<rparr>) = slot s" "slot (s\<lparr>num_free := n\<rparr>) = slot s"
  "capacity (s\<lparr>next_free := f\<rparr>) = capacity s" "capacity (s\<lparr>num_free := n\<rparr>) = capacity s"
  "slab_ok (s\<lparr>next_free := f\<rparr>) = slab_ok s" "slab_ok (s\<lparr>num_free := n\<rparr>) = slab_ok s"
  by (simp_all add: slot_def fun_eq_iff capacity_eq slab_ok_def)

lemma chain_frame [simp]:
  "chain (s\<lparr>next_free := f\<rparr>) mem nf xs = chain s mem nf xs"
  "chain (s\<lparr>num_free := n\<rparr>) mem nf xs = chain s mem nf xs"
  by (induction xs arbitrary: nf) simp_all

lemma chain_capacity: "chain s mem nf xs \<Longrightarrow> \<forall>i \<in> set xs. i < capacity s"
  by (induction xs arbitrary: nf) auto

lemma chain_upd: "\<forall>i \<in> set xs. slot s i \<noteq> a \<Longrightarrow> chain s (mem(a := v)) nf xs = chain s mem nf xs"
  by (induction xs arbitrary: nf) auto

lemma slab_rep_upd:
  assumes "slab_rep s mem xs" and "i < capacity s" and "i \<notin> set xs"
  shows "slab_rep s (mem(slot s i := v)) xs"
proof -
  have "\<forall>j \<in> set xs. slot s j \<noteq> slot s i"
    using assms slot_inject [of s _ i] chain_capacity [of s mem _ xs]
    by (auto simp: slab_rep_def)
  with assms(1) show ?thesis by (simp add: slab_rep_def chain_upd)
qed

lemma calc_obj_idx_slot: "calc_obj_idx s (of_nat i) = slot s i" if "slab_ok s" "i < capacity s"
proof -
  have "i < 8192" using capacity_bounds(3) [OF that(1)] that(2) by simp
  then have "ucast (of_nat i :: u16) = (of_nat i :: usize)"
    by (simp add: unat_eq_usize unsigned_ucast_eq unat_of_nat take_bit_nat_eq_self_iff)
  then show ?thesis by (simp add: calc_obj_idx_def slot_def add_bytes_def)
qed

section \<open>The operations on the free list\<close>

lemma alloc_object_Nil: "slab_rep s mem [] \<Longrightarrow> alloc_object s mem = Some (None, s)"
  by (simp add: slab_rep_def alloc_object_def)

lemma alloc_object_Cons:
  assumes "slab_rep s mem (i # xs)"
  obtains s' where "alloc_object s mem = Some (Some (slot s i), s')" and "slab_rep s' mem xs"
    and "slab_base s' = slab_base s" and "obj_shift s' = obj_shift s"
proof -
  have i: "next_free s = Some (of_nat i)" "i < capacity s" "slab_ok s"
    using assms by (simp_all add: slab_rep_def)
  have va: "calc_obj_idx s (of_nat i) = slot s i" by (rule calc_obj_idx_slot [OF i(3,2)])
  show ?thesis
    by (rule that [of "s\<lparr>next_free := (if mem (slot s i) = U16_MAX then None else Some (mem (slot s i))),
          num_free := num_free s - 1\<rparr>"])
      (use assms i va in \<open>simp_all add: alloc_object_def slab_rep_def slab_ok_def Let_def\<close>)
qed

lemma put_object_spec:
  assumes "slab_rep s mem xs" and "i < capacity s" and "i \<notin> set xs"
  obtains s' mem' where "put_object s mem (slot s i) = Some (s', mem')" and "slab_rep s' mem' (i # xs)"
    and "slab_base s' = slab_base s" and "obj_shift s' = obj_shift s"
    and "\<And>a. a \<noteq> slot s i \<Longrightarrow> mem' a = mem a"
proof -
  have ok: "slab_ok s" using assms(1) by (simp add: slab_rep_def)
  note off = slot_offset [OF ok assms(2)]
  have in_slab: "contains_address (rnew (slab_base s) SLAB_SIZE_BYTES) (slot s i)"
    using off ok
    by (subst contains_address_iff)
      (simp_all add: SLAB_SIZE_BYTES_eq valid_def span_def lo_def hi_def slab_ok_def)
  have "unat (slot s i - slab_base s) = i * 2 ^ obj_shift s"
    using off by (simp add: unat_sub_usize)
  then have "unat (drop_bit (obj_shift s) (slot s i - slab_base s)) = i"
    unfolding unsigned_drop_bit_eq using off by (simp add: drop_bit_eq_div take_bit_nat_eq_self)
  then have idx: "ucast (drop_bit (obj_shift s) (slot s i - slab_base s)) = (of_nat i :: u16)"
    using of_nat_unat [of "drop_bit (obj_shift s) (slot s i - slab_base s)", where 'a = "u16"] by simp
  define v where "v = (case next_free s of None \<Rightarrow> U16_MAX | Some n \<Rightarrow> n)"
  let ?s = "s\<lparr>num_free := num_free s + 1, next_free := Some (of_nat i)\<rparr>" and ?m = "mem(slot s i := v)"
  have "next_free s \<noteq> Some U16_MAX"
  proof (cases xs)
    case (Cons j js)
    then have "next_free s = Some (of_nat j)" "j < 8192"
      using assms(1) capacity_bounds(3) [OF ok] by (auto simp: slab_rep_def)
    then show ?thesis by (simp add: U16_MAX_def unat_eq_usize unat_of_nat)
  qed (use assms(1) in \<open>simp add: slab_rep_def\<close>)
  then have nf: "(if v = U16_MAX then None else Some v) = next_free s"
    by (cases "next_free s") (auto simp: v_def)
  have rep: "slab_rep s ?m xs" by (rule slab_rep_upd [OF assms])
  then have "slab_rep ?s ?m (i # xs)"
    using assms(2,3) nf by (auto simp: slab_rep_def split: if_splits)
  moreover have "put_object s mem (slot s i) = Some (?s, ?m)"
    using in_slab idx by (simp add: put_object_def Let_def v_def)
  ultimately show ?thesis using that by auto
qed

lemma fold_slots:
  assumes "slab_ok s" and "k \<le> capacity s" and "j < capacity s"
  shows "fold (\<lambda>i mem. mem(slot s i := v i)) [0..<k] mem (slot s j) =
    (if j < k then v j else mem (slot s j))"
  using assms(2)
proof (induction k)
  case (Suc k)
  then show ?case using slot_inject [OF assms(1,3), of k] by auto
qed simp

lemma chain_fresh:
  assumes "n = capacity s" and "n \<le> 8192"
    and "\<And>j. j < n \<Longrightarrow> mem (slot s j) = (if j = n - 1 then U16_MAX else of_nat (j + 1))"
  shows "i < n \<Longrightarrow> chain s mem (Some (of_nat i)) [i..<n]"
proof (induction "n - i" arbitrary: i)
  case (Suc d)
  have upt: "[i..<n] = i # [Suc i..<n]" using Suc.prems by (rule upt_conv_Cons)
  show ?case
  proof (cases "Suc i < n")
    case True
    have "(of_nat (Suc i) :: u16) \<noteq> U16_MAX"
      using True assms(2) by (simp add: U16_MAX_def unat_eq_usize unat_of_nat del: of_nat_Suc)
    moreover have "chain s mem (Some (of_nat (Suc i))) [Suc i..<n]"
      by (intro Suc.hyps(1)) (use Suc.hyps(2) True in auto)
    ultimately show ?thesis
      using assms(1) assms(3) [of i] True unfolding upt by simp
  next
    case False
    then have "i = n - 1" using Suc.prems by simp
    then show ?thesis using assms(1) assms(3) [of i] Suc.prems False unfolding upt by simp
  qed
qed simp

lemma fold_slots_other:
  "a \<notin> slot s ` {..<k} \<Longrightarrow> fold (\<lambda>i mem. mem(slot s i := v i)) [0..<k] mem a = mem a"
  by (induction k) (auto simp: lessThan_Suc)

lemma slab_new_spec:
  assumes "rsize rgn = SLAB_SIZE_BYTES" and "1 \<le> shift" and "shift \<le> SLAB_MAX_OBJ_SHIFT"
    and "unat (to_va (start_address rgn)) + 16384 < 2 ^ 64"
  obtains s mem' where "slab_new to_va mem rgn shift = Some (s, mem')"
    and "slab_rep s mem' [0..<16384 div 2 ^ shift]" and "obj_shift s = shift"
    and "slab_base s = to_va (start_address rgn)"
    and "\<forall>a. a \<notin> slot s ` {..<capacity s} \<longrightarrow> mem' a = mem a"
proof -
  let ?n = "unat (drop_bit shift SLAB_SIZE_BYTES)"
  let ?s = "\<lparr>obj_shift = shift, num_free = ?n, next_free = Some 0, slab_base = to_va (start_address rgn)\<rparr>"
  let ?v = "\<lambda>i. if i = ?n - 1 then U16_MAX else of_nat (i + 1)"
  let ?m = "fold (\<lambda>i mem. mem(slot ?s i := ?v i)) [0..<?n] mem"
  have ok: "slab_ok ?s" using assms by (simp add: slab_ok_def)
  have n: "?n = capacity ?s" by (simp add: capacity_def)
  have "slot ?s i = to_va (start_address rgn) + of_nat i * push_bit shift 1" for i
    by (simp add: slot_def)
  then have new: "slab_new to_va mem rgn shift = Some (?s, ?m)"
    using assms by (simp add: slab_new_def Let_def)
  have vals: "?m (slot ?s j) = ?v j" if "j < ?n" for j
    by (rule trans [OF fold_slots [OF ok]]) (use that n in auto)
  have "2 \<le> ?n" "?n \<le> 8192" using capacity_bounds [OF ok] n by simp_all
  then have "chain ?s ?m (Some (of_nat 0)) [0..<?n]"
    by (intro chain_fresh [OF n _ vals]) simp_all
  then have "slab_rep ?s ?m [0..<?n]"
    using ok by (simp add: slab_rep_def)
  moreover have "?n = 16384 div 2 ^ shift" using n capacity_eq [of ?s] by simp
  moreover have "?m a = mem a" if "a \<notin> slot ?s ` {..<capacity ?s}" for a
    by (rule fold_slots_other) (rule that [folded n])
  ultimately show ?thesis using that [OF new] by simp
qed

section \<open>A slab never hands out an object twice\<close>

text \<open>
  The contract of a pool of objects: \<open>pool s xs\<close> relates a state to the stack of its free objects,
  \<open>objs\<close> are all its objects. Whoever holds an object may write to it (\<open>touch\<close>).
\<close>

locale object_pool =
  fixes pool :: "'s \<Rightarrow> 'o list \<Rightarrow> bool"
    and objs :: "'s \<Rightarrow> 'o set"
    and take_obj :: "'s \<Rightarrow> ('o option \<times> 's) option"
    and give_obj :: "'s \<Rightarrow> 'o \<Rightarrow> 's option"
    and touch :: "'s \<Rightarrow> 'o \<Rightarrow> 'v \<Rightarrow> 's"
  assumes take_Cons: "pool s (x # xs) \<Longrightarrow>
        \<exists>s'. take_obj s = Some (Some x, s') \<and> pool s' xs \<and> objs s' = objs s"
    and take_Nil: "pool s [] \<Longrightarrow> take_obj s = Some (None, s)"
    and give: "pool s xs \<Longrightarrow> x \<in> objs s \<Longrightarrow> x \<notin> set xs \<Longrightarrow>
        \<exists>s'. give_obj s x = Some s' \<and> pool s' (x # xs) \<and> objs s' = objs s"
    and touch_ok: "pool s xs \<Longrightarrow> x \<in> objs s \<Longrightarrow> x \<notin> set xs \<Longrightarrow>
        pool (touch s x v) xs \<and> objs (touch s x v) = objs s"
    and pool_objs: "pool s xs \<Longrightarrow> set xs \<subseteq> objs s \<and> distinct xs"

text \<open>
  A client: it keeps the list of objects it holds, and returns or writes only to those
  (\<open>Give k\<close> and \<open>Touch k\<close> name the \<open>k\<close>-th, and are skipped when there is none).
  \<open>None\<close> is a panic of the pool.
\<close>

datatype 'v pool_op = Take | Give nat | Touch nat 'v

fun pool_step :: "('s \<Rightarrow> ('o option \<times> 's) option) \<Rightarrow> ('s \<Rightarrow> 'o \<Rightarrow> 's option) \<Rightarrow> ('s \<Rightarrow> 'o \<Rightarrow> 'v \<Rightarrow> 's) \<Rightarrow>
    's \<times> 'o list \<Rightarrow> 'v pool_op \<Rightarrow> ('s \<times> 'o list) option" where
  "pool_step tak giv tou (s, held) Take =
     map_option (\<lambda>(r, s). (s, (case r of None \<Rightarrow> held | Some x \<Rightarrow> x # held))) (tak s)"
| "pool_step tak giv tou (s, held) (Give k) =
     (if k < length held
      then map_option (\<lambda>s. (s, take k held @ drop (Suc k) held)) (giv s (held ! k))
      else Some (s, held))"
| "pool_step tak giv tou (s, held) (Touch k v) =
     Some (if k < length held then tou s (held ! k) v else s, held)"

fun pool_run :: "('s \<Rightarrow> ('o option \<times> 's) option) \<Rightarrow> ('s \<Rightarrow> 'o \<Rightarrow> 's option) \<Rightarrow> ('s \<Rightarrow> 'o \<Rightarrow> 'v \<Rightarrow> 's) \<Rightarrow>
    's \<times> 'o list \<Rightarrow> 'v pool_op list \<Rightarrow> ('s \<times> 'o list) option" where
  "pool_run tak giv tou c [] = Some c"
| "pool_run tak giv tou c (p # ps) =
     Option.bind (pool_step tak giv tou c p) (\<lambda>c. pool_run tak giv tou c ps)"

context object_pool
begin

definition shared :: "'o set \<Rightarrow> 's \<times> 'o list \<Rightarrow> bool" where
  "shared U c \<longleftrightarrow> (\<exists>xs. pool (fst c) xs \<and> distinct (xs @ snd c) \<and> set (xs @ snd c) = U \<and> objs (fst c) = U)"

lemma shared_step:
  assumes "shared U c"
  shows "\<exists>c'. pool_step take_obj give_obj touch c p = Some c' \<and> shared U c'"
proof -
  obtain s held xs where c: "c = (s, held)" and xs: "pool s xs" "distinct (xs @ held)"
    "set (xs @ held) = U" "objs s = U"
    using assms by (cases c) (auto simp: shared_def)
  show ?thesis
  proof (cases p)
    case Take
    show ?thesis
    proof (cases xs)
      case Nil
      then show ?thesis using take_Nil [of s] xs c Take by (auto simp: shared_def)
    next
      case (Cons x ys)
      then obtain s' where "take_obj s = Some (Some x, s')" "pool s' ys" "objs s' = objs s"
        using take_Cons [of s x ys] xs(1) by auto
      then show ?thesis using xs c Take Cons by (auto simp: shared_def)
    qed
  next
    case (Give k)
    show ?thesis
    proof (cases "k < length held")
      case True
      have held: "held = take k held @ held ! k # drop (Suc k) held"
        using True by (rule id_take_nth_drop)
      have out: "held ! k \<in> objs s" "held ! k \<notin> set xs" using xs True by auto
      then obtain s' where s': "give_obj s (held ! k) = Some s'" "pool s' (held ! k # xs)"
        "objs s' = objs s" using give [OF xs(1)] by blast
      have "distinct (held ! k # xs @ take k held @ drop (Suc k) held) \<and>
          set (held ! k # xs @ take k held @ drop (Suc k) held) = U"
        using xs(2,3) by (subst (asm) (1 2) held) auto
      then have "shared U (s', take k held @ drop (Suc k) held)"
        using s' xs(4) by (auto simp: shared_def intro!: exI [of _ "held ! k # xs"])
      then show ?thesis using s'(1) c Give True by simp
    qed (use assms c Give in simp)
  next
    case (Touch k v)
    show ?thesis
    proof (cases "k < length held")
      case True
      then have "held ! k \<in> objs s" "held ! k \<notin> set xs" using xs by auto
      then have "pool (touch s (held ! k) v) xs \<and> objs (touch s (held ! k) v) = objs s"
        by (rule touch_ok [OF xs(1)])
      with xs c Touch True show ?thesis by (auto simp: shared_def intro!: exI [of _ xs])
    qed (use assms c Touch in simp)
  qed
qed

lemma shared_run: "shared U c \<Longrightarrow> \<exists>c'. pool_run take_obj give_obj touch c ps = Some c' \<and> shared U c'"
proof (induction ps arbitrary: c)
  case (Cons p ps)
  then obtain c1 where "pool_step take_obj give_obj touch c p = Some c1" "shared U c1"
    using shared_step by blast
  with Cons.IH [of c1] show ?case by simp
qed simp

lemma held_distinct: "shared U c \<Longrightarrow> distinct (snd c) \<and> set (snd c) \<subseteq> U"
  by (auto simp: shared_def)

lemma take_fails_only_if_all_held:
  assumes "shared U c" and "take_obj (fst c) = Some (None, s')"
  shows "set (snd c) = U"
proof -
  obtain xs where xs: "pool (fst c) xs" "set (xs @ snd c) = U" using assms(1) by (auto simp: shared_def)
  then have "xs = []" using take_Cons [of "fst c"] assms(2) by (cases xs) fastforce+
  with xs show ?thesis by simp
qed

end

definition slab_pool :: "slab \<times> obj_mem \<Rightarrow> addr list \<Rightarrow> bool" where
  "slab_pool p xs \<longleftrightarrow> (case p of (s, mem) \<Rightarrow> \<exists>is. xs = map (slot s) is \<and> slab_rep s mem is)"

definition slab_objs :: "slab \<times> obj_mem \<Rightarrow> addr set" where
  "slab_objs p = slot (fst p) ` {..<capacity (fst p)}"

definition slab_take :: "slab \<times> obj_mem \<Rightarrow> (addr option \<times> slab \<times> obj_mem) option" where
  "slab_take p = (case p of (s, mem) \<Rightarrow> map_option (\<lambda>(r, s). (r, s, mem)) (alloc_object s mem))"

definition slab_give :: "slab \<times> obj_mem \<Rightarrow> addr \<Rightarrow> (slab \<times> obj_mem) option" where
  "slab_give p va = (case p of (s, mem) \<Rightarrow> put_object s mem va)"

definition slab_touch :: "slab \<times> obj_mem \<Rightarrow> addr \<Rightarrow> u16 \<Rightarrow> slab \<times> obj_mem" where
  "slab_touch p va v = (case p of (s, mem) \<Rightarrow> (s, mem(va := v)))"

lemma slot_cong: "slab_base s' = slab_base s \<Longrightarrow> obj_shift s' = obj_shift s \<Longrightarrow>
    slot s' = slot s \<and> capacity s' = capacity s"
  by (simp add: slot_def fun_eq_iff capacity_eq)

lemma slab_rep_slot_mem:
  "slab_rep s mem is \<Longrightarrow> i < capacity s \<Longrightarrow> slot s i \<in> slot s ` set is \<longleftrightarrow> i \<in> set is"
  by (auto simp: slab_rep_def slot_inject dest: chain_capacity)

lemma slab_pool_objs: "slab_pool p xs \<Longrightarrow> set xs \<subseteq> slab_objs p \<and> distinct xs"
  by (force simp: slab_pool_def slab_objs_def slab_rep_def distinct_map inj_on_def slot_inject
      dest: chain_capacity split: prod.splits)

interpretation slab_stack: object_pool slab_pool slab_objs slab_take slab_give slab_touch
proof
  fix p x xs
  assume "slab_pool p (x # xs)"
  then obtain s mem i "is" where p: "p = (s, mem)" "x = slot s i" "xs = map (slot s) is"
    "slab_rep s mem (i # is)"
    by (cases p) (auto simp: slab_pool_def Cons_eq_map_conv)
  obtain s' where s': "alloc_object s mem = Some (Some (slot s i), s')" "slab_rep s' mem is"
    "slab_base s' = slab_base s" "obj_shift s' = obj_shift s"
    using alloc_object_Cons [OF p(4)] .
  with p slot_cong [OF s'(3,4)] show "\<exists>p'. slab_take p = Some (Some x, p') \<and> slab_pool p' xs \<and> slab_objs p' = slab_objs p"
    by (auto simp: slab_take_def slab_pool_def slab_objs_def)
next
  fix p
  assume "slab_pool p []"
  then show "slab_take p = Some (None, p)"
    by (auto simp: slab_pool_def slab_take_def alloc_object_Nil split: prod.splits)
next
  fix p x xs
  assume pool: "slab_pool p xs" and x: "x \<in> slab_objs p" "x \<notin> set xs"
  then obtain s mem i "is" where p: "p = (s, mem)" "x = slot s i" "i < capacity s"
    "xs = map (slot s) is" "slab_rep s mem is"
    by (cases p) (auto simp: slab_pool_def slab_objs_def)
  then have i: "i \<notin> set is" using x(2) by auto
  obtain s' mem' where s': "put_object s mem (slot s i) = Some (s', mem')" "slab_rep s' mem' (i # is)"
    "slab_base s' = slab_base s" "obj_shift s' = obj_shift s"
    using put_object_spec [OF p(5,3) i] by metis
  with p slot_cong [OF s'(3,4)]
  show "\<exists>p'. slab_give p x = Some p' \<and> slab_pool p' (x # xs) \<and> slab_objs p' = slab_objs p"
    by (auto simp: slab_give_def slab_pool_def slab_objs_def intro!: exI [of _ "i # is"])
next
  fix p x xs v
  assume pool: "slab_pool p xs" and x: "x \<in> slab_objs p" "x \<notin> set xs"
  then obtain s mem i "is" where p: "p = (s, mem)" "x = slot s i" "i < capacity s"
    "xs = map (slot s) is" "slab_rep s mem is"
    by (cases p) (auto simp: slab_pool_def slab_objs_def)
  then have "i \<notin> set is" using x(2) by auto
  from slab_rep_upd [OF p(5,3) this] p
  show "slab_pool (slab_touch p x v) xs \<and> slab_objs (slab_touch p x v) = slab_objs p"
    by (auto simp: slab_pool_def slab_touch_def slab_objs_def)
next
  show "\<And>p xs. slab_pool p xs \<Longrightarrow> set xs \<subseteq> slab_objs p \<and> distinct xs" by (rule slab_pool_objs)
qed

text \<open>
  Claim C29. From a fresh slab, whatever objects a client allocates, overwrites and returns, no
  operation panics, and the objects it holds are pairwise different slots of the slab. When an
  allocation finds no object, the client holds every one of them.
\<close>

theorem slab_never_hands_out_twice:
  assumes "rsize rgn = SLAB_SIZE_BYTES" and "1 \<le> shift" and "shift \<le> SLAB_MAX_OBJ_SHIFT"
    and "unat (to_va (start_address rgn)) + 16384 < 2 ^ 64"
  shows "\<exists>s mem' p held. slab_new to_va mem rgn shift = Some (s, mem') \<and>
    pool_run slab_take slab_give slab_touch ((s, mem'), []) ops = Some (p, held) \<and>
    distinct held \<and> set held \<subseteq> (\<lambda>i. to_va (start_address rgn) + of_nat (i * 2 ^ shift)) ` {..<16384 div 2 ^ shift} \<and>
    (\<forall>p'. slab_take p = Some (None, p') \<longrightarrow> length held = 16384 div 2 ^ shift)"
proof -
  obtain s mem' where s: "slab_new to_va mem rgn shift = Some (s, mem')"
    "slab_rep s mem' [0..<16384 div 2 ^ shift]" "obj_shift s = shift"
    "slab_base s = to_va (start_address rgn)"
    using slab_new_spec [of rgn shift to_va mem] assms by metis
  have cap: "capacity s = 16384 div 2 ^ shift" using s(3) by (simp add: capacity_eq)
  let ?U = "slab_objs (s, mem')"
  have objs: "?U = (\<lambda>i. to_va (start_address rgn) + of_nat (i * 2 ^ shift)) ` {..<16384 div 2 ^ shift}"
    unfolding slab_objs_def cap fst_conv slot_def s(3,4) ..
  have inj: "inj_on (slot s) {..<capacity s}"
    using s(2) by (auto simp: inj_on_def slot_inject slab_rep_def)
  then have "card ?U = capacity s" by (simp add: slab_objs_def card_image)
  have "slab_pool (s, mem') (map (slot s) [0..<capacity s])"
    using s(2) by (auto simp: slab_pool_def cap)
  moreover have "set (map (slot s) [0..<capacity s]) = ?U"
    by (simp add: slab_objs_def atLeast0LessThan)
  ultimately have "slab_stack.shared ?U ((s, mem'), [])"
    using slab_pool_objs by (fastforce simp: slab_stack.shared_def)
  from slab_stack.shared_run [OF this, of ops]
  obtain p held where run: "pool_run slab_take slab_give slab_touch ((s, mem'), []) ops = Some (p, held)"
    "slab_stack.shared ?U (p, held)" by auto
  have "length held = 16384 div 2 ^ shift" if "slab_take p = Some (None, p')" for p'
  proof -
    have "set held = ?U"
      using slab_stack.take_fails_only_if_all_held [OF run(2)] that by simp
    then show ?thesis
      using slab_stack.held_distinct [OF run(2)] \<open>card ?U = capacity s\<close> cap
        distinct_card [of held] by simp
  qed
  moreover have "distinct held" "set held \<subseteq> ?U"
    using slab_stack.held_distinct [OF run(2)] by simp_all
  ultimately show ?thesis using s(1) run(1) objs by blast
qed

theorem slab_never_hands_out_twice_witness:
  "\<exists>s mem' p held. slab_new (\<lambda>pa. pa) (\<lambda>_. 0) (rnew 0x10000 SLAB_SIZE_BYTES) 12 = Some (s, mem') \<and>
     pool_run slab_take slab_give slab_touch ((s, mem'), [])
       [Take, Take, Touch 0 7, Give 0, Take, Take, Take, Take] = Some (p, held) \<and> distinct held"
proof -
  have "rsize (rnew 0x10000 SLAB_SIZE_BYTES) = SLAB_SIZE_BYTES" "1 \<le> (12 :: nat)"
    "12 \<le> SLAB_MAX_OBJ_SHIFT"
    "unat ((\<lambda>pa. pa) (start_address (rnew 0x10000 SLAB_SIZE_BYTES))) + 16384 < 2 ^ 64"
    by (simp_all add: SLAB_MAX_OBJ_SHIFT_def start_address_def)
  from slab_never_hands_out_twice [of "rnew 0x10000 SLAB_SIZE_BYTES" 12 "\<lambda>pa. pa" "\<lambda>_. 0"
      "[Take, Take, Touch 0 7, Give 0, Take, Take, Take, Take]", OF this]
  show ?thesis by blast
qed

end
