(* ===== verification/Frame_Alloc.thy ===== *)
theory Frame_Alloc
  imports Slab Smalloc
begin

text \<open>
  The physical page-frame allocator, a buddy allocator:
  \<^verbatim>\<open>libkernel/src/memory/allocators/frame.rs\<close> and \<^verbatim>\<open>phys.rs\<close>.

  A page frame number is a physical address shifted right by 12, so it stays below \<open>2 ^ 52\<close> and
  the sums of the code do not wrap: it is a \<open>nat\<close>. A reference to a frame is its number. The
  frame array is a list with the number of its first frame beside it. An intrusive
  linked list is the list of the frames on it; the link of a frame is a flag that pushing sets and
  removing clears, and pushing a linked frame panics, as the \<open>intrusive_collections\<close> crate
  documents. \<open>None\<close> is a panic: an assertion on a frame number, an index out of range, an
  \<open>unreachable!\<close> or \<open>panic!\<close>. The spin lock is taken around each operation, so that operations
  are atomic steps.
\<close>

section \<open>Frames\<close>

type_synonym page_frame = nat

record AllocatedInfo =
  ref_count :: u32
  order :: nat

datatype FrameState =
    Uninitialized
  | Free nat
  | AllocatedHead AllocatedInfo
  | AllocatedTail page_frame
  | Slab slab
  | Kernel

record frame =
  state :: FrameState
  link :: bool

definition frame_new :: frame where
  "frame_new = \<lparr>state = Uninitialized, link = False\<rparr>"

record frame_list =
  frames :: "frame list"
  base_page :: page_frame

definition total_pages :: "frame_list \<Rightarrow> nat" where
  "total_pages fl = length (frames fl)"

definition pfn_to_index :: "frame_list \<Rightarrow> page_frame \<Rightarrow> nat option" where
  "pfn_to_index fl pfn =
     (if pfn \<ge> base_page fl \<and> pfn - base_page fl < total_pages fl
      then Some (pfn - base_page fl) else None)"

definition get_frame :: "frame_list \<Rightarrow> page_frame \<Rightarrow> frame option" where
  "get_frame fl pfn = map_option ((!) (frames fl)) (pfn_to_index fl pfn)"

definition put_frame :: "frame_list \<Rightarrow> page_frame \<Rightarrow> frame \<Rightarrow> frame_list option" where
  "put_frame fl pfn f = map_option (\<lambda>i. fl\<lparr>frames := (frames fl)[i := f]\<rparr>) (pfn_to_index fl pfn)"

definition pf_buddy :: "page_frame \<Rightarrow> nat \<Rightarrow> page_frame" where
  "pf_buddy n k = n XOR push_bit k 1"

section \<open>The allocator\<close>

definition MAX_ORDER :: nat where
  "MAX_ORDER = 10"

record frame_alloc =
  frame_list :: frame_list
  free_pages :: usize
  free_lists :: "nat \<Rightarrow> page_frame list"

definition fa_state :: "frame_alloc \<Rightarrow> page_frame \<Rightarrow> FrameState option" where
  "fa_state fa pfn = map_option state (get_frame (frame_list fa) pfn)"

definition set_state :: "frame_alloc \<Rightarrow> page_frame \<Rightarrow> FrameState \<Rightarrow> frame_alloc option" where
  "set_state fa pfn st =
     do {
       f \<leftarrow> get_frame (frame_list fa) pfn;
       fl \<leftarrow> put_frame (frame_list fa) pfn (f\<lparr>state := st\<rparr>);
       Some (fa\<lparr>frame_list := fl\<rparr>)
     }"

definition set_link :: "frame_alloc \<Rightarrow> page_frame \<Rightarrow> bool \<Rightarrow> frame_alloc option" where
  "set_link fa pfn b =
     do {
       f \<leftarrow> get_frame (frame_list fa) pfn;
       fl \<leftarrow> put_frame (frame_list fa) pfn (f\<lparr>link := b\<rparr>);
       Some (fa\<lparr>frame_list := fl\<rparr>)
     }"

definition is_linked :: "frame_alloc \<Rightarrow> page_frame \<Rightarrow> bool option" where
  "is_linked fa pfn = map_option link (get_frame (frame_list fa) pfn)"

definition add_to_free_list :: "frame_alloc \<Rightarrow> page_frame \<Rightarrow> nat \<Rightarrow> frame_alloc option" where
  "add_to_free_list fa pfn k =
     do {
       linked \<leftarrow> is_linked fa pfn;
       if k > MAX_ORDER \<or> linked then None
       else
         do {
           fa \<leftarrow> set_link fa pfn True;
           Some (fa\<lparr>free_lists := (free_lists fa)(k := pfn # free_lists fa k)\<rparr>)
         }
     }"

definition remove_from_free_list :: "frame_alloc \<Rightarrow> page_frame \<Rightarrow> nat \<Rightarrow> frame_alloc option" where
  "remove_from_free_list fa pfn k =
     (if k > MAX_ORDER \<or> pfn \<notin> set (free_lists fa k) then None
      else
        do {
          fa \<leftarrow> set_link (fa\<lparr>free_lists := (free_lists fa)(k := remove1 pfn (free_lists fa k))\<rparr>)
                  pfn False;
          set_state fa pfn Uninitialized
        })"

definition pop_front :: "frame_alloc \<Rightarrow> nat \<Rightarrow> (page_frame \<times> frame_alloc) option" where
  "pop_front fa k =
     (case free_lists fa k of
        [] \<Rightarrow> None
      | pfn # rest \<Rightarrow>
          map_option (Pair pfn) (set_link (fa\<lparr>free_lists := (free_lists fa)(k := rest)\<rparr>) pfn False))"

text \<open>The loop of \<open>free_frames\<close> that merges a block with its free buddies.\<close>

function merge_buddies :: "frame_alloc \<Rightarrow> page_frame \<Rightarrow> nat \<Rightarrow> (frame_alloc \<times> page_frame \<times> nat) option" where
  "merge_buddies fa current_pfn k =
     (if k \<ge> MAX_ORDER then Some (fa, current_pfn, k)
      else
        let buddy_pfn = pf_buddy current_pfn k
        in if buddy_pfn < base_page (frame_list fa) \<or>
              buddy_pfn \<ge> base_page (frame_list fa) + total_pages (frame_list fa)
           then Some (fa, current_pfn, k)
           else if fa_state fa buddy_pfn = Some (Free k)
           then
             (case remove_from_free_list fa buddy_pfn k of
                None \<Rightarrow> None
              | Some fa \<Rightarrow> merge_buddies fa (min current_pfn buddy_pfn) (Suc k))
           else Some (fa, current_pfn, k))"
  by pat_completeness auto
termination
  by (relation "measure (\<lambda>(fa, p, k). MAX_ORDER - k)") auto

declare merge_buddies.simps [simp del]

definition free_frames :: "frame_alloc \<Rightarrow> region \<Rightarrow> frame_alloc option" where
  "free_frames fa rgn =
     (let head_pfn = unat (to_pfn (start_address rgn))
      in case fa_state fa head_pfn of
           Some (AllocatedHead info) \<Rightarrow>
             if ref_count info > 1
             then set_state fa head_pfn (AllocatedHead (info\<lparr>ref_count := ref_count info - 1\<rparr>))
             else
               do {
                 fa \<leftarrow> set_state fa head_pfn Uninitialized;
                 (fa, current_pfn, merged_order) \<leftarrow> merge_buddies fa head_pfn (order info);
                 fa \<leftarrow> set_state fa current_pfn (Free merged_order);
                 fa \<leftarrow> add_to_free_list fa current_pfn merged_order;
                 Some (fa\<lparr>free_pages := free_pages fa + push_bit (order info) 1\<rparr>)
               }
         | _ \<Rightarrow> None)"

definition free_slab :: "frame_alloc \<Rightarrow> page_frame \<Rightarrow> frame_alloc option" where
  "free_slab fa pfn =
     (case fa_state fa pfn of
        Some (Slab _) \<Rightarrow>
          do {
            fa \<leftarrow> set_state fa pfn (AllocatedHead \<lparr>ref_count = 1, order = SLAB_FRAME_ALLOC_ORDER\<rparr>);
            free_frames fa (rnew (pfn_pa (of_nat pfn)) SLAB_SIZE_BYTES)
          }
      | _ \<Rightarrow> None)"

text \<open>Splitting a block of order \<open>k\<close> down to the requested order.\<close>

fun split_block :: "frame_alloc \<Rightarrow> page_frame \<Rightarrow> nat \<Rightarrow> nat \<Rightarrow> frame_alloc option" where
  "split_block fa block_pfn requested 0 = Some fa"
| "split_block fa block_pfn requested (Suc k) =
     (if Suc k > requested
      then
        do {
          fa \<leftarrow> set_state fa (pf_buddy block_pfn k) (Free k);
          fa \<leftarrow> add_to_free_list fa (pf_buddy block_pfn k) k;
          split_block fa block_pfn requested k
        }
      else Some fa)"

fun set_tails :: "frame_alloc \<Rightarrow> page_frame \<Rightarrow> nat list \<Rightarrow> frame_alloc option" where
  "set_tails fa block_pfn [] = Some fa"
| "set_tails fa block_pfn (i # is) =
     do {
       fa \<leftarrow> set_state fa (block_pfn + i) (AllocatedTail block_pfn);
       set_tails fa block_pfn is
     }"

definition alloc_frames :: "frame_alloc \<Rightarrow> nat \<Rightarrow> (region result \<times> frame_alloc) option" where
  "alloc_frames fa requested =
     (if requested > MAX_ORDER then Some (Inl InvalidValue, fa)
      else
        case find (\<lambda>k. free_lists fa k \<noteq> []) [requested..<Suc MAX_ORDER] of
          None \<Rightarrow> Some (Inl NoMemory, fa)
        | Some k \<Rightarrow>
            do {
              (block_pfn, fa) \<leftarrow> pop_front fa k;
              fa \<leftarrow> set_state fa block_pfn Uninitialized;
              fa \<leftarrow> split_block fa block_pfn requested k;
              fa \<leftarrow> set_state fa block_pfn (AllocatedHead \<lparr>ref_count = 1, order = requested\<rparr>);
              fa \<leftarrow> set_tails fa block_pfn [1..<2 ^ requested];
              Some (Inr (rnew (pfn_pa (of_nat block_pfn)) (push_bit PAGE_SHIFT (push_bit requested 1))),
                    fa\<lparr>free_pages := free_pages fa - push_bit requested 1\<rparr>)
            })"

section \<open>Allocations held by a client\<close>

text \<open>
  A \<open>PageAllocation\<close> is the region it guards. Cloning it counts a reference, dropping it is
  \<open>free_frames\<close>, \<open>leak\<close> and \<open>alloc_from_region\<close> only convert between the two.
\<close>

definition page_allocation_clone :: "frame_alloc \<Rightarrow> region \<Rightarrow> (region \<times> frame_alloc) option" where
  "page_allocation_clone fa rgn =
     (let pfn = unat (to_pfn (start_address rgn))
      in case fa_state fa pfn of
           Some (AllocatedHead info) \<Rightarrow>
             map_option (Pair rgn)
               (set_state fa pfn (AllocatedHead (info\<lparr>ref_count := ref_count info + 1\<rparr>)))
         | _ \<Rightarrow> None)"

definition page_allocation_drop :: "frame_alloc \<Rightarrow> region \<Rightarrow> frame_alloc option" where
  "page_allocation_drop fa rgn = free_frames fa rgn"

definition into_slab :: "frame_alloc \<Rightarrow> region \<Rightarrow> slab \<Rightarrow> (page_frame \<times> frame_alloc) option" where
  "into_slab fa rgn slab_info =
     (let pfn = unat (to_pfn (start_address rgn))
      in map_option (Pair pfn) (set_state fa pfn (Slab slab_info)))"

definition is_allocated :: "frame_alloc \<Rightarrow> page_frame \<Rightarrow> bool option" where
  "is_allocated fa pfn =
     map_option (\<lambda>st. case st of AllocatedHead _ \<Rightarrow> True | AllocatedTail _ \<Rightarrow> True | _ \<Rightarrow> False)
       (fa_state fa pfn)"

partial_function (option) is_allocated_exclusive :: "frame_alloc \<Rightarrow> page_frame \<Rightarrow> bool option" where
  "is_allocated_exclusive fa pfn =
     (case fa_state fa pfn of
        None \<Rightarrow> None
      | Some (AllocatedTail head) \<Rightarrow> is_allocated_exclusive fa head
      | Some (AllocatedHead info) \<Rightarrow> Some (ref_count info = 1)
      | _ \<Rightarrow> Some False)"

declare is_allocated_exclusive.simps [code]

section \<open>Initialisation\<close>

function populate_loop :: "frame_alloc \<Rightarrow> page_frame \<Rightarrow> page_frame \<Rightarrow> frame_alloc option" where
  "populate_loop fa current_pfn end_pfn =
     (if current_pfn + 2 ^ MAX_ORDER \<le> end_pfn
      then
        do {
          st \<leftarrow> fa_state fa current_pfn;
          fa \<leftarrow> (if st \<noteq> Kernel
                 then
                   do {
                     fa \<leftarrow> set_state fa current_pfn (Free MAX_ORDER);
                     fa \<leftarrow> add_to_free_list fa current_pfn MAX_ORDER;
                     Some (fa\<lparr>free_pages := free_pages fa + push_bit MAX_ORDER 1\<rparr>)
                   }
                 else Some fa);
          populate_loop fa (current_pfn + 2 ^ MAX_ORDER) end_pfn
        }
      else Some fa)"
  by pat_completeness auto
termination
  by (relation "measure (\<lambda>(fa, p, e). Suc e - p)") (auto simp: MAX_ORDER_def)

declare populate_loop.simps [simp del]

definition populate_free_region :: "frame_alloc \<Rightarrow> region \<Rightarrow> frame_alloc option" where
  "populate_free_region fa rgn =
     do {
       aligned_start \<leftarrow> align_up (start_address rgn) (push_bit (MAX_ORDER + PAGE_SHIFT) 1);
       if aligned_start \<ge> end_address rgn then Some fa
       else populate_loop fa (unat (to_pfn aligned_start)) (unat (to_pfn (end_address rgn)))
     }"

fun mark_kernel :: "frame_alloc \<Rightarrow> page_frame list \<Rightarrow> frame_alloc option" where
  "mark_kernel fa [] = Some fa"
| "mark_kernel fa (pfn # pfns) =
     do {
       fa \<leftarrow> (if pfn \<ge> base_page (frame_list fa) \<and>
                 pfn < base_page (frame_list fa) + total_pages (frame_list fa)
              then set_state fa pfn Kernel else Some fa);
       mark_kernel fa pfns
     }"

text \<open>The size and the alignment of a \<open>Frame\<close> in memory are the compiler's choice.\<close>

definition fa_setup ::
  "translator \<Rightarrow> usize \<Rightarrow> usize \<Rightarrow> smalloc \<Rightarrow> region \<Rightarrow> (frame_alloc \<times> smalloc) option" where
  "fa_setup tr frame_size frame_align sm managed_region =
     (let lowest_addr = start_address managed_region;
          total = drop_bit PAGE_SHIFT (rsize managed_region);
          metadata_size = total * frame_size
      in case smalloc_alloc tr sm metadata_size frame_align of
           Some (Inr metadata_addr, sm) \<Rightarrow>
             let fa = \<lparr>frame_list = \<lparr>frames = replicate (unat total) frame_new,
                                     base_page = unat (to_pfn lowest_addr)\<rparr>,
                       free_pages = 0, free_lists = (\<lambda>_. [])\<rparr>
             in map_option (\<lambda>fa. (fa, sm))
                  (mark_kernel fa
                     (concat (map (\<lambda>r. map unat (iter_pfns r))
                        (filter (\<lambda>r. overlaps r managed_region) (regions (res sm))))))
         | _ \<Rightarrow> None)"

fun populate_all :: "frame_alloc \<Rightarrow> region list \<Rightarrow> frame_alloc option" where
  "populate_all fa [] = Some fa"
| "populate_all fa (r # rs) = do { fa \<leftarrow> populate_free_region fa r; populate_all fa rs }"

definition frame_alloc_init :: "translator \<Rightarrow> usize \<Rightarrow> usize \<Rightarrow> smalloc \<Rightarrow> frame_alloc option" where
  "frame_alloc_init tr frame_size frame_align sm =
     do {
       start \<leftarrow> base_ram_base_address sm;
       (if regions (memory sm) = [] then None
        else
          do {
            managed \<leftarrow> from_start_end_address start (end_address (last (regions (memory sm))));
            (fa, sm) \<leftarrow> fa_setup tr frame_size frame_align sm managed;
            populate_all fa (iter_free sm)
          })
     }"

definition init_from_region ::
  "translator \<Rightarrow> usize \<Rightarrow> usize \<Rightarrow> smalloc \<Rightarrow> region \<Rightarrow> (frame_alloc \<times> smalloc) option" where
  "init_from_region tr frame_size frame_align sm rgn =
     do {
       (claimed, sm) \<leftarrow> claim_region tr sm rgn;
       (case claimed of
          Inl _ \<Rightarrow> None
        | Inr _ \<Rightarrow>
            do {
              (fa, sm) \<leftarrow> fa_setup tr frame_size frame_align sm rgn;
              fa \<leftarrow> populate_free_region fa rgn;
              Some (fa, sm)
            })
     }"

end
