(* ===== verification/Buddy.thy ===== *)
theory Buddy
  imports Frame_Alloc
begin

text \<open>
  The invariant of the buddy allocator and what one change of the frame table does to it. The
  table is read as a partial map \<open>F\<close> from frame numbers to frames, the free lists as a function
  \<open>L\<close>. While an operation runs, one block is neither free nor allocated: a \<open>hole\<close>. The operations
  of the allocator are sequences of four steps: turning a block into a hole (\<open>dig\<close>), splitting a
  hole, joining it with its free buddy, and filling it with a free or an allocated block.
\<close>

section \<open>Blocks\<close>

definition blk :: "page_frame \<Rightarrow> nat \<Rightarrow> page_frame set" where
  "blk p k = {p..<p + 2 ^ k}"

lemma blk_self [simp]: "p \<in> blk p k"
  by (simp add: blk_def)

lemma finite_blk [simp]: "finite (blk p k)"
  by (simp add: blk_def)

lemma card_blk [simp]: "card (blk p k) = 2 ^ k"
  by (simp add: blk_def)

lemma blk_Suc: "blk p (Suc k) = blk p k \<union> blk (p + 2 ^ k) k" and
  blk_halves: "blk p k \<inter> blk (p + 2 ^ k) k = {}"
  by (auto simp: blk_def)

lemma bit_dvd: "2 ^ k dvd (p :: nat) \<Longrightarrow> bit p k \<longleftrightarrow> \<not> 2 ^ Suc k dvd p"
  by (auto simp: bit_iff_odd elim!: dvdE)

text \<open>The buddy of an aligned block is the other half of the block of the next order.\<close>

lemma odd_multiple: 
  assumes "2 ^ k dvd (p :: nat)" and "\<not> 2 ^ Suc k dvd p"
  shows "2 ^ k \<le> p" and "2 ^ Suc k dvd p - 2 ^ k"
proof -
  obtain m where m: "p = 2 ^ k * m" using assms(1) by (elim dvdE)
  with assms(2) have "odd m" by (auto elim!: evenE)
  then obtain j where "m = 2 * j + 1" by (elim oddE)
  with m have "p = 2 ^ Suc k * j + 2 ^ k" by (simp add: algebra_simps)
  then show "2 ^ k \<le> p" and "2 ^ Suc k dvd p - 2 ^ k" by simp_all
qed

lemma pf_buddy_twice: "pf_buddy (pf_buddy p k) k = p"
  by (simp add: pf_buddy_def xor.assoc)

lemma pf_buddy_even:
  assumes "2 ^ Suc k dvd p"
  shows "pf_buddy p k = p + 2 ^ k"
proof -
  have "\<not> bit p k" using assms bit_dvd [of k p] by (meson dvd_trans le_imp_power_dvd lessI less_imp_le)
  moreover have "pf_buddy p k = flip_bit k p" by (simp add: pf_buddy_def flip_bit_eq_xor)
  ultimately show ?thesis by (simp add: flip_bit_eq_if set_bit_eq)
qed

lemma pf_buddy_eq:
  assumes "2 ^ k dvd p"
  shows "pf_buddy p k = (if 2 ^ Suc k dvd p then p + 2 ^ k else p - 2 ^ k)"
proof (cases "2 ^ Suc k dvd p")
  case False
  have "pf_buddy (p - 2 ^ k) k = p"
    using pf_buddy_even [OF odd_multiple(2) [OF assms False]] odd_multiple(1) [OF assms False] by simp
  with pf_buddy_twice [of "p - 2 ^ k" k] False show ?thesis by simp
qed (simp add: pf_buddy_even del: power_Suc)

lemma buddy_join:
  assumes "2 ^ k dvd p"
  shows "2 ^ Suc k dvd min p (pf_buddy p k)" and "2 ^ k dvd pf_buddy p k" and "pf_buddy p k \<noteq> p"
    and "blk (min p (pf_buddy p k)) (Suc k) = blk p k \<union> blk (pf_buddy p k) k"
    and "pf_buddy (pf_buddy p k) k = p"
proof -
  show "pf_buddy (pf_buddy p k) k = p" by (rule pf_buddy_twice)
  have pos: "0 < (2 :: nat) ^ k" by simp
  consider "2 ^ Suc k dvd p" "pf_buddy p k = p + 2 ^ k"
    | "2 ^ Suc k dvd p - 2 ^ k" "2 ^ k \<le> p" "pf_buddy p k = p - 2 ^ k"
    using pf_buddy_eq [OF assms] odd_multiple [OF assms] by metis
  then have "2 ^ Suc k dvd min p (pf_buddy p k) \<and> 2 ^ k dvd pf_buddy p k \<and> pf_buddy p k \<noteq> p \<and>
      blk (min p (pf_buddy p k)) (Suc k) = blk p k \<union> blk (pf_buddy p k) k"
  proof cases
    case 1
    then have "min p (pf_buddy p k) = p" by simp
    with 1 pos assms show ?thesis by (simp add: blk_Suc del: power_Suc)
  next
    case 2
    then have "min p (pf_buddy p k) = p - 2 ^ k" "p - 2 ^ k + 2 ^ k = p" by simp_all
    with 2 pos assms blk_Suc [of "p - 2 ^ k" k] show ?thesis
      by (auto simp del: power_Suc intro: dvd_diff_nat)
  qed
  then show "2 ^ Suc k dvd min p (pf_buddy p k)" "2 ^ k dvd pf_buddy p k" "pf_buddy p k \<noteq> p"
    "blk (min p (pf_buddy p k)) (Suc k) = blk p k \<union> blk (pf_buddy p k) k" by blast+
qed

text \<open>Two aligned blocks are disjoint or one holds the other.\<close>

lemma aligned_blk_nested:
  assumes "2 ^ j dvd q" and "2 ^ k dvd p" and "j \<le> k" and "blk q j \<inter> blk p k \<noteq> {}"
  shows "blk q j \<subseteq> blk p k"
proof -
  have x: "p < q + 2 ^ j" "q < p + 2 ^ k" using assms(4) by (auto simp: blk_def)
  have "2 ^ j dvd p" using assms(2,3) by (meson dvd_trans le_imp_power_dvd)
  then obtain a b where a: "q = 2 ^ j * a" and b: "p = 2 ^ j * b" using assms(1) by (elim dvdE)
  obtain c where c: "(2 :: nat) ^ k = 2 ^ j * c" using assms(3) by (metis dvdE le_imp_power_dvd)
  have "2 ^ j * b < 2 ^ j * Suc a" "2 ^ j * a < 2 ^ j * (b + c)"
    using x a b c by (simp_all add: algebra_simps)
  then have "b \<le> a" "a < b + c" by (simp_all only: nat_mult_less_cancel_disj) simp_all
  then have "2 ^ j * b \<le> 2 ^ j * a" "2 ^ j * Suc a \<le> 2 ^ j * (b + c)" by (simp_all only: mult_le_mono2 Suc_le_eq)
  then show ?thesis using a b c by (auto simp: blk_def algebra_simps)
qed

section \<open>The invariant\<close>

type_synonym frame_map = "page_frame \<Rightarrow> frame option"
type_synonym lists = "nat \<Rightarrow> page_frame list"

text \<open>The order of the block that a frame is the head of; of an allocated block only.\<close>

fun owned_order :: "FrameState \<Rightarrow> nat option" where
  "owned_order (AllocatedHead info) = Some (order info)"
| "owned_order (Slab _) = Some SLAB_FRAME_ALLOC_ORDER"
| "owned_order _ = None"

fun head_order :: "FrameState \<Rightarrow> nat option" where
  "head_order (Free k) = Some k"
| "head_order st = owned_order st"

definition st_of :: "frame_map \<Rightarrow> page_frame \<Rightarrow> FrameState option" where
  "st_of F p = map_option state (F p)"

definition head :: "frame_map \<Rightarrow> page_frame \<Rightarrow> nat option" where
  "head F p = Option.bind (st_of F p) head_order"

definition free_set :: "frame_map \<Rightarrow> page_frame set" where
  "free_set F = (\<Union>(p, k) \<in> {(p, k). st_of F p = Some (Free k)}. blk p k)"

text \<open>Every block is aligned to its size, inside the table, and apart from every other block.\<close>

definition blocks_ok :: "frame_map \<Rightarrow> bool" where
  "blocks_ok F \<longleftrightarrow>
     (\<forall>p k. head F p = Some k \<longrightarrow> k \<le> MAX_ORDER \<and> 2 ^ k dvd p \<and> blk p k \<subseteq> dom F) \<and>
     (\<forall>p k q j. head F p = Some k \<longrightarrow> head F q = Some j \<longrightarrow> p \<noteq> q \<longrightarrow> blk p k \<inter> blk q j = {})"

text \<open>The free lists hold the heads of the free blocks, and only listed frames are linked.\<close>

definition lists_ok :: "frame_map \<Rightarrow> lists \<Rightarrow> bool" where
  "lists_ok F L \<longleftrightarrow>
     (\<forall>k. distinct (L k) \<and> (\<forall>p. p \<in> set (L k) \<longleftrightarrow> st_of F p = Some (Free k))) \<and>
     (\<forall>p f. F p = Some f \<longrightarrow> link f \<longrightarrow> head_order (state f) \<noteq> None \<and> (\<forall>i. state f \<noteq> AllocatedHead i)) \<and>
     (\<forall>p f k. F p = Some f \<longrightarrow> state f = Free k \<longrightarrow> link f)"

text \<open>The frames of an allocated block after the first point to the first.\<close>

definition tails_ok :: "frame_map \<Rightarrow> bool" where
  "tails_ok F \<longleftrightarrow>
     (\<forall>p k q. Option.bind (st_of F p) owned_order = Some k \<longrightarrow> q \<in> blk p k \<longrightarrow> q \<noteq> p \<longrightarrow>
        st_of F q = Some (AllocatedTail p)) \<and>
     (\<forall>q h. st_of F q = Some (AllocatedTail h) \<longrightarrow> h < q \<and> h \<in> dom F)"

text \<open>No two buddies are both free: they would have been merged.\<close>

definition coalesced :: "frame_map \<Rightarrow> bool" where
  "coalesced F \<longleftrightarrow>
     (\<forall>p k. st_of F p = Some (Free k) \<longrightarrow> k < MAX_ORDER \<longrightarrow> st_of F (pf_buddy p k) \<noteq> Some (Free k))"

definition buddy_inv :: "frame_map \<Rightarrow> lists \<Rightarrow> bool" where
  "buddy_inv F L \<longleftrightarrow> blocks_ok F \<and> lists_ok F L \<and> tails_ok F \<and> coalesced F"

definition hole :: "frame_map \<Rightarrow> page_frame \<Rightarrow> nat \<Rightarrow> bool" where
  "hole F p k \<longleftrightarrow> k \<le> MAX_ORDER \<and> 2 ^ k dvd p \<and> blk p k \<subseteq> dom F \<and>
     (\<forall>q j. head F q = Some j \<longrightarrow> blk q j \<inter> blk p k = {})"

lemma st_of_upd [simp]: "st_of (F(p \<mapsto> f)) q = (if q = p then Some (state f) else st_of F q)"
  by (simp add: st_of_def)

lemma head_upd [simp]: "head (F(p \<mapsto> f)) q = (if q = p then head_order (state f) else head F q)"
  by (simp add: head_def)

lemma head_free: "st_of F p = Some (Free k) \<Longrightarrow> head F p = Some k"
  by (simp add: head_def)

lemma head_owned: "Option.bind (st_of F p) owned_order = Some k \<Longrightarrow> head F p = Some k"
  by (cases "st_of F p"; cases "the (st_of F p)") (auto simp: head_def)

lemma hole_not_head: "hole F p k \<Longrightarrow> q \<in> blk p k \<Longrightarrow> head F q = None"
  by (cases "head F q") (auto simp: hole_def disjoint_iff)

lemma hole_unlinked:
  assumes "buddy_inv F L" and "hole F p k" and "q \<in> blk p k"
  obtains f where "F q = Some f" and "\<not> link f" and "head_order (state f) = None"
proof -
  obtain f where f: "F q = Some f" using assms(2,3) by (auto simp: hole_def)
  moreover from this have "head_order (state f) = None"
    using hole_not_head [OF assms(2,3)] by (simp add: head_def st_of_def)
  moreover from this f have "\<not> link f"
    using assms(1) unfolding buddy_inv_def lists_ok_def by blast
  ultimately show ?thesis using that by blast
qed

lemma hole_dom: "hole F p k \<Longrightarrow> p \<in> dom F"
  unfolding hole_def using blk_self [of p k] by blast

lemma hole_split:
  assumes "hole F p (Suc k)"
  shows "hole F p k" and "hole F (p + 2 ^ k) k" and "2 ^ Suc k dvd p"
proof -
  have p: "2 ^ Suc k dvd p" using assms by (simp add: hole_def)
  then have "2 ^ k dvd p" by (meson dvd_trans le_imp_power_dvd lessI less_imp_le)
  then have "2 ^ k dvd p + 2 ^ k" by simp
  with p \<open>2 ^ k dvd p\<close> assms show "hole F p k" and "hole F (p + 2 ^ k) k" and "2 ^ Suc k dvd p"
    unfolding hole_def blk_Suc by (auto simp del: power_Suc; blast)+
qed

lemma hole_join:
  assumes "hole F p k" and "hole F (pf_buddy p k) k" and "k < MAX_ORDER"
  shows "hole F (min p (pf_buddy p k)) (Suc k)"
proof -
  have "2 ^ k dvd p" using assms(1) by (simp add: hole_def)
  note join = buddy_join [OF this]
  show ?thesis
    unfolding hole_def join(4) using join(1) assms by (auto simp: hole_def simp del: power_Suc; blast)
qed

section \<open>Turning a block into a hole\<close>

lemma inv_head:
  assumes "buddy_inv F L" and "head F p = Some k"
  shows "k \<le> MAX_ORDER" and "2 ^ k dvd p" and "blk p k \<subseteq> dom F"
  using assms by (auto simp: buddy_inv_def blocks_ok_def)

lemma inv_disjoint:
  "buddy_inv F L \<Longrightarrow> head F p = Some k \<Longrightarrow> head F q = Some j \<Longrightarrow> p \<noteq> q \<Longrightarrow> blk p k \<inter> blk q j = {}"
  unfolding buddy_inv_def blocks_ok_def by blast

text \<open>A head is not a tail of another block.\<close>

lemma head_not_tail:
  assumes "buddy_inv F L" and "head F p = Some k" and "Option.bind (st_of F q) owned_order = Some j"
    and "p \<in> blk q j"
  shows "p = q"
  using inv_disjoint [OF assms(1,2) head_owned [OF assms(3)]] assms(4) blk_self [of p k] by blast

lemma clear_head:
  assumes inv: "buddy_inv F L" and head: "head F p = Some k" and g: "state g = Uninitialized"
  shows "blocks_ok (F(p \<mapsto> g))" and "tails_ok (F(p \<mapsto> g))" and "coalesced (F(p \<mapsto> g))"
    and "hole (F(p \<mapsto> g)) p k"
proof -
  have "p \<in> dom F" using inv_head(3) [OF inv head] blk_self [of p k] by blast
  then have dom: "dom (F(p \<mapsto> g)) = dom F" by auto
  show "blocks_ok (F(p \<mapsto> g))"
    using inv g unfolding blocks_ok_def dom buddy_inv_def head_upd by auto
  show "coalesced (F(p \<mapsto> g))"
    using inv g by (auto simp: buddy_inv_def coalesced_def)
  have "st_of F q = Some (AllocatedTail r)" if "Option.bind (st_of F r) owned_order = Some j"
    "q \<in> blk r j" "q \<noteq> r" for q r j
    using inv that unfolding buddy_inv_def tails_ok_def by blast
  moreover have "q \<noteq> p" if "Option.bind (st_of F r) owned_order = Some j" "q \<in> blk r j" "q \<noteq> r" for q r j
    using head_not_tail [OF inv head that(1)] that by blast
  moreover have "h < q \<and> h \<in> dom F" if "st_of F q = Some (AllocatedTail h)" for q h
    using inv that unfolding buddy_inv_def tails_ok_def by blast
  ultimately show "tails_ok (F(p \<mapsto> g))"
    using g unfolding tails_ok_def dom st_of_upd by (auto split: if_splits)
  show "hole (F(p \<mapsto> g)) p k"
    using inv_head [OF inv head] inv_disjoint [OF inv _ head] g
    unfolding hole_def dom head_upd by (auto split: if_splits)
qed

lemma clear_hole:
  assumes "hole F q j" and "state g = Uninitialized" and "p \<in> dom F"
  shows "hole (F(p \<mapsto> g)) q j"
proof -
  have "dom (F(p \<mapsto> g)) = dom F" using assms(3) by auto
  with assms(1,2) show ?thesis unfolding hole_def head_upd by (auto split: if_splits)
qed

lemma dig_free:
  assumes inv: "buddy_inv F L" and f: "F p = Some f" "state f = Free k"
  defines "F' \<equiv> F(p \<mapsto> f\<lparr>state := Uninitialized, link := False\<rparr>)"
  shows "buddy_inv F' (L(k := remove1 p (L k)))" and "hole F' p k"
proof -
  have head: "head F p = Some k" using f by (simp add: head_def st_of_def)
  note clear = clear_head [OF inv head, of "f\<lparr>state := Uninitialized, link := False\<rparr>", folded F'_def]
  have "lists_ok F' (L(k := remove1 p (L k)))"
    using inv f unfolding buddy_inv_def lists_ok_def F'_def by (auto simp: st_of_def)
  with clear show "buddy_inv F' (L(k := remove1 p (L k)))" and "hole F' p k"
    by (simp_all add: buddy_inv_def)
qed

lemma dig_owned:
  assumes inv: "buddy_inv F L" and f: "F p = Some f" "state f = AllocatedHead info"
  defines "F' \<equiv> F(p \<mapsto> f\<lparr>state := Uninitialized\<rparr>)"
  shows "buddy_inv F' L" and "hole F' p (order info)"
proof -
  have head: "head F p = Some (order info)" using f by (simp add: head_def st_of_def)
  note clear = clear_head [OF inv head, of "f\<lparr>state := Uninitialized\<rparr>", folded F'_def]
  have "\<not> link f" using inv f unfolding buddy_inv_def lists_ok_def by blast
  then have "lists_ok F' L"
    using inv f unfolding buddy_inv_def lists_ok_def F'_def by (auto simp: st_of_def)
  with clear show "buddy_inv F' L" and "hole F' p (order info)"
    by (simp_all add: buddy_inv_def)
qed

section \<open>Filling a hole\<close>

lemma hole_not_tail:
  assumes "hole F p k" and "Option.bind (st_of F q) owned_order = Some j" and "r \<in> blk q j"
  shows "r \<notin> blk p k"
  using assms head_owned [OF assms(2)] unfolding hole_def by blast

lemma fill_free:
  assumes inv: "buddy_inv F L" and hole: "hole F p k"
    and buddy: "k < MAX_ORDER \<longrightarrow> st_of F (pf_buddy p k) \<noteq> Some (Free k)"
    and g: "state g = Free k" "link g"
  shows "buddy_inv (F(p \<mapsto> g)) (L(k := p # L k))"
proof -
  have p: "head F p = None" "p \<in> dom F" using hole_not_head [OF hole blk_self] hole_dom [OF hole] by simp_all
  then have dom: "dom (F(p \<mapsto> g)) = dom F" by auto
  have "blocks_ok (F(p \<mapsto> g))"
    using inv hole g unfolding buddy_inv_def blocks_ok_def hole_def dom head_upd
    by (auto split: if_splits; blast)
  moreover have "lists_ok (F(p \<mapsto> g)) (L(k := p # L k))"
  proof -
    have "p \<notin> set (L j)" for j
      using inv p(1) by (auto simp: buddy_inv_def lists_ok_def head_def)
    with inv g show ?thesis unfolding buddy_inv_def lists_ok_def by (auto split: if_splits)
  qed
  moreover have "tails_ok (F(p \<mapsto> g))"
  proof -
    have "r \<noteq> p" if "Option.bind (st_of F q) owned_order = Some j" "r \<in> blk q j" for q j r
      using hole_not_tail [OF hole that] by auto
    with inv g show ?thesis unfolding buddy_inv_def tails_ok_def dom by (auto split: if_splits)
  qed
  moreover have "coalesced (F(p \<mapsto> g))"
  proof -
    have "pf_buddy q j \<noteq> p" if "st_of F q = Some (Free j)" "j < MAX_ORDER" "j = k" for q j
      using buddy that pf_buddy_twice [of q j] by auto
    moreover have "pf_buddy p k \<noteq> p" using hole by (auto simp: hole_def dest: buddy_join(3))
    ultimately show ?thesis
      using inv g buddy unfolding buddy_inv_def coalesced_def by (auto split: if_splits)
  qed
  ultimately show ?thesis by (simp add: buddy_inv_def)
qed

lemma fill_other_hole:
  assumes "hole F q j" and "hole F p k" and "blk p k \<inter> blk q j = {}" and "state g = Free k"
  shows "hole (F(p \<mapsto> g)) q j"
proof -
  have "dom (F(p \<mapsto> g)) = dom F" using hole_dom [OF assms(2)] by auto
  with assms(1,3,4) show ?thesis unfolding hole_def head_upd by (auto split: if_splits)
qed

lemma fill_alloc:
  assumes inv: "buddy_inv F L" and hole: "hole F p k"
    and g: "F' p = Some g" "state g = AllocatedHead info" "order info = k" "\<not> link g"
    and tails: "\<And>q. q \<in> blk p k \<Longrightarrow> q \<noteq> p \<Longrightarrow> \<exists>f. F' q = Some f \<and> state f = AllocatedTail p \<and> \<not> link f"
    and out: "\<And>q. q \<notin> blk p k \<Longrightarrow> F' q = F q"
  shows "buddy_inv F' L"
proof -
  have dom: "dom F' = dom F"
  proof -
    have "blk p k \<subseteq> dom F" using hole by (simp add: hole_def)
    moreover have "q \<in> dom F'" if "q \<in> blk p k" for q using g(1) tails [OF that] by (cases "q = p") auto
    moreover have "q \<in> dom F' \<longleftrightarrow> q \<in> dom F" if "q \<notin> blk p k" for q using out [OF that] by (simp add: domIff)
    ultimately show ?thesis by blast
  qed
  have st_in: "st_of F' q = Some (AllocatedTail p)" if "q \<in> blk p k" "q \<noteq> p" for q
    using tails [OF that] by (auto simp: st_of_def)
  have st_p: "st_of F' p = Some (AllocatedHead info)" using g by (simp add: st_of_def)
  have st_out: "st_of F' q = st_of F q" if "q \<notin> blk p k" for q using out [OF that] by (simp add: st_of_def)
  have head: "head F' q = (if q = p then Some k else head F q)" for q
  proof (cases "q \<in> blk p k")
    case True
    then show ?thesis using hole_not_head [OF hole True] st_in [OF True] st_p g(3) by (auto simp: head_def)
  next
    case False
    then show ?thesis using st_out [OF False] by (auto simp: head_def)
  qed
  have free: "st_of F' q = Some (Free j) \<longleftrightarrow> st_of F q = Some (Free j)" for q j
    using st_in [of q] st_p st_out [of q] hole_not_head [OF hole, of q]
    by (cases "q \<in> blk p k"; cases "q = p") (auto simp: head_def)
  have "blocks_ok F'"
    using inv hole unfolding buddy_inv_def blocks_ok_def hole_def dom head
    by (auto split: if_splits; blast)
  moreover have "lists_ok F' L"
  proof -
    have lists: "\<forall>k. distinct (L k) \<and> (\<forall>p. p \<in> set (L k) \<longleftrightarrow> st_of F p = Some (Free k))"
      and links: "\<And>q f. F q = Some f \<Longrightarrow> link f \<Longrightarrow> head_order (state f) \<noteq> None \<and> (\<forall>i. state f \<noteq> AllocatedHead i)"
        "\<And>q f j. F q = Some f \<Longrightarrow> state f = Free j \<Longrightarrow> link f"
      using inv unfolding buddy_inv_def lists_ok_def by blast+
    have "F q = Some f" if "F' q = Some f" "link f \<or> state f = Free j" for q f j
      using that tails [of q] g out [of q] by (cases "q \<in> blk p k"; cases "q = p") auto
    with lists links free show ?thesis unfolding lists_ok_def by metis
  qed
  moreover have "tails_ok F'"
  proof -
    have "st_of F' r = Some (AllocatedTail q)"
      if "Option.bind (st_of F' q) owned_order = Some j" "r \<in> blk q j" "r \<noteq> q" for q j r
    proof (cases "q = p")
      case True
      then show ?thesis using that st_p g(3) st_in [of r] by simp
    next
      case False
      then have q: "Option.bind (st_of F q) owned_order = Some j"
        using that(1) st_in [of q] st_out [of q] by (cases "q \<in> blk p k") auto
      then have "r \<notin> blk p k" by (rule hole_not_tail [OF hole _ that(2)])
      with inv q that show ?thesis unfolding st_out [OF \<open>r \<notin> blk p k\<close>] buddy_inv_def tails_ok_def by blast
    qed
    moreover have "h < q \<and> h \<in> dom F" if "st_of F' q = Some (AllocatedTail h)" for q h
    proof (cases "q \<in> blk p k")
      case True
      moreover have "q \<noteq> p" using that st_p by auto
      ultimately have "h = p" using that st_in [of q] by simp
      with True \<open>q \<noteq> p\<close> hole_dom [OF hole] show ?thesis by (auto simp: blk_def)
    next
      case False
      then show ?thesis using that inv st_out [OF False] unfolding buddy_inv_def tails_ok_def by auto
    qed
    ultimately show ?thesis unfolding tails_ok_def dom by blast
  qed
  moreover have "coalesced F'"
    using inv unfolding buddy_inv_def coalesced_def free by blast
  ultimately show ?thesis by (simp add: buddy_inv_def)
qed

section \<open>The free frames\<close>

lemma free_set_iff: "x \<in> free_set F \<longleftrightarrow> (\<exists>p k. st_of F p = Some (Free k) \<and> x \<in> blk p k)"
  by (auto simp: free_set_def)

lemma free_set_cong: "(\<And>p k. st_of F' p = Some (Free k) \<longleftrightarrow> st_of F p = Some (Free k)) \<Longrightarrow> free_set F' = free_set F"
  by (auto simp: free_set_iff set_eq_iff)

lemma free_set_subset: "buddy_inv F L \<Longrightarrow> free_set F \<subseteq> dom F"
  using inv_head(3) by (fastforce simp: free_set_iff dest: head_free)

lemma free_set_hole: "hole F p k \<Longrightarrow> free_set F \<inter> blk p k = {}"
  unfolding hole_def by (fastforce simp: free_set_iff dest: head_free)

lemma free_set_fill:
  assumes "hole F p k" and "state g = Free k"
  shows "free_set (F(p \<mapsto> g)) = free_set F \<union> blk p k"
proof -
  have "st_of F p \<noteq> Some (Free j)" for j
    using hole_not_head [OF assms(1) blk_self] by (auto simp: head_def)
  then have "x \<in> free_set (F(p \<mapsto> g)) \<longleftrightarrow> x \<in> free_set F \<or> x \<in> blk p k" for x
    unfolding free_set_iff st_of_upd assms(2) by (auto split: if_splits; metis)
  then show ?thesis by blast
qed

lemma free_set_dig:
  assumes "buddy_inv F L" and "st_of F p = Some (Free k)" and "state g = Uninitialized"
  shows "free_set (F(p \<mapsto> g)) = free_set F - blk p k" and "blk p k \<subseteq> free_set F"
proof -
  have "blk p k \<inter> blk q j = {}" if "st_of F q = Some (Free j)" "q \<noteq> p" for q j
    using inv_disjoint [OF assms(1) head_free [OF assms(2)] head_free [OF that(1)]] that(2) by auto
  then have "x \<in> free_set (F(p \<mapsto> g)) \<longleftrightarrow> x \<in> free_set F \<and> x \<notin> blk p k" for x
    unfolding free_set_iff st_of_upd assms(2,3) using assms(2) by (auto split: if_splits; fastforce)
  then show "free_set (F(p \<mapsto> g)) = free_set F - blk p k" by blast
  show "blk p k \<subseteq> free_set F" using assms(2) unfolding free_set_iff subset_iff by blast
qed

end
