(* ===== verification/Buddy_Ops.thy ===== *)
theory Buddy_Ops
  imports Buddy
begin

text \<open>
  The operations of the frame allocator keep its invariant and do to the set of free frames what
  their callers expect. \<open>table fa\<close> is the frame table read as a map.
\<close>

section \<open>The frame table\<close>

abbreviation table :: "frame_alloc \<Rightarrow> frame_map" where
  "table fa \<equiv> get_frame (frame_list fa)"

lemma table_dom: "dom (table fa) = {base_page (frame_list fa)..<base_page (frame_list fa) + total_pages (frame_list fa)}"
  by (auto simp: get_frame_def pfn_to_index_def split: if_splits)

lemma fa_state_table: "fa_state fa p = st_of (table fa) p"
  by (simp add: fa_state_def st_of_def)

lemma put_frame_Some:
  assumes "p \<in> dom (get_frame fl)"
  obtains fl' where "put_frame fl p f = Some fl'" and "get_frame fl' = (get_frame fl)(p \<mapsto> f)"
    and "base_page fl' = base_page fl" and "total_pages fl' = total_pages fl"
proof -
  have p: "p \<ge> base_page fl" "p - base_page fl < length (frames fl)"
    using assms by (auto simp: get_frame_def pfn_to_index_def total_pages_def split: if_splits)
  let ?fl = "fl\<lparr>frames := (frames fl)[p - base_page fl := f]\<rparr>"
  have "get_frame ?fl q = ((get_frame fl)(p \<mapsto> f)) q" for q
    using p by (auto simp: get_frame_def pfn_to_index_def total_pages_def nth_list_update)
  with p show ?thesis
    by (intro that [of ?fl]) (auto simp: put_frame_def pfn_to_index_def total_pages_def)
qed

definition same_shape :: "frame_alloc \<Rightarrow> frame_alloc \<Rightarrow> bool" where
  "same_shape fa fa' \<longleftrightarrow> base_page (frame_list fa') = base_page (frame_list fa) \<and>
     total_pages (frame_list fa') = total_pages (frame_list fa)"

lemma same_shape_trans: "same_shape a b \<Longrightarrow> same_shape b c \<Longrightarrow> same_shape a c"
  by (simp add: same_shape_def)

lemma set_state_Some:
  assumes "table fa p = Some f"
  obtains fa' where "set_state fa p st = Some fa'" and "table fa' = (table fa)(p \<mapsto> f\<lparr>state := st\<rparr>)"
    and "free_lists fa' = free_lists fa" and "free_pages fa' = free_pages fa" and "same_shape fa fa'"
proof -
  have "p \<in> dom (table fa)" using assms by auto
  then obtain fl where "put_frame (frame_list fa) p (f\<lparr>state := st\<rparr>) = Some fl"
    "get_frame fl = (table fa)(p \<mapsto> f\<lparr>state := st\<rparr>)"
    "base_page fl = base_page (frame_list fa)" "total_pages fl = total_pages (frame_list fa)"
    by (rule put_frame_Some)
  with assms show ?thesis
    by (intro that [of "fa\<lparr>frame_list := fl\<rparr>"]) (auto simp: set_state_def same_shape_def)
qed

lemma set_link_Some:
  assumes "table fa p = Some f"
  obtains fa' where "set_link fa p b = Some fa'" and "table fa' = (table fa)(p \<mapsto> f\<lparr>link := b\<rparr>)"
    and "free_lists fa' = free_lists fa" and "free_pages fa' = free_pages fa" and "same_shape fa fa'"
proof -
  have "p \<in> dom (table fa)" using assms by auto
  then obtain fl where "put_frame (frame_list fa) p (f\<lparr>link := b\<rparr>) = Some fl"
    "get_frame fl = (table fa)(p \<mapsto> f\<lparr>link := b\<rparr>)"
    "base_page fl = base_page (frame_list fa)" "total_pages fl = total_pages (frame_list fa)"
    by (rule put_frame_Some)
  with assms show ?thesis
    by (intro that [of "fa\<lparr>frame_list := fl\<rparr>"]) (auto simp: set_link_def same_shape_def)
qed

abbreviation fa_ok :: "frame_alloc \<Rightarrow> bool" where
  "fa_ok fa \<equiv> buddy_inv (table fa) (free_lists fa)"

text \<open>Marking a hole as a free block and putting it on its list.\<close>

lemma free_hole:
  assumes inv: "fa_ok fa" and hole: "hole (table fa) p k"
    and buddy: "k < MAX_ORDER \<longrightarrow> st_of (table fa) (pf_buddy p k) \<noteq> Some (Free k)"
  obtains fa1 fa' f where "set_state fa p (Free k) = Some fa1" and "add_to_free_list fa1 p k = Some fa'"
    and "table fa' = (table fa)(p \<mapsto> f)" and "state f = Free k" and "fa_ok fa'"
    and "free_set (table fa') = free_set (table fa) \<union> blk p k"
    and "free_pages fa' = free_pages fa" and "same_shape fa fa'"
proof -
  obtain f where f: "table fa p = Some f" "\<not> link f"
    using hole_unlinked [OF inv hole blk_self] by blast
  obtain fa1 where fa1: "set_state fa p (Free k) = Some fa1"
    "table fa1 = (table fa)(p \<mapsto> f\<lparr>state := Free k\<rparr>)" "free_lists fa1 = free_lists fa"
    "free_pages fa1 = free_pages fa" "same_shape fa fa1"
    using set_state_Some [OF f(1)] by metis
  obtain fa2 where fa2: "set_link fa1 p True = Some fa2"
    "table fa2 = (table fa)(p \<mapsto> f\<lparr>state := Free k, link := True\<rparr>)" "free_lists fa2 = free_lists fa1"
    "free_pages fa2 = free_pages fa1" "same_shape fa1 fa2"
    using set_link_Some [of fa1 p "f\<lparr>state := Free k\<rparr>" True] fa1(2) by (metis fun_upd_same fun_upd_upd)
  let ?fa = "fa2\<lparr>free_lists := (free_lists fa2)(k := p # free_lists fa2 k)\<rparr>"
  have k: "k \<le> MAX_ORDER" using hole by (simp add: hole_def)
  have "is_linked fa1 p = Some False" using fa1(2) f(2) by (simp add: is_linked_def)
  then have add: "add_to_free_list fa1 p k = Some ?fa" using fa2(1) k by (simp add: add_to_free_list_def)
  have "fa_ok ?fa"
    using fill_free [OF inv hole buddy, of "f\<lparr>state := Free k, link := True\<rparr>"] fa1(3) fa2(2,3) by simp
  then show ?thesis
    using that [OF fa1(1) add] fa1 fa2 free_set_fill [OF hole, of "f\<lparr>state := Free k, link := True\<rparr>"]
    by (auto simp: same_shape_def)
qed

lemma remove_from_free_list_Some:
  assumes inv: "fa_ok fa" and p: "st_of (table fa) p = Some (Free k)"
  obtains fa' f where "remove_from_free_list fa p k = Some fa'" and "fa_ok fa'" and "hole (table fa') p k"
    and "table fa' = (table fa)(p \<mapsto> f)" and "state f = Uninitialized"
    and "free_pages fa' = free_pages fa" and "same_shape fa fa'"
proof -
  obtain f where f: "table fa p = Some f" "state f = Free k" using p by (auto simp: st_of_def)
  have k: "k \<le> MAX_ORDER" using inv_head(1) [OF inv head_free [OF p]] .
  have mem: "p \<in> set (free_lists fa k)" using inv p by (simp add: buddy_inv_def lists_ok_def)
  let ?fa = "fa\<lparr>free_lists := (free_lists fa)(k := remove1 p (free_lists fa k))\<rparr>"
  obtain fa1 where fa1: "set_link ?fa p False = Some fa1" "table fa1 = (table fa)(p \<mapsto> f\<lparr>link := False\<rparr>)"
    "free_lists fa1 = free_lists ?fa" "free_pages fa1 = free_pages fa" "same_shape ?fa fa1"
    using set_link_Some [of ?fa p f False] f(1) by auto
  obtain fa2 where fa2: "set_state fa1 p Uninitialized = Some fa2"
    "table fa2 = (table fa)(p \<mapsto> f\<lparr>link := False, state := Uninitialized\<rparr>)"
    "free_lists fa2 = free_lists fa1" "free_pages fa2 = free_pages fa1" "same_shape fa1 fa2"
    using set_state_Some [of fa1 p "f\<lparr>link := False\<rparr>" Uninitialized] fa1(2) by (metis fun_upd_same fun_upd_upd)
  have "remove_from_free_list fa p k = Some fa2"
    using k mem fa1(1) fa2(1) by (simp add: remove_from_free_list_def)
  moreover have "f\<lparr>link := False, state := Uninitialized\<rparr> = f\<lparr>state := Uninitialized, link := False\<rparr>" by simp
  with fa2(2) have "table fa2 = (table fa)(p \<mapsto> f\<lparr>state := Uninitialized, link := False\<rparr>)"
    by (simp only:)
  ultimately show ?thesis
    using that [of fa2 "f\<lparr>state := Uninitialized, link := False\<rparr>"] dig_free [OF inv f] fa1(3-5) fa2(3-5)
    by (simp add: same_shape_def)
qed

section \<open>Freeing\<close>

lemma merge_buddies_spec:
  assumes "fa_ok fa" and "hole (table fa) p k"
  shows "\<exists>fa' p' k'. merge_buddies fa p k = Some (fa', p', k') \<and> fa_ok fa' \<and> hole (table fa') p' k' \<and>
    (k' < MAX_ORDER \<longrightarrow> st_of (table fa') (pf_buddy p' k') \<noteq> Some (Free k')) \<and>
    blk p k \<subseteq> blk p' k' \<and> free_set (table fa') \<union> blk p' k' = free_set (table fa) \<union> blk p k \<and>
    (\<forall>q. q \<notin> blk p' k' \<longrightarrow> table fa' q = table fa q) \<and>
    free_pages fa' = free_pages fa \<and> same_shape fa fa'"
  using assms
proof (induction fa p k rule: merge_buddies.induct)
  case (1 fa p k)
  note inv = "1.prems"(1) and hole = "1.prems"(2)
  let ?b = "pf_buddy p k"
  show ?case
  proof (cases "k < MAX_ORDER \<and> st_of (table fa) ?b = Some (Free k)")
    case False
    then have "merge_buddies fa p k = Some (fa, p, k)"
      by (subst merge_buddies.simps) (auto simp: Let_def fa_state_table)
    then show ?thesis using False inv hole by (auto simp: same_shape_def)
  next
    case True
    then have "?b \<in> dom (table fa)" by (auto simp: st_of_def)
    then have range: "\<not> (?b < base_page (frame_list fa) \<or>
        ?b \<ge> base_page (frame_list fa) + total_pages (frame_list fa))"
      unfolding table_dom by auto
    obtain fa1 f where fa1: "remove_from_free_list fa ?b k = Some fa1" "fa_ok fa1"
      "hole (table fa1) ?b k" "table fa1 = (table fa)(?b \<mapsto> f)" "state f = Uninitialized"
      "free_pages fa1 = free_pages fa" "same_shape fa fa1"
      using remove_from_free_list_Some [OF inv] True by blast
    have p: "2 ^ k dvd p" using hole by (simp add: hole_def)
    note join = buddy_join [OF p]
    have "hole (table fa1) p k"
      unfolding fa1(4) by (rule clear_hole [OF hole fa1(5)]) fact
    then have hole1: "hole (table fa1) (min p ?b) (Suc k)"
      using hole_join fa1(3) True by blast
    have "\<not> k \<ge> MAX_ORDER" "fa_state fa ?b = Some (Free k)"
      using True by (simp_all add: fa_state_table)
    from "1.IH" [OF this(1) refl range this(2) fa1(1,2) hole1]
    obtain fa' p' k' where IH: "merge_buddies fa1 (min p ?b) (Suc k) = Some (fa', p', k')" "fa_ok fa'"
      "hole (table fa') p' k'" "k' < MAX_ORDER \<longrightarrow> st_of (table fa') (pf_buddy p' k') \<noteq> Some (Free k')"
      "blk (min p ?b) (Suc k) \<subseteq> blk p' k'"
      "free_set (table fa') \<union> blk p' k' = free_set (table fa1) \<union> blk (min p ?b) (Suc k)"
      "\<forall>q. q \<notin> blk p' k' \<longrightarrow> table fa' q = table fa1 q"
      "free_pages fa' = free_pages fa1" "same_shape fa1 fa'" by blast
    have "merge_buddies fa p k = Some (fa', p', k')"
      using IH(1) range True fa1(1)
      by (subst merge_buddies.simps) (simp add: Let_def fa_state_table)
    moreover have "free_set (table fa1) = free_set (table fa) - blk ?b k" "blk ?b k \<subseteq> free_set (table fa)"
      unfolding fa1(4) using free_set_dig [OF inv _ fa1(5)] True by blast+
    then have "free_set (table fa1) \<union> blk (min p ?b) (Suc k) = free_set (table fa) \<union> blk p k"
      unfolding join(4) by blast
    moreover have "blk p k \<subseteq> blk p' k'" using IH(5) join(4) by blast
    moreover have "?b \<in> blk p' k'" using IH(5) join(4) blk_self [of ?b k] by blast
    then have "\<forall>q. q \<notin> blk p' k' \<longrightarrow> table fa' q = table fa q"
      using IH(7) fa1(4) by auto
    ultimately show ?thesis
      using IH(2,3,4,6,8) fa1(6) same_shape_trans [OF fa1(7) IH(9)]
      by (intro exI [of _ fa'] exI [of _ p'] exI [of _ k']) simp
  qed
qed

text \<open>The number of free frames is the size of the free set.\<close>

definition count_ok :: "frame_alloc \<Rightarrow> bool" where
  "count_ok fa \<longleftrightarrow> unat (free_pages fa) = card (free_set (table fa)) \<and>
     base_page (frame_list fa) + total_pages (frame_list fa) \<le> 2 ^ 52"

definition fa_inv :: "frame_alloc \<Rightarrow> bool" where
  "fa_inv fa \<longleftrightarrow> fa_ok fa \<and> count_ok fa"

lemma finite_free_set: "fa_ok fa \<Longrightarrow> finite (free_set (table fa))"
  by (rule finite_subset [OF free_set_subset]) (simp_all add: table_dom)

lemma card_free_set: "fa_ok fa \<Longrightarrow> card (free_set (table fa)) \<le> total_pages (frame_list fa)"
  using card_mono [OF _ free_set_subset, of "table fa" "free_lists fa"] by (simp add: table_dom)

lemma unat_order: "k \<le> MAX_ORDER \<Longrightarrow> unat (push_bit k 1 :: usize) = 2 ^ k"
  by (simp add: MAX_ORDER_def unat_exp_usize)

lemma free_frames_spec:
  assumes inv: "fa_inv fa" and head: "table fa (unat (to_pfn (start_address rgn))) = Some f"
    "state f = AllocatedHead info" and last: "ref_count info \<le> 1"
  defines "p \<equiv> unat (to_pfn (start_address rgn))"
  shows "\<exists>fa'. free_frames fa rgn = Some fa' \<and> fa_inv fa' \<and>
    free_set (table fa') = free_set (table fa) \<union> blk p (order info) \<and>
    blk p (order info) \<inter> free_set (table fa) = {} \<and>
    (\<forall>q. q \<notin> free_set (table fa') \<longrightarrow> table fa' q = table fa q) \<and> same_shape fa fa'"
proof -
  have ok: "fa_ok fa" and cnt: "count_ok fa" using inv by (simp_all add: fa_inv_def)
  have f: "table fa p = Some f" using head(1) by (simp add: p_def)
  obtain fa1 where fa1: "set_state fa p Uninitialized = Some fa1"
    "table fa1 = (table fa)(p \<mapsto> f\<lparr>state := Uninitialized\<rparr>)" "free_lists fa1 = free_lists fa"
    "free_pages fa1 = free_pages fa" "same_shape fa fa1"
    using set_state_Some [OF f] by metis
  have ok1: "fa_ok fa1" "hole (table fa1) p (order info)"
    using dig_owned [OF ok f head(2)] fa1(2,3) by simp_all
  have free1: "free_set (table fa1) = free_set (table fa)"
    unfolding fa1(2) using f head(2) by (intro free_set_cong) (auto simp: st_of_def)
  obtain fa2 p' k' where m: "merge_buddies fa1 p (order info) = Some (fa2, p', k')" "fa_ok fa2"
    "hole (table fa2) p' k'" "k' < MAX_ORDER \<longrightarrow> st_of (table fa2) (pf_buddy p' k') \<noteq> Some (Free k')"
    "blk p (order info) \<subseteq> blk p' k'"
    "free_set (table fa2) \<union> blk p' k' = free_set (table fa1) \<union> blk p (order info)"
    "\<forall>q. q \<notin> blk p' k' \<longrightarrow> table fa2 q = table fa1 q" "free_pages fa2 = free_pages fa1" "same_shape fa1 fa2"
    using merge_buddies_spec [OF ok1] by blast
  obtain fa3 fa4 f' where r: "set_state fa2 p' (Free k') = Some fa3" "add_to_free_list fa3 p' k' = Some fa4"
    "table fa4 = (table fa2)(p' \<mapsto> f')" "fa_ok fa4"
    "free_set (table fa4) = free_set (table fa2) \<union> blk p' k'" "free_pages fa4 = free_pages fa2"
    "same_shape fa2 fa4"
    using free_hole [OF m(2,3,4)] by metis
  let ?fa = "fa4\<lparr>free_pages := free_pages fa4 + push_bit (order info) 1\<rparr>"
  have "\<not> ref_count info > 1" using last by simp
  then have "free_frames fa rgn = Some ?fa"
    using fa1(1) m(1) r(1,2) f head(2)
    by (simp add: free_frames_def Let_def fa_state_def flip: p_def)
  moreover have free: "free_set (table fa4) = free_set (table fa) \<union> blk p (order info)"
    using r(5) m(6) free1 by simp
  moreover have disj: "blk p (order info) \<inter> free_set (table fa) = {}"
    using free_set_hole [OF ok1(2)] free1 by auto
  moreover have "table fa4 q = table fa q" if "q \<notin> free_set (table fa4)" for q
  proof -
    have "q \<notin> blk p' k'" using that r(5) by blast
    moreover from this have "q \<noteq> p" "q \<noteq> p'" using m(5) blk_self [of p "order info"] blk_self [of p' k'] by blast+
    ultimately show ?thesis using m(7) fa1(2) r(3) by simp
  qed
  moreover have shape: "same_shape fa fa4" using fa1(5) m(9) r(7) by (simp add: same_shape_def)
  moreover have "count_ok ?fa"
  proof -
    have card: "card (free_set (table fa4)) = card (free_set (table fa)) + 2 ^ order info"
      using disj finite_free_set [OF ok] unfolding free by (subst card_Un_disjoint) auto
    have "order info \<le> MAX_ORDER" using ok1(2) by (simp add: hole_def)
    moreover have "card (free_set (table fa4)) \<le> 2 ^ 52"
      using card_free_set [OF r(4)] cnt shape by (simp add: same_shape_def count_ok_def)
    ultimately have "unat (free_pages fa4 + push_bit (order info) 1) = card (free_set (table fa4))"
      using cnt card unat_order fa1(4) m(8) r(6) by (subst unat_add_usize) (simp_all add: count_ok_def)
    then show ?thesis using cnt shape by (simp add: count_ok_def same_shape_def)
  qed
  ultimately show ?thesis using r(4) by (intro exI [of _ ?fa]) (simp add: fa_inv_def same_shape_def)
qed

section \<open>Allocating\<close>

lemma split_block_spec:
  assumes "fa_ok fa" and "hole (table fa) p k" and "r \<le> k"
  shows "\<exists>fa'. split_block fa p r k = Some fa' \<and> fa_ok fa' \<and> hole (table fa') p r \<and>
    free_set (table fa') = free_set (table fa) \<union> (blk p k - blk p r) \<and>
    (\<forall>q. q \<notin> blk p k \<longrightarrow> table fa' q = table fa q) \<and> free_pages fa' = free_pages fa \<and> same_shape fa fa'"
  using assms
proof (induction k arbitrary: fa)
  case 0
  then show ?case by (auto simp: same_shape_def)
next
  case (Suc k)
  note inv = Suc.prems(1) and hole = Suc.prems(2)
  show ?case
  proof (cases "r = Suc k")
    case True
    then show ?thesis using Suc.prems by (auto simp: same_shape_def)
  next
    case False
    then have r: "r \<le> k" "r < Suc k" using Suc.prems(3) by simp_all
    note halves = hole_split [OF hole]
    have b: "pf_buddy p k = p + 2 ^ k" using pf_buddy_even [OF halves(3)] .
    have "pf_buddy (p + 2 ^ k) k = p" using pf_buddy_twice [of p k] b by simp
    then have nb: "k < MAX_ORDER \<longrightarrow> st_of (table fa) (pf_buddy (p + 2 ^ k) k) \<noteq> Some (Free k)"
      using hole_not_head [OF halves(1) blk_self] by (auto simp: head_def)
    obtain fa1 fa2 f where fa2: "set_state fa (p + 2 ^ k) (Free k) = Some fa1"
      "add_to_free_list fa1 (p + 2 ^ k) k = Some fa2" "table fa2 = (table fa)(p + 2 ^ k \<mapsto> f)"
      "state f = Free k" "fa_ok fa2" "free_set (table fa2) = free_set (table fa) \<union> blk (p + 2 ^ k) k"
      "free_pages fa2 = free_pages fa" "same_shape fa fa2"
      using free_hole [OF inv halves(2) nb] by metis
    have "blk (p + 2 ^ k) k \<inter> blk p k = {}" using blk_halves [of p k] by blast
    then have "hole (table fa2) p k"
      unfolding fa2(3) using fill_other_hole [OF halves(1,2) _ fa2(4)] by blast
    from Suc.IH [OF fa2(5) this r(1)] obtain fa' where IH: "split_block fa2 p r k = Some fa'" "fa_ok fa'"
      "hole (table fa') p r" "free_set (table fa') = free_set (table fa2) \<union> (blk p k - blk p r)"
      "\<forall>q. q \<notin> blk p k \<longrightarrow> table fa' q = table fa2 q" "free_pages fa' = free_pages fa2" "same_shape fa2 fa'"
      by blast
    have "split_block fa p r (Suc k) = Some fa'"
      using IH(1) fa2(1,2) r(2) b by simp
    moreover have "blk p r \<subseteq> blk p k"
      using r(1) power_increasing [of r k "2 :: nat"] by (auto simp: blk_def)
    then have "free_set (table fa') = free_set (table fa) \<union> (blk p (Suc k) - blk p r)"
      unfolding IH(4) fa2(6) blk_Suc using blk_halves [of p k] by blast
    moreover have "table fa' q = table fa q" if "q \<notin> blk p (Suc k)" for q
    proof -
      have "q \<notin> blk p k" "q \<noteq> p + 2 ^ k"
        using that blk_self [of "p + 2 ^ k" k] unfolding blk_Suc by blast+
      then show ?thesis using IH(5) fa2(3) by simp
    qed
    ultimately show ?thesis
      using IH(2,3,6) fa2(7) same_shape_trans [OF fa2(8) IH(7)] by (intro exI [of _ fa']) simp
  qed
qed

lemma set_tails_spec:
  assumes "\<forall>i \<in> set is. p + i \<in> dom (table fa)" and "distinct is"
  shows "\<exists>fa'. set_tails fa p is = Some fa' \<and> free_lists fa' = free_lists fa \<and>
    free_pages fa' = free_pages fa \<and> same_shape fa fa' \<and>
    (\<forall>i \<in> set is. \<exists>f. table fa (p + i) = Some f \<and> table fa' (p + i) = Some (f\<lparr>state := AllocatedTail p\<rparr>)) \<and>
    (\<forall>q. q \<notin> (+) p ` set is \<longrightarrow> table fa' q = table fa q)"
  using assms
proof (induction "is" arbitrary: fa)
  case Nil
  then show ?case by (simp add: same_shape_def)
next
  case (Cons i "is")
  obtain f where f: "table fa (p + i) = Some f" using Cons.prems by auto
  obtain fa1 where fa1: "set_state fa (p + i) (AllocatedTail p) = Some fa1"
    "table fa1 = (table fa)(p + i \<mapsto> f\<lparr>state := AllocatedTail p\<rparr>)" "free_lists fa1 = free_lists fa"
    "free_pages fa1 = free_pages fa" "same_shape fa fa1"
    using set_state_Some [OF f] by metis
  have "\<forall>i \<in> set is. p + i \<in> dom (table fa1)" using Cons.prems(1) by (auto simp: fa1(2))
  from Cons.IH [OF this] Cons.prems(2) obtain fa' where IH: "set_tails fa1 p is = Some fa'"
    "free_lists fa' = free_lists fa1" "free_pages fa' = free_pages fa1" "same_shape fa1 fa'"
    "\<forall>i \<in> set is. \<exists>f. table fa1 (p + i) = Some f \<and> table fa' (p + i) = Some (f\<lparr>state := AllocatedTail p\<rparr>)"
    "\<forall>q. q \<notin> (+) p ` set is \<longrightarrow> table fa' q = table fa1 q" by auto
  have "p + i \<notin> (+) p ` set is" using Cons.prems(2) by auto
  then have "table fa' (p + i) = Some (f\<lparr>state := AllocatedTail p\<rparr>)"
    using IH(6) fa1(2) by simp
  moreover have "\<exists>f. table fa (p + j) = Some f \<and> table fa' (p + j) = Some (f\<lparr>state := AllocatedTail p\<rparr>)"
    if "j \<in> set is" for j
    using IH(5) that Cons.prems(2) fa1(2) by (metis add_left_cancel distinct.simps(2) fun_upd_other)
  moreover have "table fa' q = table fa q" if "q \<notin> (+) p ` set (i # is)" for q
    using IH(6) that fa1(2) by auto
  ultimately show ?case
    using fa1 IH(1-4) f same_shape_trans [OF fa1(5) IH(4)] by (intro exI [of _ fa']) auto
qed

lemma pop_front_spec:
  assumes inv: "fa_ok fa" and L: "free_lists fa k = p # rest"
  obtains fa1 fa2 where "pop_front fa k = Some (p, fa1)" and "set_state fa1 p Uninitialized = Some fa2"
    and "fa_ok fa2" and "hole (table fa2) p k"
    and "free_set (table fa2) = free_set (table fa) - blk p k" and "blk p k \<subseteq> free_set (table fa)"
    and "\<And>q. q \<noteq> p \<Longrightarrow> table fa2 q = table fa q"
    and "free_pages fa2 = free_pages fa" and "same_shape fa fa2"
proof -
  have p: "st_of (table fa) p = Some (Free k)"
    using inv L by (simp add: buddy_inv_def lists_ok_def) (metis list.set_intros(1))
  then obtain f where f: "table fa p = Some f" "state f = Free k" by (auto simp: st_of_def)
  let ?fa = "fa\<lparr>free_lists := (free_lists fa)(k := rest)\<rparr>"
  obtain fa1 where fa1: "set_link ?fa p False = Some fa1" "table fa1 = (table fa)(p \<mapsto> f\<lparr>link := False\<rparr>)"
    "free_lists fa1 = free_lists ?fa" "free_pages fa1 = free_pages fa" "same_shape ?fa fa1"
    using set_link_Some [of ?fa p f False] f(1) by auto
  obtain fa2 where fa2: "set_state fa1 p Uninitialized = Some fa2"
    "table fa2 = (table fa)(p \<mapsto> f\<lparr>link := False, state := Uninitialized\<rparr>)"
    "free_lists fa2 = free_lists fa1" "free_pages fa2 = free_pages fa1" "same_shape fa1 fa2"
    using set_state_Some [of fa1 p "f\<lparr>link := False\<rparr>" Uninitialized] fa1(2) by (metis fun_upd_same fun_upd_upd)
  have "f\<lparr>link := False, state := Uninitialized\<rparr> = f\<lparr>state := Uninitialized, link := False\<rparr>" by simp
  with fa2(2) have t: "table fa2 = (table fa)(p \<mapsto> f\<lparr>state := Uninitialized, link := False\<rparr>)"
    by (simp only:)
  note free = free_set_dig [OF inv p, of "f\<lparr>state := Uninitialized, link := False\<rparr>", folded t]
  have "fa_ok fa2" "hole (table fa2) p k"
    using dig_free [OF inv f] t fa1(3) fa2(3) L by simp_all
  moreover have "pop_front fa k = Some (p, fa1)" using L fa1(1) by (simp add: pop_front_def)
  ultimately show ?thesis
    using that fa2(1,4,5) fa1(4,5) free t by (simp add: same_shape_def)
qed

text \<open>
  Thanks to merging, an aligned run of free frames lies in one free block: a run made of smaller
  blocks would have two free buddies among the smallest of them.
\<close>

lemma free_run_in_block:
  assumes inv: "buddy_inv F L" and p: "2 ^ r dvd p" "r \<le> MAX_ORDER" "blk p r \<subseteq> free_set F"
  shows "\<exists>q k. r \<le> k \<and> k \<le> MAX_ORDER \<and> st_of F q = Some (Free k)"
proof (rule ccontr)
  assume no: "\<not> ?thesis"
  let ?meets = "\<lambda>j. \<exists>q. st_of F q = Some (Free j) \<and> blk q j \<inter> blk p r \<noteq> {}"
  have "\<exists>j. ?meets j" using p(3) blk_self [of p r] by (fastforce simp: free_set_iff)
  then obtain j where "?meets j" and least: "\<And>i. ?meets i \<Longrightarrow> j \<le> i"
    using LeastI_ex [of ?meets] Least_le [of ?meets] by blast
  then obtain q where q: "st_of F q = Some (Free j)" "blk q j \<inter> blk p r \<noteq> {}" by blast
  have aligned: "2 ^ j dvd q" "j \<le> MAX_ORDER" using inv_head [OF inv head_free [OF q(1)]] by simp_all
  then have j: "j < r" using no q(1) by (meson not_le)
  let ?b = "pf_buddy q j"
  note join = buddy_join [OF aligned(1)]
  have "blk (min q ?b) (Suc j) \<subseteq> blk p r"
    using aligned_blk_nested [OF join(1) p(1)] j q(2) unfolding join(4) by auto
  then have b: "?b \<in> blk p r" unfolding join(4) using blk_self [of ?b j] by blast
  with p(3) have "?b \<in> free_set F" by blast
  then obtain c i where c: "st_of F c = Some (Free i)" "?b \<in> blk c i"
    unfolding free_set_iff by blast
  then have i: "j \<le> i" "2 ^ i dvd c" using least b inv_head(2) [OF inv head_free] by blast+
  have bc: "blk ?b j \<inter> blk c i \<noteq> {}" using c(2) blk_self [of ?b j] by blast
  show False
  proof (cases "i = j")
    case True
    then have "blk ?b j \<subseteq> blk c j" "blk c j \<subseteq> blk ?b j"
      using aligned_blk_nested [OF join(2) i(2)] aligned_blk_nested [OF i(2) join(2)] bc by auto
    then have "c = ?b" using blk_self [of ?b j] blk_self [of c j] by (auto simp: blk_def)
    with c(1) True q(1) inv j p(2) show False by (auto simp: buddy_inv_def coalesced_def)
  next
    case False
    then have "blk (min q ?b) (Suc j) \<subseteq> blk c i"
      using aligned_blk_nested [OF join(1) i(2)] i(1) bc unfolding join(4) by auto
    then have "q \<in> blk c i" unfolding join(4) using blk_self [of q j] by blast
    then have "blk q j \<inter> blk c i \<noteq> {}" using blk_self [of q j] by blast
    then have "q = c" using inv_disjoint [OF inv head_free [OF q(1)] head_free [OF c(1)]] by blast
    with q(1) c(1) False show False by simp
  qed
qed

lemma find_free_order:
  assumes inv: "fa_ok fa"
  shows "find (\<lambda>k. free_lists fa k \<noteq> []) [r..<Suc MAX_ORDER] = None \<longleftrightarrow>
    (\<forall>q k. r \<le> k \<longrightarrow> st_of (table fa) q \<noteq> Some (Free k))"
proof -
  have "\<forall>q. q \<in> set (free_lists fa k) \<longleftrightarrow> st_of (table fa) q = Some (Free k)" for k
    using inv unfolding buddy_inv_def lists_ok_def by blast
  then have "free_lists fa k \<noteq> [] \<longleftrightarrow> (\<exists>q. st_of (table fa) q = Some (Free k))" for k
    by (metis empty_iff list.set(1) list.set_intros(1) neq_Nil_conv)
  moreover have "k \<le> MAX_ORDER" if "st_of (table fa) q = Some (Free k)" for q k
    using inv_head(1) [OF inv head_free [OF that]] .
  ultimately show ?thesis
    unfolding find_None_iff by (simp only: set_upt atLeastLessThan_iff less_Suc_eq_le) blast
qed

lemma alloc_frames_none:
  assumes inv: "fa_ok fa" and r: "r \<le> MAX_ORDER"
    and none: "\<not> (\<exists>p. 2 ^ r dvd p \<and> blk p r \<subseteq> free_set (table fa))"
  shows "alloc_frames fa r = Some (Inl NoMemory, fa)"
proof -
  have "st_of (table fa) q \<noteq> Some (Free k)" if "r \<le> k" for q k
  proof
    assume free: "st_of (table fa) q = Some (Free k)"
    have "2 ^ r dvd q"
      using inv_head(2) [OF inv head_free [OF free]] le_imp_power_dvd [OF that, of 2] by (rule dvd_trans [rotated])
    moreover have "blk q r \<subseteq> blk q k" using power_increasing [OF that, of "2 :: nat"] by (auto simp: blk_def)
    then have "blk q r \<subseteq> free_set (table fa)"
      using free by (fastforce simp: free_set_iff)
    ultimately show False using none by blast
  qed
  then have "find (\<lambda>k. free_lists fa k \<noteq> []) [r..<Suc MAX_ORDER] = None"
    using find_free_order [OF inv] by blast
  with r show ?thesis by (simp add: alloc_frames_def)
qed

lemma alloc_frames_some:
  assumes inv: "fa_inv fa" and r: "r \<le> MAX_ORDER"
    and k: "find (\<lambda>k. free_lists fa k \<noteq> []) [r..<Suc MAX_ORDER] = Some k"
  shows
    "\<exists>p fa'. alloc_frames fa r =
        Some (Inr (rnew (pfn_pa (of_nat p)) (push_bit PAGE_SHIFT (push_bit r 1))), fa') \<and>
      fa_inv fa' \<and> 2 ^ r dvd p \<and> blk p r \<subseteq> free_set (table fa) \<and>
      free_set (table fa') = free_set (table fa) - blk p r \<and>
      st_of (table fa') p = Some (AllocatedHead \<lparr>ref_count = 1, order = r\<rparr>) \<and>
      (\<forall>q. q \<notin> free_set (table fa) \<longrightarrow> table fa' q = table fa q) \<and> same_shape fa fa'"
proof -
  have ok: "fa_ok fa" and cnt: "count_ok fa" using inv by (simp_all add: fa_inv_def)
  have "r \<le> k" "free_lists fa k \<noteq> []" using find_SomeD [OF k] by auto
  then obtain p rest where L: "free_lists fa k = p # rest" by (cases "free_lists fa k") auto
  obtain fa1 fa2 where pop: "pop_front fa k = Some (p, fa1)" "set_state fa1 p Uninitialized = Some fa2"
    "fa_ok fa2" "hole (table fa2) p k" "free_set (table fa2) = free_set (table fa) - blk p k"
    "blk p k \<subseteq> free_set (table fa)" "\<And>q. q \<noteq> p \<Longrightarrow> table fa2 q = table fa q"
    "free_pages fa2 = free_pages fa" "same_shape fa fa2"
    using pop_front_spec [OF ok L] by blast
  obtain fa3 where sp: "split_block fa2 p r k = Some fa3" "fa_ok fa3" "hole (table fa3) p r"
    "free_set (table fa3) = free_set (table fa2) \<union> (blk p k - blk p r)"
    "\<forall>q. q \<notin> blk p k \<longrightarrow> table fa3 q = table fa2 q" "free_pages fa3 = free_pages fa2" "same_shape fa2 fa3"
    using split_block_spec [OF pop(3,4) \<open>r \<le> k\<close>] by blast
  obtain f where f: "table fa3 p = Some f" "\<not> link f" using hole_unlinked [OF sp(2,3) blk_self] by blast
  let ?st = "AllocatedHead \<lparr>ref_count = 1, order = r\<rparr>"
  obtain fa4 where fa4: "set_state fa3 p ?st = Some fa4" "table fa4 = (table fa3)(p \<mapsto> f\<lparr>state := ?st\<rparr>)"
    "free_lists fa4 = free_lists fa3" "free_pages fa4 = free_pages fa3" "same_shape fa3 fa4"
    using set_state_Some [OF f(1)] by metis
  have blk: "blk p r = (+) p ` {0..<2 ^ r}" by (simp add: blk_def image_add_atLeastLessThan add.commute)
  have "p + i \<in> dom (table fa4)" if "i \<in> set [1..<2 ^ r]" for i
  proof -
    have "p + i \<in> blk p r" using that by (simp add: blk_def)
    then have "p + i \<in> dom (table fa3)" using sp(3) unfolding hole_def by blast
    then show ?thesis by (auto simp: fa4(2))
  qed
  then obtain fa5 where fa5: "set_tails fa4 p [1..<2 ^ r] = Some fa5" "free_lists fa5 = free_lists fa4"
    "free_pages fa5 = free_pages fa4" "same_shape fa4 fa5"
    "\<forall>i \<in> set [1..<2 ^ r]. \<exists>f. table fa4 (p + i) = Some f \<and> table fa5 (p + i) = Some (f\<lparr>state := AllocatedTail p\<rparr>)"
    "\<forall>q. q \<notin> (+) p ` set [1..<2 ^ r] \<longrightarrow> table fa5 q = table fa4 q"
    using set_tails_spec [of "[1..<2 ^ r]" p fa4] by auto
  have head: "table fa5 p = Some (f\<lparr>state := ?st\<rparr>)" using fa5(6) fa4(2) by auto
  have tails: "\<exists>g. table fa5 q = Some g \<and> state g = AllocatedTail p \<and> \<not> link g"
    if q: "q \<in> blk p r" "q \<noteq> p" for q
  proof -
    obtain i where i: "q = p + i" "i \<in> set [1..<2 ^ r]"
      using q by (intro that [of "q - p"]) (auto simp: blk_def)
    obtain g where g: "table fa3 q = Some g" "\<not> link g" using hole_unlinked [OF sp(2,3) q(1)] by blast
    then have "table fa4 q = Some g" using fa4(2) q(2) by simp
    moreover obtain h where "table fa4 (p + i) = Some h" "table fa5 (p + i) = Some (h\<lparr>state := AllocatedTail p\<rparr>)"
      using fa5(5) i(2) by blast
    ultimately show ?thesis using i(1) g(2) by simp
  qed
  have out: "table fa5 q = table fa3 q" if "q \<notin> blk p r" for q
  proof -
    have "q \<notin> (+) p ` set [1..<2 ^ r]" "q \<noteq> p" using that by (auto simp: blk)
    then show ?thesis using fa5(6) fa4(2) by simp
  qed
  have ok5: "fa_ok fa5"
    using fill_alloc [OF sp(2,3) head _ _ _ tails out, of "\<lparr>ref_count = 1, order = r\<rparr>"] f(2) fa4(3) fa5(2)
    by simp
  have "st_of (table fa5) q = Some (Free j) \<longleftrightarrow> st_of (table fa3) q = Some (Free j)" for q j
    using out [of q] tails [of q] head hole_not_head [OF sp(3), of q]
    by (cases "q \<in> blk p r"; cases "q = p") (auto simp: st_of_def head_def)
  then have "free_set (table fa5) = free_set (table fa3)" by (rule free_set_cong)
  moreover have "blk p r \<subseteq> blk p k" using power_increasing [OF \<open>r \<le> k\<close>, of "2 :: nat"] by (auto simp: blk_def)
  ultimately have free: "free_set (table fa5) = free_set (table fa) - blk p r" "blk p r \<subseteq> free_set (table fa)"
    using sp(4) pop(5,6) by blast+
  let ?fa = "fa5\<lparr>free_pages := free_pages fa5 - push_bit r 1\<rparr>"
  have "alloc_frames fa r = Some (Inr (rnew (pfn_pa (of_nat p)) (push_bit PAGE_SHIFT (push_bit r 1))), ?fa)"
    using r k pop(1,2) sp(1) fa4(1) fa5(1) by (simp add: alloc_frames_def)
  moreover have shape: "same_shape fa ?fa"
    using pop(9) sp(7) fa4(5) fa5(4) by (simp add: same_shape_def)
  moreover have "count_ok ?fa"
  proof -
    have "2 ^ r \<le> card (free_set (table fa))" using card_mono [OF finite_free_set [OF ok] free(2)] by simp
    moreover have "card (free_set (table fa5)) = card (free_set (table fa)) - 2 ^ r"
      using free card_Diff_subset [of "blk p r"] by simp
    ultimately have "unat (free_pages fa5 - push_bit r 1) = card (free_set (table fa5))"
      using cnt pop(8) sp(6) fa4(4) fa5(3) unat_order [OF r] by (subst unat_sub_usize) (simp_all add: count_ok_def)
    then show ?thesis using cnt shape by (simp add: count_ok_def same_shape_def)
  qed
  moreover have "table fa5 q = table fa q" if "q \<notin> free_set (table fa)" for q
    using that out [of q] sp(5) pop(6,7) \<open>blk p r \<subseteq> blk p k\<close> blk_self [of p k] by (metis subsetD)
  moreover have "2 ^ r dvd p" using sp(3) by (simp add: hole_def)
  ultimately show ?thesis
    using ok5 free head by (intro exI [of _ p] exI [of _ ?fa]) (simp add: fa_inv_def st_of_def)
qed

lemma alloc_frames_run:
  assumes inv: "fa_inv fa" and r: "r \<le> MAX_ORDER" and free: "\<exists>p. 2 ^ r dvd p \<and> blk p r \<subseteq> free_set (table fa)"
  shows
    "\<exists>p fa'. alloc_frames fa r =
        Some (Inr (rnew (pfn_pa (of_nat p)) (push_bit PAGE_SHIFT (push_bit r 1))), fa') \<and>
      fa_inv fa' \<and> 2 ^ r dvd p \<and> blk p r \<subseteq> free_set (table fa) \<and>
      free_set (table fa') = free_set (table fa) - blk p r \<and>
      st_of (table fa') p = Some (AllocatedHead \<lparr>ref_count = 1, order = r\<rparr>) \<and>
      (\<forall>q. q \<notin> free_set (table fa) \<longrightarrow> table fa' q = table fa q) \<and> same_shape fa fa'"
proof -
  have "fa_ok fa" using inv by (simp add: fa_inv_def)
  then have "find (\<lambda>k. free_lists fa k \<noteq> []) [r..<Suc MAX_ORDER] \<noteq> None"
    using free free_run_in_block [OF _ _ r] find_free_order by meson
  then obtain k where "find (\<lambda>k. free_lists fa k \<noteq> []) [r..<Suc MAX_ORDER] = Some k" by blast
  then show ?thesis by (rule alloc_frames_some [OF inv r])
qed

section \<open>Changing the owner of a block\<close>

lemma owned_head: "owned_order st = Some k \<Longrightarrow> head_order st = Some k"
  by (cases st) auto

lemma owner_update:
  assumes inv: "buddy_inv F L" and f: "F p = Some f" "owned_order (state f) = Some k"
    and g: "owned_order (state g) = Some k" "link g \<Longrightarrow> \<forall>i. state g \<noteq> AllocatedHead i"
  shows "buddy_inv (F(p \<mapsto> g)) L" and "free_set (F(p \<mapsto> g)) = free_set F"
proof -
  have dom: "dom (F(p \<mapsto> g)) = dom F" using f(1) by auto
  have hg: "head_order (state g) = Some k" and hp: "head F p = Some k"
    using owned_head [OF g(1)] owned_head [OF f(2)] f(1) by (simp_all add: head_def st_of_def)
  have head: "head (F(p \<mapsto> g)) q = head F q" for q using hg hp by simp
  have free: "st_of (F(p \<mapsto> g)) q = Some (Free j) \<longleftrightarrow> st_of F q = Some (Free j)" for q j
    using f g(1) by (auto simp: st_of_def)
  then show "free_set (F(p \<mapsto> g)) = free_set F" by (rule free_set_cong)
  have own: "Option.bind (st_of (F(p \<mapsto> g)) q) owned_order = Option.bind (st_of F q) owned_order" for q
    using f g(1) by (simp add: st_of_def)
  have tail: "st_of (F(p \<mapsto> g)) q = Some (AllocatedTail h) \<longleftrightarrow> st_of F q = Some (AllocatedTail h)" for q h
    using f g(1) by (auto simp: st_of_def)
  have "blocks_ok (F(p \<mapsto> g))" using inv unfolding buddy_inv_def blocks_ok_def head dom by blast
  moreover have "coalesced (F(p \<mapsto> g))" using inv unfolding buddy_inv_def coalesced_def free by blast
  moreover have "tails_ok (F(p \<mapsto> g))" using inv unfolding buddy_inv_def tails_ok_def own tail dom by blast
  moreover have "lists_ok (F(p \<mapsto> g)) L"
  proof -
    have "\<forall>k. distinct (L k) \<and> (\<forall>q. q \<in> set (L k) \<longleftrightarrow> st_of F q = Some (Free k))"
      and links: "\<And>q f. F q = Some f \<Longrightarrow> link f \<Longrightarrow> head_order (state f) \<noteq> None \<and> (\<forall>i. state f \<noteq> AllocatedHead i)"
        "\<And>q f j. F q = Some f \<Longrightarrow> state f = Free j \<Longrightarrow> link f"
      using inv unfolding buddy_inv_def lists_ok_def by blast+
    moreover have "state g \<noteq> Free j" for j using g(1) by auto
    ultimately show ?thesis
      using hg g(2) unfolding lists_ok_def free by (auto split: if_splits)
  qed
  ultimately show "buddy_inv (F(p \<mapsto> g)) L" by (simp add: buddy_inv_def)
qed

lemma fa_inv_upd:
  assumes inv: "fa_inv fa" and f: "table fa p = Some f" "owned_order (state f) = Some k"
    and g: "owned_order (state g) = Some k" "link g \<Longrightarrow> \<forall>i. state g \<noteq> AllocatedHead i"
    and fa': "table fa' = (table fa)(p \<mapsto> g)" "free_lists fa' = free_lists fa" "free_pages fa' = free_pages fa"
      "same_shape fa fa'"
  shows "fa_inv fa'" and "free_set (table fa') = free_set (table fa)"
proof -
  have ok: "fa_ok fa" using inv by (simp add: fa_inv_def)
  note upd = owner_update [OF ok f g]
  show free: "free_set (table fa') = free_set (table fa)" using upd(2) fa'(1) by simp
  show "fa_inv fa'"
    using upd(1) fa' inv free by (simp add: fa_inv_def count_ok_def same_shape_def)
qed

end
