(* ===== verification/Buddy_Props.thy ===== *)
theory Buddy_Props
  imports Buddy_Ops
begin

text \<open>
  What the frame allocator promises its clients: allocation, freeing, reference counts, and the
  queries, with two small allocator states on which the theorems are applied.
\<close>

section \<open>Two small allocators\<close>

definition tiny :: frame_alloc where
  "tiny = \<lparr>frame_list = \<lparr>frames = [\<lparr>state = Free 1, link = True\<rparr>, \<lparr>state = Uninitialized, link = False\<rparr>],
                        base_page = 2\<rparr>,
           free_pages = 2, free_lists = (\<lambda>k. if k = 1 then [2] else [])\<rparr>"

definition tiny_used :: frame_alloc where
  "tiny_used = \<lparr>frame_list = \<lparr>frames = [\<lparr>state = AllocatedHead \<lparr>ref_count = 1, order = 1\<rparr>, link = False\<rparr>,
                                        \<lparr>state = AllocatedTail 2, link = False\<rparr>],
                             base_page = 2\<rparr>,
                free_pages = 0, free_lists = (\<lambda>k. [])\<rparr>"

lemma two_frames:
  "get_frame \<lparr>frames = [f, g], base_page = b\<rparr> = [b \<mapsto> f, Suc b \<mapsto> g]"
proof
  fix p
  show "get_frame \<lparr>frames = [f, g], base_page = b\<rparr> p = [b \<mapsto> f, Suc b \<mapsto> g] p"
    by (cases "p = b"; cases "p = Suc b") (auto simp: get_frame_def pfn_to_index_def total_pages_def)
qed

lemma tiny_table: "table tiny = [2 \<mapsto> \<lparr>state = Free 1, link = True\<rparr>, 3 \<mapsto> \<lparr>state = Uninitialized, link = False\<rparr>]"
  by (simp add: tiny_def two_frames numeral_eq_Suc)

lemma tiny_used_table:
  "table tiny_used = [2 \<mapsto> \<lparr>state = AllocatedHead \<lparr>ref_count = 1, order = 1\<rparr>, link = False\<rparr>,
                      3 \<mapsto> \<lparr>state = AllocatedTail 2, link = False\<rparr>]"
  by (simp add: tiny_used_def two_frames numeral_eq_Suc)

lemma st_of_empty [simp]: "st_of Map.empty p = None" "head Map.empty p = None"
  by (simp_all add: st_of_def head_def)

lemma tiny_lists: "free_lists tiny = (\<lambda>k. if k = 1 then [2] else [])" "free_lists tiny_used = (\<lambda>k. [])"
  by (simp_all add: tiny_def tiny_used_def)

lemma blk_2_1: "blk 2 (Suc 0) = {2, 3}"
  by (auto simp: blk_def)

lemma tiny_free: "free_set (table tiny) = {2, 3}" "free_set (table tiny_used) = {}"
  by (auto simp: tiny_table tiny_used_table free_set_iff blk_2_1 split: if_splits)

lemma tiny_inv: "fa_inv tiny"
proof -
  have "pf_buddy 2 1 = 0" by (simp add: pf_buddy_def)
  then have "fa_ok tiny"
    by (auto simp: buddy_inv_def blocks_ok_def lists_ok_def tails_ok_def coalesced_def tiny_table
        MAX_ORDER_def blk_2_1 tiny_lists split: if_splits)
  moreover have "unat (free_pages tiny) = card (free_set (table tiny))"
    unfolding tiny_free by (simp add: tiny_def)
  ultimately show ?thesis
    by (simp add: fa_inv_def count_ok_def tiny_def total_pages_def)
qed

lemma tiny_used_inv: "fa_inv tiny_used"
proof -
  have "fa_ok tiny_used"
    by (auto simp: buddy_inv_def blocks_ok_def lists_ok_def tails_ok_def coalesced_def tiny_used_table
        MAX_ORDER_def blk_2_1 tiny_lists split: if_splits)
  moreover have "unat (free_pages tiny_used) = card (free_set (table tiny_used))"
    unfolding tiny_free by (simp add: tiny_used_def)
  ultimately show ?thesis
    by (simp add: fa_inv_def count_ok_def tiny_used_def total_pages_def)
qed

section \<open>What the allocator promises\<close>

text \<open>
  Claim C15. Allocating a block of order \<open>r\<close> succeeds exactly when some aligned run of \<open>2 ^ r\<close>
  frames is free. The frames of the new block were all free and are no longer; no other free
  frame is lost, no frame that was in use changes, and the invariant and the count of free pages
  are kept. An order above \<open>MAX_ORDER\<close> is refused and a failed call changes nothing.
\<close>

theorem alloc_frames_correct:
  assumes inv: "fa_inv fa"
  shows "if r > MAX_ORDER then alloc_frames fa r = Some (Inl InvalidValue, fa)
    else if \<exists>p. 2 ^ r dvd p \<and> blk p r \<subseteq> free_set (table fa)
    then \<exists>p fa'. alloc_frames fa r =
           Some (Inr (rnew (pfn_pa (of_nat p)) (push_bit PAGE_SHIFT (push_bit r 1))), fa') \<and>
         fa_inv fa' \<and> 2 ^ r dvd p \<and> blk p r \<subseteq> free_set (table fa) \<and>
         free_set (table fa') = free_set (table fa) - blk p r \<and>
         st_of (table fa') p = Some (AllocatedHead \<lparr>ref_count = 1, order = r\<rparr>) \<and>
         (\<forall>q. q \<notin> free_set (table fa) \<longrightarrow> table fa' q = table fa q)
    else alloc_frames fa r = Some (Inl NoMemory, fa)"
proof (cases "r > MAX_ORDER")
  case True
  then show ?thesis by (simp add: alloc_frames_def)
next
  case False
  then have r: "r \<le> MAX_ORDER" by simp
  have ok: "fa_ok fa" using inv by (simp add: fa_inv_def)
  show ?thesis
  proof (cases "\<exists>p. 2 ^ r dvd p \<and> blk p r \<subseteq> free_set (table fa)")
    case True
    then show ?thesis using False alloc_frames_run [OF inv r True] by auto
  next
    case False
    with alloc_frames_none [OF ok r] r show ?thesis by simp
  qed
qed

theorem alloc_frames_correct_witness:
  "\<exists>p fa'. alloc_frames tiny 0 =
      Some (Inr (rnew (pfn_pa (of_nat p)) (push_bit PAGE_SHIFT (push_bit 0 1))), fa') \<and>
    fa_inv fa' \<and> p \<in> {2, 3} \<and> free_set (table fa') = {2, 3} - {p}"
proof -
  have "blk 2 0 \<subseteq> free_set (table tiny)" unfolding tiny_free by (auto simp: blk_def)
  then have "\<exists>p. 2 ^ 0 dvd p \<and> blk p 0 \<subseteq> free_set (table tiny)" by auto
  with alloc_frames_correct [OF tiny_inv, of 0] obtain p fa' where
    "alloc_frames tiny 0 = Some (Inr (rnew (pfn_pa (of_nat p)) (push_bit PAGE_SHIFT (push_bit 0 1))), fa')"
    "fa_inv fa'" "blk p 0 \<subseteq> free_set (table tiny)" "free_set (table fa') = free_set (table tiny) - blk p 0"
    by (auto simp: MAX_ORDER_def)
  then show ?thesis unfolding tiny_free by (auto simp: blk_def)
qed

text \<open>
  Claim C16. Dropping the last reference to an allocated block makes exactly its frames free, merges
  them with their free buddies, and leaves every frame that stays in use as it was. The invariant
  and the count of free pages are kept.
\<close>

theorem free_frames_releases:
  assumes "fa_inv fa" and "table fa (unat (to_pfn (start_address rgn))) = Some f"
    and "state f = AllocatedHead info" and "ref_count info \<le> 1"
  shows "\<exists>fa'. free_frames fa rgn = Some fa' \<and> fa_inv fa' \<and>
    free_set (table fa') = free_set (table fa) \<union> blk (unat (to_pfn (start_address rgn))) (order info) \<and>
    blk (unat (to_pfn (start_address rgn))) (order info) \<inter> free_set (table fa) = {} \<and>
    (\<forall>q. q \<notin> free_set (table fa') \<longrightarrow> table fa' q = table fa q)"
  using free_frames_spec [OF assms] by blast

theorem free_frames_releases_witness:
  "\<exists>fa'. free_frames tiny_used (rnew 0x2000 0x2000) = Some fa' \<and> fa_inv fa' \<and>
     free_set (table fa') = {2, 3}"
proof -
  have pfn: "unat (to_pfn (start_address (rnew 0x2000 0x2000))) = 2"
    by (simp add: unat_to_pfn start_address_def)
  have "table tiny_used (unat (to_pfn (start_address (rnew 0x2000 0x2000)))) =
      Some \<lparr>state = AllocatedHead \<lparr>ref_count = 1, order = 1\<rparr>, link = False\<rparr>"
    unfolding pfn by (simp add: tiny_used_table)
  from free_frames_releases [OF tiny_used_inv this] show ?thesis
    unfolding pfn tiny_free by (auto simp: blk_2_1)
qed

section \<open>Allocating and freeing\<close>

lemma to_pfn_pa:
  assumes "p < 2 ^ 52"
  shows "unat (to_pfn (pfn_pa (of_nat p))) = p"
proof -
  have "unat (pfn_pa (of_nat p) :: usize) = p * 4096"
    using assms
    by (simp add: pfn_pa_def PAGE_SHIFT_def push_bit_eq_mult unat_word_ariths(2) unat_of_nat)
  then show ?thesis by (simp add: unat_to_pfn)
qed

lemma fa_inv_pfn: "fa_inv fa \<Longrightarrow> p \<in> dom (table fa) \<Longrightarrow> p < 2 ^ 52"
  unfolding table_dom by (simp add: fa_inv_def count_ok_def)

text \<open>
  Claim C17. A block that is allocated and then dropped gives the free frames back: the set of free
  frames and their count are what they were, and no frame in use has changed. The free list itself
  may differ, because the freed block is put at the front.
\<close>

theorem alloc_free_roundtrip:
  assumes inv: "fa_inv fa" and alloc: "alloc_frames fa r = Some (Inr rgn, fa1)"
  shows "\<exists>fa2. page_allocation_drop fa1 rgn = Some fa2 \<and> fa_inv fa2 \<and>
    free_set (table fa2) = free_set (table fa) \<and> free_pages fa2 = free_pages fa \<and>
    (\<forall>q. q \<notin> free_set (table fa) \<longrightarrow> table fa2 q = table fa q)"
proof -
  have r: "r \<le> MAX_ORDER" using alloc by (auto simp: alloc_frames_def split: if_splits)
  then obtain k where k: "find (\<lambda>k. free_lists fa k \<noteq> []) [r..<Suc MAX_ORDER] = Some k"
    using alloc by (cases "find (\<lambda>k. free_lists fa k \<noteq> []) [r..<Suc MAX_ORDER]") (auto simp: alloc_frames_def)
  obtain p fa' where a':
    "alloc_frames fa r = Some (Inr (rnew (pfn_pa (of_nat p)) (push_bit PAGE_SHIFT (push_bit r 1))), fa')"
    "fa_inv fa'" "2 ^ r dvd p" "blk p r \<subseteq> free_set (table fa)"
    "free_set (table fa') = free_set (table fa) - blk p r"
    "st_of (table fa') p = Some (AllocatedHead \<lparr>ref_count = 1, order = r\<rparr>)"
    "\<forall>q. q \<notin> free_set (table fa) \<longrightarrow> table fa' q = table fa q"
    using alloc_frames_some [OF inv r k] by blast
  have eq: "fa' = fa1" "rgn = rnew (pfn_pa (of_nat p)) (push_bit PAGE_SHIFT (push_bit r 1))"
    using alloc a'(1) by simp_all
  note a = eq(2) a'(2,4,5,6,7) [unfolded eq(1)]
  from a(5) obtain f where f: "table fa1 p = Some f" "state f = AllocatedHead \<lparr>ref_count = 1, order = r\<rparr>"
    by (auto simp: st_of_def)
  have "p < 2 ^ 52" using fa_inv_pfn [OF a(2)] f(1) by blast
  then have pfn: "unat (to_pfn (start_address rgn)) = p" by (simp add: a(1) start_address_def to_pfn_pa)
  then have f1: "table fa1 (unat (to_pfn (start_address rgn))) = Some f" using f(1) by simp
  have one: "ref_count \<lparr>ref_count = 1, order = r\<rparr> \<le> 1" by simp
  obtain fa2 where fa2: "free_frames fa1 rgn = Some fa2" "fa_inv fa2"
    "free_set (table fa2) = free_set (table fa1) \<union> blk p r"
    "\<forall>q. q \<notin> free_set (table fa2) \<longrightarrow> table fa2 q = table fa1 q"
    using free_frames_spec [OF a(2) f1 f(2) one] unfolding pfn AllocatedInfo.select_convs by blast
  have free: "free_set (table fa2) = free_set (table fa)" using fa2(3) a(3,4) by blast
  then have "unat (free_pages fa2) = unat (free_pages fa)"
    using fa2(2) inv by (simp add: fa_inv_def count_ok_def)
  then have "free_pages fa2 = free_pages fa" by (simp only: unat_eq_usize)
  with fa2 free a(6) show ?thesis by (auto simp: page_allocation_drop_def)
qed

theorem alloc_free_roundtrip_witness:
  "\<exists>rgn fa1 fa2. alloc_frames tiny 0 = Some (Inr rgn, fa1) \<and> page_allocation_drop fa1 rgn = Some fa2 \<and>
     free_set (table fa2) = {2, 3}"
proof -
  have "case alloc_frames tiny 0 of Some (Inr _, _) \<Rightarrow> True | _ \<Rightarrow> False" by code_simp
  then have "\<exists>rgn fa1. alloc_frames tiny 0 = Some (Inr rgn, fa1)" by (auto split: option.splits sum.splits)
  then show ?thesis using alloc_free_roundtrip [OF tiny_inv] tiny_free(1) by metis
qed

section \<open>Reference counts\<close>

lemma set_state_twice:
  assumes "set_state fa p a = Some fa1"
  shows "set_state fa1 p b = set_state fa p b"
  using assms
  by (auto simp: set_state_def put_frame_def get_frame_def pfn_to_index_def total_pages_def
      split: if_splits)

lemma set_state_same:
  "table fa p = Some f \<Longrightarrow> set_state fa p (state f) = Some fa"
  by (auto simp: set_state_def put_frame_def get_frame_def pfn_to_index_def total_pages_def
      split: if_splits)

text \<open>
  A sequence of clones (\<open>True\<close>) and drops (\<open>False\<close>) of one allocation, and the number of references after
  it, as long as that stays positive and below the range of the counter.
\<close>

fun ref_run :: "frame_alloc \<Rightarrow> region \<Rightarrow> bool list \<Rightarrow> frame_alloc option" where
  "ref_run fa rgn [] = Some fa"
| "ref_run fa rgn (b # bs) =
     Option.bind (if b then map_option snd (page_allocation_clone fa rgn) else page_allocation_drop fa rgn)
       (\<lambda>fa. ref_run fa rgn bs)"

fun refs_after :: "nat \<Rightarrow> bool list \<Rightarrow> nat option" where
  "refs_after n [] = Some n"
| "refs_after n (b # bs) =
     (let m = (if b then n + 1 else n - 1) in if 0 < m \<and> m < 2 ^ 32 then refs_after m bs else None)"

definition with_refs :: "frame_alloc \<Rightarrow> region \<Rightarrow> AllocatedInfo \<Rightarrow> nat \<Rightarrow> frame_alloc option" where
  "with_refs fa rgn info n = set_state fa (unat (to_pfn (start_address rgn))) (AllocatedHead (info\<lparr>ref_count := of_nat n\<rparr>))"

lemma with_refs_step:
  assumes f: "table fa (unat (to_pfn (start_address rgn))) = Some f" and at: "with_refs fa rgn info n = Some fa1"
    and m: "m = (if b then n + 1 else n - 1)" "0 < n" "n < 2 ^ 32" "0 < m" "m < 2 ^ 32"
  shows "(if b then map_option snd (page_allocation_clone fa1 rgn) else page_allocation_drop fa1 rgn) = with_refs fa rgn info m"
proof -
  let ?p = "unat (to_pfn (start_address rgn))"
  obtain fa' where "set_state fa ?p (AllocatedHead (info\<lparr>ref_count := of_nat n\<rparr>)) = Some fa'"
    "table fa' = (table fa)(?p \<mapsto> f\<lparr>state := AllocatedHead (info\<lparr>ref_count := of_nat n\<rparr>)\<rparr>)"
    using set_state_Some [OF f] by metis
  then have tab: "fa_state fa1 ?p = Some (AllocatedHead (info\<lparr>ref_count := of_nat n\<rparr>))"
    using at by (simp add: with_refs_def fa_state_def)
  have set: "set_state fa1 ?p (AllocatedHead (info\<lparr>ref_count := of_nat k\<rparr>)) = with_refs fa rgn info k" for k
    using set_state_twice [OF at [unfolded with_refs_def]] by (simp add: with_refs_def)
  show ?thesis
  proof (cases b)
    case True
    have "(of_nat n + 1 :: u32) = of_nat m" using m(1) True by simp
    then show ?thesis using True tab set [of m]
      by (simp add: page_allocation_clone_def Let_def option.map_comp comp_def option.map_ident)
  next
    case False
    have "1 < n" using m False by auto
    then have "(1 :: u32) < of_nat n" using m(3) by (simp add: word_less_nat_alt unat_of_nat)
    moreover have "(of_nat n - 1 :: u32) = of_nat m" using m False by (simp add: of_nat_diff)
    ultimately show ?thesis using False tab set [of m] by (simp add: page_allocation_drop_def free_frames_def Let_def)
  qed
qed

lemma ref_run_spec:
  assumes f: "table fa (unat (to_pfn (start_address rgn))) = Some f" and "with_refs fa rgn info n = Some fa1" "0 < n" "n < 2 ^ 32"
    and "refs_after n ops = Some m"
  shows "ref_run fa1 rgn ops = with_refs fa rgn info m \<and> 0 < m"
  using assms(2-)
proof (induction ops arbitrary: n fa1)
  case (Cons b ops)
  define k where "k = (if b then n + 1 else n - 1)"
  have k: "0 < k" "k < 2 ^ 32" "refs_after k ops = Some m" using Cons.prems(4) by (simp_all add: Let_def k_def split: if_splits)
  note step = with_refs_step [OF f Cons.prems(1) k_def Cons.prems(2,3) k(1,2)]
  obtain fa2 where fa2: "with_refs fa rgn info k = Some fa2" using set_state_Some [OF f] unfolding with_refs_def by metis
  show ?case using Cons.IH [OF fa2 k] step fa2 by simp
qed simp

text \<open>
  Claim C30. Cloning and dropping an allocation, in any order, as long as at least one reference is left and the
  count stays below \<open>2 ^ 32\<close>: nothing panics, the allocator changes in the count of the block only, so
  that no frame becomes free or used, and it is exactly the old one when the count is the old one again. When one
  reference is left, dropping it makes exactly the frames of the block free.
\<close>

theorem clone_drop_counts:
  assumes inv: "fa_inv fa" and f: "table fa (unat (to_pfn (start_address rgn))) = Some f" "state f = AllocatedHead info"
    and pos: "0 < ref_count info" and ops: "refs_after (unat (ref_count info)) ops = Some n"
  shows "\<exists>fa'. ref_run fa rgn ops = Some fa' \<and> with_refs fa rgn info n = Some fa' \<and> fa_inv fa' \<and>
    free_set (table fa') = free_set (table fa) \<and> free_pages fa' = free_pages fa \<and> (n = unat (ref_count info) \<longrightarrow> fa' = fa) \<and>
    (n = 1 \<longrightarrow> (\<exists>fa2. page_allocation_drop fa' rgn = Some fa2 \<and> fa_inv fa2 \<and>
       free_set (table fa2) = free_set (table fa) \<union> blk (unat (to_pfn (start_address rgn))) (order info)))"
proof -
  let ?p = "unat (to_pfn (start_address rgn))" and ?n = "unat (ref_count info)"
  have "AllocatedHead (info\<lparr>ref_count := of_nat ?n\<rparr>) = state f" using f(2) by simp
  then have same: "with_refs fa rgn info ?n = Some fa" using set_state_same [OF f(1)] by (simp only: with_refs_def)
  have "?n < 2 ^ LENGTH(32)" by (rule unsigned_less)
  then have lt: "?n < 2 ^ 32" by simp
  have run: "ref_run fa rgn ops = with_refs fa rgn info n" "0 < n"
    using ref_run_spec [OF f(1) same _ lt ops] pos by (simp_all add: word_less_nat_alt)
  obtain fa' where fa': "with_refs fa rgn info n = Some fa'"
    "table fa' = (table fa)(?p \<mapsto> f\<lparr>state := AllocatedHead (info\<lparr>ref_count := of_nat n\<rparr>)\<rparr>)"
    "free_lists fa' = free_lists fa" "free_pages fa' = free_pages fa" "same_shape fa fa'"
    using set_state_Some [OF f(1)] unfolding with_refs_def by metis
  let ?g = "f\<lparr>state := AllocatedHead (info\<lparr>ref_count := of_nat n\<rparr>)\<rparr>"
  have own: "owned_order (state f) = Some (order info)" "owned_order (state ?g) = Some (order info)" using f(2) by simp_all
  have link: "\<forall>i. state ?g \<noteq> AllocatedHead i" if "link ?g"
    using that inv f by (auto simp: fa_inv_def buddy_inv_def lists_ok_def)
  note inv' = fa_inv_upd [OF inv f(1) own link fa'(2-5)]
  have "\<exists>fa2. page_allocation_drop fa' rgn = Some fa2 \<and> fa_inv fa2 \<and>
       free_set (table fa2) = free_set (table fa) \<union> blk ?p (order info)" if "n = 1"
    using free_frames_spec [OF inv'(1), of rgn ?g] inv'(2) fa'(2) that by (auto simp: page_allocation_drop_def)
  then show ?thesis using run fa' inv' same by auto
qed

theorem clone_drop_counts_witness:
  "\<exists>fa2. ref_run tiny_used (rnew 0x2000 0x2000) [True, True, False, True, False, False] = Some tiny_used \<and>
     page_allocation_drop tiny_used (rnew 0x2000 0x2000) = Some fa2 \<and> free_set (table fa2) = free_set (table tiny_used) \<union> {2, 3}"
proof -
  have pfn: "unat (to_pfn (start_address (rnew 0x2000 0x2000))) = 2" by (simp add: unat_to_pfn start_address_def)
  have f: "table tiny_used (unat (to_pfn (start_address (rnew 0x2000 0x2000)))) =
      Some \<lparr>state = AllocatedHead \<lparr>ref_count = 1, order = 1\<rparr>, link = False\<rparr>"
    unfolding pfn by (simp add: tiny_used_table)
  have "refs_after (unat (ref_count \<lparr>ref_count = 1, order = 1\<rparr>)) [True, True, False, True, False, False] = Some 1" by (simp add: Let_def)
  from clone_drop_counts [OF tiny_used_inv f _ _ this] show ?thesis by (auto simp: pfn blk_def)
qed

section \<open>Queries\<close>

lemma is_allocated_exclusive_step:
  "fa_state fa q = Some st \<Longrightarrow> is_allocated_exclusive fa q =
     (case st of
        AllocatedTail h \<Rightarrow> is_allocated_exclusive fa h
      | AllocatedHead info \<Rightarrow> Some (ref_count info = 1)
      | _ \<Rightarrow> Some False)"
  by (subst is_allocated_exclusive.simps) (simp split: FrameState.split)

text \<open>
  Claim C31. Following tail frames to the head of their block always ends: on a frame of the table,
  \<open>is_allocated_exclusive\<close> returns. On every frame of an allocated block it tells whether the
  block has exactly one reference.
\<close>

theorem is_allocated_exclusive_returns:
  assumes inv: "fa_inv fa" and q: "q \<in> dom (table fa)"
  shows "(\<exists>b. is_allocated_exclusive fa q = Some b) \<and>
    (\<forall>p info. st_of (table fa) p = Some (AllocatedHead info) \<longrightarrow> q \<in> blk p (order info) \<longrightarrow>
       is_allocated_exclusive fa q = Some (ref_count info = 1))"
proof -
  have tail: "h < x \<and> h \<in> dom (table fa)" if "st_of (table fa) x = Some (AllocatedTail h)" for x h
    using inv that unfolding fa_inv_def buddy_inv_def tails_ok_def by blast
  have ex: "\<exists>b. is_allocated_exclusive fa q = Some b" using q
  proof (induction q rule: less_induct)
    case (less q)
    then obtain st where st: "fa_state fa q = Some st" by (auto simp: fa_state_def)
    show ?case
    proof (cases st)
      case (AllocatedTail h)
      then have "h < q" "h \<in> dom (table fa)" using st tail by (auto simp: fa_state_table)
      from less.IH [OF this] show ?thesis
        by (simp add: is_allocated_exclusive_step [OF st] AllocatedTail)
    qed (auto simp: is_allocated_exclusive_step [OF st])
  qed
  have "is_allocated_exclusive fa q = Some (ref_count info = 1)"
    if p: "st_of (table fa) p = Some (AllocatedHead info)" "q \<in> blk p (order info)" for p info
  proof -
    have head: "is_allocated_exclusive fa p = Some (ref_count info = 1)"
      using is_allocated_exclusive_step [of fa p "AllocatedHead info"] p(1) by (simp add: fa_state_table)
    have "Option.bind (st_of (table fa) p) owned_order = Some (order info)" using p(1) by simp
    moreover have "tails_ok (table fa)" using inv by (simp add: fa_inv_def buddy_inv_def)
    ultimately have "q = p \<or> st_of (table fa) q = Some (AllocatedTail p)"
      using p(2) unfolding tails_ok_def by blast
    then show ?thesis
    proof
      assume "st_of (table fa) q = Some (AllocatedTail p)"
      then have "is_allocated_exclusive fa q = is_allocated_exclusive fa p"
        using is_allocated_exclusive_step [of fa q "AllocatedTail p"] by (simp add: fa_state_table)
      with head show ?thesis by simp
    qed (use head in simp)
  qed
  with ex show ?thesis by blast
qed

theorem is_allocated_exclusive_returns_witness:
  "is_allocated_exclusive tiny_used 3 = Some True"
proof -
  have dom: "3 \<in> dom (table tiny_used)"
    and head: "st_of (table tiny_used) 2 = Some (AllocatedHead \<lparr>ref_count = 1, order = 1\<rparr>)"
    and blk: "3 \<in> blk 2 (order \<lparr>ref_count = 1, order = 1\<rparr>)"
    by (simp_all add: tiny_used_table blk_2_1)
  from is_allocated_exclusive_returns [OF tiny_used_inv dom, THEN conjunct2, rule_format, OF head blk]
  show ?thesis by simp
qed

text \<open>
  Freeing a block of more than one frame leaves its tail frames marked as tails, so that
  \<open>is_allocated\<close> still answers \<open>true\<close> for a frame that is free.
\<close>

lemma is_allocated_after_free:
  "map_option (\<lambda>fa. (is_allocated fa 3, free_lists fa 1, free_pages fa))
     (free_frames tiny_used (rnew 0x2000 0x2000)) = Some (Some True, [2], 2)"
  by code_simp

end
