(* ===== verification/Buddy_Init.thy ===== *)
theory Buddy_Init
  imports Buddy_Props Smalloc_Iter
begin

text \<open>
  Building the frame allocator: the frames of reserved memory are marked first, then the naturally
  aligned blocks of the highest order inside the free regions of memory become free.
\<close>

section \<open>Marking reserved frames\<close>

lemma mark_kernel_spec:
  "\<exists>fa'. mark_kernel fa ps = Some fa' \<and> free_lists fa' = free_lists fa \<and> free_pages fa' = free_pages fa \<and>
     same_shape fa fa' \<and>
     table fa' = (\<lambda>q. if q \<in> set ps then map_option (\<lambda>f. f\<lparr>state := Kernel\<rparr>) (table fa q) else table fa q)"
proof (induction ps arbitrary: fa)
  case Nil
  then show ?case by (simp add: same_shape_def)
next
  case (Cons p ps)
  let ?in = "p \<ge> base_page (frame_list fa) \<and> p < base_page (frame_list fa) + total_pages (frame_list fa)"
  obtain fa1 where fa1: "(if ?in then set_state fa p Kernel else Some fa) = Some fa1"
    "free_lists fa1 = free_lists fa" "free_pages fa1 = free_pages fa" "same_shape fa fa1"
    "table fa1 = (\<lambda>q. if q = p then map_option (\<lambda>f. f\<lparr>state := Kernel\<rparr>) (table fa q) else table fa q)"
  proof (cases "?in")
    case True
    then have "p \<in> dom (table fa)" unfolding table_dom by simp
    then obtain f where f: "table fa p = Some f" by blast
    obtain fa1 where "set_state fa p Kernel = Some fa1" "table fa1 = (table fa)(p \<mapsto> f\<lparr>state := Kernel\<rparr>)"
      "free_lists fa1 = free_lists fa" "free_pages fa1 = free_pages fa" "same_shape fa fa1"
      using set_state_Some [OF f] by metis
    with True f that [of fa1] show ?thesis by (simp add: fun_eq_iff)
  next
    case False
    then have "p \<notin> dom (table fa)" unfolding table_dom by simp
    then have "table fa p = None" by (simp add: domIff)
    then have "table fa = (\<lambda>q. if q = p then map_option (\<lambda>f. f\<lparr>state := Kernel\<rparr>) (table fa q) else table fa q)"
      by (auto simp: fun_eq_iff)
    with False show ?thesis by (intro that [of fa]) (auto simp: same_shape_def)
  qed
  from Cons.IH [of fa1] obtain fa' where fa': "mark_kernel fa1 ps = Some fa'" "free_lists fa' = free_lists fa1"
    "free_pages fa' = free_pages fa1" "same_shape fa1 fa'"
    "table fa' = (\<lambda>q. if q \<in> set ps then map_option (\<lambda>f. f\<lparr>state := Kernel\<rparr>) (table fa1 q) else table fa1 q)"
    by blast
  have "table fa' = (\<lambda>q. if q \<in> set (p # ps) then map_option (\<lambda>f. f\<lparr>state := Kernel\<rparr>) (table fa q) else table fa q)"
    by (simp add: fa'(5) fa1(5) fun_eq_iff option.map_comp o_def)
  with fa1 fa' show ?case using same_shape_trans by auto
qed

section \<open>Making blocks free\<close>

definition big_blocks :: "frame_map \<Rightarrow> page_frame \<Rightarrow> page_frame \<Rightarrow> page_frame set" where
  "big_blocks F c e = (\<Union>p \<in> {p. c \<le> p \<and> 2 ^ MAX_ORDER dvd p \<and> p + 2 ^ MAX_ORDER \<le> e \<and> st_of F p \<noteq> Some Kernel}.
     blk p MAX_ORDER)"

lemma big_blocks_step:
  assumes c: "2 ^ MAX_ORDER dvd c" "c + 2 ^ MAX_ORDER \<le> e"
    and same: "\<And>p. p \<noteq> c \<Longrightarrow> st_of F' p = st_of F p"
  shows "big_blocks F c e = (if st_of F c = Some Kernel then {} else blk c MAX_ORDER) \<union>
    big_blocks F' (c + 2 ^ MAX_ORDER) e"
proof -
  have "p = c \<or> c + 2 ^ MAX_ORDER \<le> p" if "c \<le> p" "2 ^ MAX_ORDER dvd p" for p
  proof (rule disjCI)
    assume "\<not> c + 2 ^ MAX_ORDER \<le> p"
    then have "p - c < 2 ^ MAX_ORDER" using that by simp
    moreover have "2 ^ MAX_ORDER dvd p - c" using c(1) that by simp
    ultimately show "p = c" using that(1) nat_dvd_not_less by fastforce
  qed
  moreover have "p \<noteq> c" if "c + 2 ^ MAX_ORDER \<le> p" for p using that by auto
  ultimately have "{p. c \<le> p \<and> 2 ^ MAX_ORDER dvd p \<and> p + 2 ^ MAX_ORDER \<le> e \<and> st_of F p \<noteq> Some Kernel} =
    (if st_of F c = Some Kernel then {} else {c}) \<union>
    {p. c + 2 ^ MAX_ORDER \<le> p \<and> 2 ^ MAX_ORDER dvd p \<and> p + 2 ^ MAX_ORDER \<le> e \<and> st_of F' p \<noteq> Some Kernel}"
    using c same by (auto; metis le_trans le_add1)
  then show ?thesis unfolding big_blocks_def by auto
qed

lemma big_blocks_empty: "\<not> c + 2 ^ MAX_ORDER \<le> e \<Longrightarrow> big_blocks F c e = {}"
  by (auto simp: big_blocks_def)

text \<open>What changes from \<open>F\<close> to \<open>F'\<close> is in the frames of \<open>S\<close>, the new blocks included.\<close>

definition changed_in :: "page_frame set \<Rightarrow> frame_map \<Rightarrow> frame_map \<Rightarrow> bool" where
  "changed_in S F F' \<longleftrightarrow> dom F' = dom F \<and> (\<forall>q. q \<notin> S \<longrightarrow> F' q = F q) \<and>
     (\<forall>q j. head F' q = Some j \<longrightarrow> head F q = Some j \<or> blk q j \<subseteq> S)"

lemma changed_in_refl: "changed_in S F F"
  by (simp add: changed_in_def)

lemma changed_in_mono: "changed_in S F F' \<Longrightarrow> S \<subseteq> T \<Longrightarrow> changed_in T F F'"
  unfolding changed_in_def by blast

lemma changed_in_trans: "changed_in S F G \<Longrightarrow> changed_in S G H \<Longrightarrow> changed_in S F H"
  unfolding changed_in_def by metis

lemma populate_loop_spec:
  assumes "fa_inv fa" and "2 ^ MAX_ORDER dvd c" and "{c..<e} \<subseteq> dom (table fa)"
    and "\<forall>q j. head (table fa) q = Some j \<longrightarrow> blk q j \<inter> {c..<e} = {}"
  shows "\<exists>fa'. populate_loop fa c e = Some fa' \<and> fa_inv fa' \<and>
    free_set (table fa') = free_set (table fa) \<union> big_blocks (table fa) c e \<and> changed_in {c..<e} (table fa) (table fa')"
  using assms
proof (induction "Suc e - c" arbitrary: fa c rule: less_induct)
  case less
  have ok: "fa_ok fa" and cnt: "count_ok fa" using less.prems(1) by (simp_all add: fa_inv_def)
  show ?case
  proof (cases "c + 2 ^ MAX_ORDER \<le> e")
    case False
    then show ?thesis
      using less.prems(1) by (subst populate_loop.simps) (simp add: big_blocks_empty changed_in_refl)
  next
    case True
    let ?c = "c + 2 ^ MAX_ORDER"
    have blk: "blk c MAX_ORDER \<subseteq> {c..<e}" "blk c MAX_ORDER \<inter> {?c..<e} = {}" "{?c..<e} \<subseteq> {c..<e}"
      using True by (auto simp: blk_def)
    then have hole: "hole (table fa) c MAX_ORDER"
      using less.prems(2,3,4) unfolding hole_def by blast
    obtain f where f: "table fa c = Some f" using hole_dom [OF hole] by blast
    have dec: "Suc e - ?c < Suc e - c" using True by (simp add: MAX_ORDER_def)
    have dvd: "2 ^ MAX_ORDER dvd ?c" using less.prems(2) by simp
    show ?thesis
    proof (cases "state f = Kernel")
      case kernel: True
      have "populate_loop fa c e = populate_loop fa ?c e"
        using True f kernel by (subst populate_loop.simps) (simp add: fa_state_def)
      moreover have "big_blocks (table fa) c e = big_blocks (table fa) ?c e"
        using big_blocks_step [OF less.prems(2) True, of "table fa" "table fa"] f kernel by (simp add: st_of_def)
      moreover have "\<forall>q j. head (table fa) q = Some j \<longrightarrow> blk q j \<inter> {?c..<e} = {}"
        using less.prems(4) blk(3) by blast
      moreover have "{?c..<e} \<subseteq> dom (table fa)" using less.prems(3) blk(3) by blast
      ultimately obtain fa' where "populate_loop fa c e = Some fa'" "fa_inv fa'"
        "free_set (table fa') = free_set (table fa) \<union> big_blocks (table fa) c e" "changed_in {?c..<e} (table fa) (table fa')"
        using less.hyps [OF dec less.prems(1) dvd] by auto
      then show ?thesis using changed_in_mono [OF _ blk(3)] by blast
    next
      case False
      obtain fa1 fa2 g where fa2: "set_state fa c (Free MAX_ORDER) = Some fa1"
        "add_to_free_list fa1 c MAX_ORDER = Some fa2" "table fa2 = (table fa)(c \<mapsto> g)"
        "state g = Free MAX_ORDER" "fa_ok fa2" "free_set (table fa2) = free_set (table fa) \<union> blk c MAX_ORDER"
        "free_pages fa2 = free_pages fa" "same_shape fa fa2"
        by (rule free_hole [OF ok hole]) auto
      let ?fa = "fa2\<lparr>free_pages := free_pages fa2 + push_bit MAX_ORDER 1\<rparr>"
      have loop: "populate_loop fa c e = populate_loop ?fa ?c e"
        using True f False fa2(1,2) by (subst populate_loop.simps) (simp add: fa_state_def)
      have "count_ok ?fa"
      proof -
        have "card (free_set (table fa2)) = card (free_set (table fa)) + 2 ^ MAX_ORDER"
          using free_set_hole [OF hole] finite_free_set [OF ok] unfolding fa2(6) by (subst card_Un_disjoint) auto
        moreover have "card (free_set (table fa2)) \<le> 2 ^ 52"
          using card_free_set [OF fa2(5)] cnt fa2(8) by (simp add: count_ok_def same_shape_def)
        ultimately have "unat (free_pages fa2 + push_bit MAX_ORDER 1) = card (free_set (table fa2))"
          using cnt fa2(7) unat_order [of MAX_ORDER] by (subst unat_add_usize) (simp_all add: count_ok_def)
        then show ?thesis using cnt fa2(8) by (simp add: count_ok_def same_shape_def)
      qed
      with fa2(5) have inv: "fa_inv ?fa" by (simp add: fa_inv_def)
      have "\<forall>q j. head (table ?fa) q = Some j \<longrightarrow> blk q j \<inter> {?c..<e} = {}"
      proof (intro allI impI)
        fix q j assume "head (table ?fa) q = Some j"
        then have "q = c \<and> j = MAX_ORDER \<or> head (table fa) q = Some j"
          using fa2(3,4) by (auto split: if_splits)
        then show "blk q j \<inter> {?c..<e} = {}" using less.prems(4) blk(2,3) by blast
      qed
      moreover have "{?c..<e} \<subseteq> dom (table ?fa)"
        using order_trans [OF blk(3) less.prems(3)] fa2(3) by (simp add: subset_insertI2)
      ultimately obtain fa' where fa': "populate_loop ?fa ?c e = Some fa'" "fa_inv fa'"
        "free_set (table fa') = free_set (table fa2) \<union> big_blocks (table fa2) ?c e" "changed_in {?c..<e} (table fa2) (table fa')"
        using less.hyps [OF dec inv dvd] by auto
      have "changed_in {c..<e} (table fa) (table fa2)"
      proof -
        have "c < e" using True by (simp add: MAX_ORDER_def)
        then show ?thesis using fa2(3,4) f blk(1) by (auto simp: changed_in_def split: if_splits)
      qed
      from changed_in_trans [OF this changed_in_mono [OF fa'(4) blk(3)]]
      have "changed_in {c..<e} (table fa) (table fa')" .
      moreover have "big_blocks (table fa) c e = blk c MAX_ORDER \<union> big_blocks (table fa2) ?c e"
        using big_blocks_step [OF less.prems(2) True, of "table fa2" "table fa"] f False fa2(3)
        by (simp add: st_of_def)
      ultimately show ?thesis using loop fa2(6) fa'(1-3) by auto
    qed
  qed
qed

section \<open>The initial allocator\<close>

text \<open>The reserved frames of a region: those of the reservations that overlap it.\<close>

definition reserved_pfns :: "smalloc \<Rightarrow> region \<Rightarrow> page_frame list" where
  "reserved_pfns sm rgn =
     concat (map (\<lambda>r. map unat (iter_pfns r)) (filter (\<lambda>r. overlaps r rgn) (regions (res sm))))"

lemma fa_setup_spec:
  assumes built: "fa_setup tr fsz fal sm rgn = Some (fa, sm')"
    and bound: "unat (to_pfn (start_address rgn)) + unat (drop_bit PAGE_SHIFT (rsize rgn)) \<le> 2 ^ 52"
  shows "fa_inv fa" and "free_set (table fa) = {}" and "\<And>q. head (table fa) q = None"
    and "dom (table fa) = {unat (to_pfn (start_address rgn))..<
           unat (to_pfn (start_address rgn)) + unat (drop_bit PAGE_SHIFT (rsize rgn))}"
    and "\<And>q. q \<in> dom (table fa) \<Longrightarrow> st_of (table fa) q =
           Some (if q \<in> set (reserved_pfns sm' rgn) then Kernel else Uninitialized)"
proof -
  let ?b = "unat (to_pfn (start_address rgn))" and ?n = "unat (drop_bit PAGE_SHIFT (rsize rgn))"
  let ?fa = "\<lparr>frame_list = \<lparr>frames = replicate ?n frame_new, base_page = ?b\<rparr>,
      free_pages = 0, free_lists = (\<lambda>_. [])\<rparr>"
  have mark: "mark_kernel ?fa (reserved_pfns sm' rgn) = Some fa"
    using built by (auto simp: fa_setup_def Let_def reserved_pfns_def split: option.splits sum.splits)
  have fresh: "table ?fa q = (if ?b \<le> q \<and> q < ?b + ?n then Some frame_new else None)" for q
    by (auto simp: get_frame_def pfn_to_index_def total_pages_def)
  have fa: "free_lists fa = (\<lambda>_. [])" "free_pages fa = 0" "same_shape ?fa fa"
    "table fa = (\<lambda>q. if q \<in> set (reserved_pfns sm' rgn) then map_option (\<lambda>f. f\<lparr>state := Kernel\<rparr>) (table ?fa q)
      else table ?fa q)"
    using mark_kernel_spec [of ?fa "reserved_pfns sm' rgn"] mark by simp_all
  have tab: "table fa q = (if ?b \<le> q \<and> q < ?b + ?n
      then Some (if q \<in> set (reserved_pfns sm' rgn) then frame_new\<lparr>state := Kernel\<rparr> else frame_new) else None)" for q
    unfolding fa(4) fresh by simp
  show dom: "dom (table fa) = {?b..<?b + ?n}"
    using fa(3) by (simp add: table_dom same_shape_def total_pages_def)
  show st: "st_of (table fa) q = Some (if q \<in> set (reserved_pfns sm' rgn) then Kernel else Uninitialized)"
    if "q \<in> dom (table fa)" for q
    using that unfolding dom by (simp add: st_of_def tab frame_new_def)
  have cases: "st_of (table fa) q \<in> {None, Some Kernel, Some Uninitialized}" for q
    using st [of q] by (cases "q \<in> dom (table fa)") (auto simp: st_of_def domIff split: if_splits)
  show head: "head (table fa) q = None" for q
    using cases [of q] by (auto simp: head_def)
  have link: "\<not> link f" if "table fa q = Some f" for q f
    using that by (auto simp: tab frame_new_def split: if_splits)
  have no_free: "st_of (table fa) q \<noteq> Some (Free k)" "st_of (table fa) q \<noteq> Some (AllocatedTail h)"
    "Option.bind (st_of (table fa) q) owned_order = None" for q k h
    using cases [of q] by auto
  show free: "free_set (table fa) = {}" by (auto simp: free_set_iff no_free)
  have "state f \<noteq> Free k" if "table fa q = Some f" for q f k
    using that no_free(1) [of q] by (auto simp: st_of_def)
  then have "fa_ok fa"
    using link by (auto simp: buddy_inv_def blocks_ok_def lists_ok_def tails_ok_def coalesced_def head no_free fa(1))
  moreover have "count_ok fa"
    using fa(2,3) bound by (simp add: count_ok_def free same_shape_def total_pages_def)
  ultimately show "fa_inv fa" by (simp add: fa_inv_def)
qed

section \<open>The free regions of memory\<close>

lemma iter_free_from_solid:
  "solid fs \<Longrightarrow> solid rs \<Longrightarrow> solid (iter_free_from fs rs) \<and> (\<forall>r \<in> set (iter_free_from fs rs). \<exists>f \<in> set fs. lo f \<le> lo r)"
proof (induction fs rs rule: iter_free_from.induct)
  case (2 f fs rs)
  let ?rs = "dropWhile (\<lambda>r. is_before r f) rs"
  have f: "valid f" "lo f < hi f" "solid fs" "\<forall>g \<in> set fs. hi f < lo g"
    using "2.prems"(1) by (simp_all add: solid_Cons)
  have solid: "solid ?rs" using "2.prems"(2) solid_append [of "takeWhile (\<lambda>r. is_before r f) rs" ?rs] by simp
  show ?case
  proof (cases ?rs)
    case Nil
    have "solid (iter_free_from fs [])" "\<forall>r \<in> set (iter_free_from fs []). \<exists>g \<in> set fs. lo g \<le> lo r"
      using "2.IH"(1) [OF Nil f(3)] by (auto simp: solid_def)
    then have "solid (f # iter_free_from fs [])" using f by (fastforce simp: solid_Cons)
    moreover have "iter_free_from (f # fs) rs = f # iter_free_from fs []" by (subst iter_free_from.simps) (simp add: Nil)
    ultimately show ?thesis using \<open>\<forall>r \<in> set (iter_free_from fs []). _\<close> by auto
  next
    case (Cons r rs')
    have r: "valid r" "lo r < hi r" "solid rs'" "solid (r # rs')" using solid Cons by (simp_all add: solid_Cons)
    have nb: "lo f < hi r" using Cons r(1) hd_dropWhile [of "\<lambda>r. is_before r f" rs] by (simp add: is_before_iff)
    show ?thesis
    proof (cases "is_after r f")
      case True
      note IH = "2.IH"(2) [OF Cons True f(3) r(4)]
      then have "solid (f # iter_free_from fs (r # rs'))" using f by (fastforce simp: solid_Cons)
      moreover have "iter_free_from (f # fs) rs = f # iter_free_from fs (r # rs')" by (subst iter_free_from.simps) (simp add: Cons True)
      ultimately show ?thesis using IH by auto
    next
      case False
      then have na: "lo r < hi f" using f(1) by (simp add: is_after_iff)
      let ?tail = "from_start_end_unchecked (end_address r) (end_address f)"
      let ?fs = "(if end_address r < end_address f then [?tail] else []) @ fs"
      let ?pre = "from_start_end_unchecked (start_address f) (start_address r)"
      have ends: "unat (end_address f) = hi f" "unat (end_address r) = hi r" using f r by (simp_all add: region_defs)
      have tail: "lo ?tail = hi r" "hi ?tail = hi f" "valid ?tail" if "hi r < hi f"
        using that from_start_end_unchecked_span [of "end_address r" "end_address f"] unfolding ends by auto
      have cond: "end_address r < end_address f \<longleftrightarrow> hi r < hi f" by (simp add: usize_arith ends)
      have fs': "solid ?fs" "\<forall>g \<in> set ?fs. hi r \<le> lo g \<and> lo f < lo g \<or> g \<in> set fs"
        using f tail nb by (auto simp: cond solid_Cons)
      have low: "hi r \<le> lo g \<or> hi f < lo g" if "g \<in> set ?fs" for g using fs'(2) f(4) that by blast
      have IH: "solid (iter_free_from ?fs rs') \<and> (\<forall>q \<in> set (iter_free_from ?fs rs'). \<exists>g \<in> set ?fs. lo g \<le> lo q)"
      proof (cases "start_address f < start_address r")
        case True
        show ?thesis by (rule "2.IH"(3) [OF Cons False True fs'(1) r(3)])
      next
        case pre: False
        show ?thesis
        proof (cases "end_address f \<le> end_address r")
          case True
          then have "?fs = fs" by simp
          then show ?thesis using "2.IH"(4) [OF Cons False pre True f(3) r(3)] by simp
        next
          case post: False
          then have fs: "?fs = ?tail # fs" by simp
          show ?thesis unfolding fs by (rule "2.IH"(5) [OF Cons False pre post fs'(1) [unfolded fs] r(3)])
        qed
      qed
      have above: "lo f < lo q \<and> (hi r \<le> lo q \<or> hi f < lo q)" if "q \<in> set (iter_free_from ?fs rs')" for q
      proof -
        obtain g where "g \<in> set ?fs" "lo g \<le> lo q" using IH \<open>q \<in> _\<close> by blast
        then show ?thesis using low [of g] nb f(2) by linarith
      qed
      have eq: "iter_free_from (f # fs) rs = (if start_address f < start_address r then [?pre] else []) @ iter_free_from ?fs rs'"
        by (subst iter_free_from.simps) (auto simp: Cons False)
      have pre: "lo ?pre = lo f" "hi ?pre = lo r" "valid ?pre" "lo ?pre < hi ?pre" if "start_address f < start_address r"
        using that from_start_end_unchecked_span [of "start_address f" "start_address r"] by (simp_all add: usize_arith region_defs)
      have "lo r < lo q" if "q \<in> set (iter_free_from ?fs rs')" for q using above [OF that] r(2) na by linarith
      then have "solid (iter_free_from (f # fs) rs)" unfolding eq using IH pre by (auto simp: solid_Cons)
      moreover have "lo f \<le> lo q" if "q \<in> set (iter_free_from (f # fs) rs)" for q
        using that pre(1) above unfolding eq by (auto split: if_splits intro: less_imp_le)
      ultimately show ?thesis by auto
    qed
  qed
qed (simp add: solid_def)

lemma interval_in_region:
  assumes "solid rs" "{x..<y} \<subseteq> bytes rs" "x < y"
  obtains r where "r \<in> set rs" "lo r \<le> x" "y \<le> hi r"
proof -
  obtain r where r: "r \<in> set rs" "lo r \<le> x" "x < hi r" using assms(2,3) by (force simp: bytes_def span_def)
  have "y \<le> hi r"
  proof (rule ccontr)
    assume "\<not> y \<le> hi r"
    then have "hi r \<in> bytes rs" using assms(2) r by auto
    then obtain q where q: "q \<in> set rs" "lo q \<le> hi r" "hi r < hi q" by (auto simp: bytes_def span_def)
    have "solid rs \<Longrightarrow> r \<in> set rs \<Longrightarrow> q \<in> set rs \<Longrightarrow> r = q \<or> hi r < lo q \<or> hi q < lo r"
      by (induction rs) (auto simp: solid_Cons)
    then show False using assms(1) r q by auto
  qed
  then show thesis using that r by blast
qed

section \<open>Populating several regions\<close>

definition pages_in :: "region \<Rightarrow> page_frame set" where
  "pages_in r = {p. lo r \<le> p * 4096 \<and> Suc p * 4096 \<le> hi r}"

definition blocks_in :: "frame_map \<Rightarrow> region \<Rightarrow> page_frame set" where
  "blocks_in F r = (\<Union>p \<in> {p. 2 ^ MAX_ORDER dvd p \<and> blk p MAX_ORDER \<subseteq> pages_in r \<and> st_of F p \<noteq> Some Kernel}. blk p MAX_ORDER)"

lemma blk_pages_in:
  "blk p MAX_ORDER \<subseteq> pages_in r \<longleftrightarrow> lo r \<le> p * 4096 \<and> (p + 2 ^ MAX_ORDER) * 4096 \<le> hi r"
proof
  assume sub: "blk p MAX_ORDER \<subseteq> pages_in r"
  have "p \<in> blk p MAX_ORDER" "p + 2 ^ MAX_ORDER - 1 \<in> blk p MAX_ORDER" by (auto simp: blk_def MAX_ORDER_def)
  then have "p \<in> pages_in r" "p + 2 ^ MAX_ORDER - 1 \<in> pages_in r" using sub by blast+
  then show "lo r \<le> p * 4096 \<and> (p + 2 ^ MAX_ORDER) * 4096 \<le> hi r" by (simp add: pages_in_def MAX_ORDER_def)
next
  assume "lo r \<le> p * 4096 \<and> (p + 2 ^ MAX_ORDER) * 4096 \<le> hi r"
  then show "blk p MAX_ORDER \<subseteq> pages_in r" by (auto simp: pages_in_def blk_def)
qed

lemma populate_free_region_spec:
  assumes inv: "fa_inv fa" and r: "hi r + 2 ^ 22 \<le> 2 ^ 64" and dom: "pages_in r \<subseteq> dom (table fa)"
    and heads: "\<forall>q j. head (table fa) q = Some j \<longrightarrow> blk q j \<inter> pages_in r = {}"
  shows "\<exists>fa'. populate_free_region fa r = Some fa' \<and> fa_inv fa' \<and>
    free_set (table fa') = free_set (table fa) \<union> blocks_in (table fa) r \<and> changed_in (pages_in r) (table fa) (table fa')"
proof -
  let ?a = "round_up (2 ^ 22) (lo r)" and ?e = "hi r div 4096"
  have valid: "valid r" using r by (simp add: valid_def)
  have pow: "is_power_of_two (push_bit (MAX_ORDER + PAGE_SHIFT) 1 :: usize)" "unat (push_bit (MAX_ORDER + PAGE_SHIFT) 1 :: usize) = 2 ^ 22"
    by (auto simp: is_power_of_two_iff MAX_ORDER_def PAGE_SHIFT_def intro!: exI [of _ 22])
  have "unat (start_address r) + (2 ^ 22 - 1) < 2 ^ 64"
    using r lo_le_hi [of r] unfolding unat_start_address by (simp del: lo_le_hi)
  then have al: "unat (align_up_bits (start_address r) (push_bit (MAX_ORDER + PAGE_SHIFT) 1)) = ?a"
    using unat_align_up_bits [OF pow(1), of "start_address r"] pow(2) by (simp add: unat_start_address)
  have pop: "populate_free_region fa r = (if hi r \<le> ?a then Some fa else populate_loop fa (?a div 4096) ?e)"
    using pow(1) al valid by (simp add: populate_free_region_def align_up_def usize_arith region_defs unat_to_pfn)
  obtain m where m: "?a = 2 ^ 22 * m" using dvd_round_up by (rule dvdE)
  have ge: "lo r \<le> ?a" by (simp add: round_up_ge)
  have block: "?a div 4096 \<le> p \<and> p + 2 ^ MAX_ORDER \<le> ?e \<longleftrightarrow> blk p MAX_ORDER \<subseteq> pages_in r" if "2 ^ MAX_ORDER dvd p" for p
  proof -
    have "2 ^ 22 dvd p * 4096" using that by (auto simp: MAX_ORDER_def elim!: dvdE)
    then have "lo r \<le> p * 4096 \<longleftrightarrow> ?a \<le> p * 4096" using round_up_least [of "2 ^ 22" "p * 4096" "lo r"] ge by auto
    moreover have "?a \<le> p * 4096 \<longleftrightarrow> ?a div 4096 \<le> p" unfolding m by simp
    moreover have "(p + 2 ^ MAX_ORDER) * 4096 \<le> hi r \<longleftrightarrow> p + 2 ^ MAX_ORDER \<le> ?e" by (simp add: less_eq_div_iff_mult_less_eq)
    ultimately show ?thesis unfolding blk_pages_in by blast
  qed
  have set_eq: "big_blocks (table fa) (?a div 4096) ?e = blocks_in (table fa) r"
    unfolding big_blocks_def blocks_in_def using block by (intro SUP_cong) auto
  have sub: "{?a div 4096..<?e} \<subseteq> pages_in r"
  proof
    fix p assume "p \<in> {?a div 4096..<?e}"
    then have "?a div 4096 \<le> p" "Suc p \<le> ?e" by auto
    then have "?a \<le> p * 4096" "Suc p * 4096 \<le> hi r" unfolding m by (simp_all add: less_eq_div_iff_mult_less_eq)
    then show "p \<in> pages_in r" using ge by (simp add: pages_in_def)
  qed
  show ?thesis
  proof (cases "hi r \<le> ?a")
    case True
    then have "?e \<le> ?a div 4096" by (rule div_le_mono)
    then have "blocks_in (table fa) r = {}" unfolding set_eq [symmetric] by (intro big_blocks_empty) (simp add: MAX_ORDER_def)
    with True pop inv show ?thesis by (simp add: changed_in_refl)
  next
    case False
    have dvd: "2 ^ MAX_ORDER dvd ?a div 4096" using m by (simp add: MAX_ORDER_def)
    have dom': "{?a div 4096..<?e} \<subseteq> dom (table fa)" using sub dom by blast
    have "\<forall>q j. head (table fa) q = Some j \<longrightarrow> blk q j \<inter> {?a div 4096..<?e} = {}" using heads sub by blast
    from populate_loop_spec [OF inv dvd dom' this] obtain fa' where "populate_loop fa (?a div 4096) ?e = Some fa'" "fa_inv fa'"
      "free_set (table fa') = free_set (table fa) \<union> blocks_in (table fa) r"
      "changed_in {?a div 4096..<?e} (table fa) (table fa')" unfolding set_eq by blast
    then show ?thesis using pop False changed_in_mono [OF _ sub] by simp
  qed
qed

lemma populate_all_spec:
  assumes "fa_inv fa" and "solid rs" and "\<forall>r \<in> set rs. hi r + 2 ^ 22 \<le> 2 ^ 64 \<and> pages_in r \<subseteq> dom (table fa)"
    and "\<forall>r \<in> set rs. \<forall>q j. head (table fa) q = Some j \<longrightarrow> blk q j \<inter> pages_in r = {}"
  shows "\<exists>fa'. populate_all fa rs = Some fa' \<and> fa_inv fa' \<and>
    free_set (table fa') = free_set (table fa) \<union> (\<Union>r \<in> set rs. blocks_in (table fa) r)"
  using assms
proof (induction rs arbitrary: fa)
  case (Cons r rs)
  obtain fa1 where fa1: "populate_free_region fa r = Some fa1" "fa_inv fa1"
    "free_set (table fa1) = free_set (table fa) \<union> blocks_in (table fa) r" "changed_in (pages_in r) (table fa) (table fa1)"
  proof -
    have "hi r + 2 ^ 22 \<le> 2 ^ 64" "pages_in r \<subseteq> dom (table fa)" using Cons.prems(3) by simp_all
    moreover have "\<forall>q j. head (table fa) q = Some j \<longrightarrow> blk q j \<inter> pages_in r = {}" by (rule bspec [OF Cons.prems(4)]) simp
    ultimately show thesis using populate_free_region_spec [OF Cons.prems(1)] that by blast
  qed
  have dom: "dom (table fa1) = dom (table fa)" and same: "\<And>q. q \<notin> pages_in r \<Longrightarrow> table fa1 q = table fa q"
    and heads: "\<And>q j. head (table fa1) q = Some j \<Longrightarrow> head (table fa) q = Some j \<or> blk q j \<subseteq> pages_in r"
    using fa1(4) by (simp_all add: changed_in_def)
  have apart: "pages_in r \<inter> pages_in q = {}" if "q \<in> set rs" for q
  proof -
    have "hi r < lo q" using Cons.prems(2) that by (simp add: solid_Cons)
    then show ?thesis by (auto simp: pages_in_def)
  qed
  have "blocks_in (table fa1) q = blocks_in (table fa) q" if "q \<in> set rs" for q
  proof -
    have "st_of (table fa1) p = st_of (table fa) p" if "blk p MAX_ORDER \<subseteq> pages_in q" for p
    proof -
      have "p \<in> blk p MAX_ORDER" by (simp add: blk_def)
      then have "p \<notin> pages_in r" using that apart [OF \<open>q \<in> set rs\<close>] by blast
      then show ?thesis using same by (simp add: st_of_def)
    qed
    then show ?thesis unfolding blocks_in_def by (intro SUP_cong) auto
  qed
  moreover have "\<forall>q \<in> set rs. \<forall>p j. head (table fa1) p = Some j \<longrightarrow> blk p j \<inter> pages_in q = {}"
  proof (intro ballI allI impI)
    fix q p j assume q: "q \<in> set rs" and "head (table fa1) p = Some j"
    then have "head (table fa) p = Some j \<or> blk p j \<subseteq> pages_in r" using heads by blast
    moreover have "head (table fa) p = Some j \<Longrightarrow> blk p j \<inter> pages_in q = {}"
      using bspec [OF Cons.prems(4), of q] q by simp
    ultimately show "blk p j \<inter> pages_in q = {}" using apart [OF q] by blast
  qed
  moreover have "\<forall>q \<in> set rs. hi q + 2 ^ 22 \<le> 2 ^ 64 \<and> pages_in q \<subseteq> dom (table fa1)" using Cons.prems(3) dom by simp
  moreover have "solid rs" using Cons.prems(2) by (simp add: solid_Cons)
  ultimately obtain fa' where "populate_all fa1 rs = Some fa'" "fa_inv fa'"
    "free_set (table fa') = free_set (table fa1) \<union> (\<Union>q \<in> set rs. blocks_in (table fa) q)"
    using Cons.IH [OF fa1(2)] by (auto cong: SUP_cong)
  then show ?case using fa1(1,3) by (simp add: Un_assoc)
qed simp


section \<open>Initialising the allocator\<close>

lemma reserved_pfn_byte:
  assumes ok: "\<forall>r \<in> set (regions (res sm)). valid r" and p: "p \<in> set (reserved_pfns sm rgn)"
  obtains b where "b \<in> res_bytes sm" "b div 4096 = p"
proof -
  obtain r k where r: "r \<in> set (regions (res sm))" and k: "k < unat (drop_bit PAGE_SHIFT (rsize r))"
    and p': "p = unat (to_pfn (start_address r) + of_nat k)"
    using p by (auto simp: reserved_pfns_def iter_pfns_def)
  have "unat (drop_bit PAGE_SHIFT (rsize r)) = unat (rsize r) div 4096" by (simp add: PAGE_SHIFT_def drop_bit_eq_div unat_div_distrib)
  then have "Suc k \<le> unat (rsize r) div 4096" using k by simp
  then have "Suc k * 4096 \<le> unat (rsize r)" by (simp only: less_eq_div_iff_mult_less_eq)
  then have lt: "k * 4096 < unat (rsize r)" by simp
  have pfn: "unat (to_pfn (start_address r)) = lo r div 4096" by (simp add: unat_to_pfn unat_start_address)
  have hi: "hi r = lo r + unat (rsize r)" "hi r < 2 ^ 64" using ok r by (auto simp: hi_def lo_def valid_def)
  then have "lo r div 4096 + k < 2 ^ 64" using lt div_le_dividend [of "lo r" 4096] by linarith
  then have "p = lo r div 4096 + k" unfolding p' using pfn by (subst unat_add_usize) (simp_all add: unat_of_nat)
  moreover have "lo r + k * 4096 \<in> span r" using lt hi(1) by (simp add: span_def)
  then have "lo r + k * 4096 \<in> res_bytes sm" using r by (auto simp only: bytes_def)
  ultimately show thesis using that [of "lo r + k * 4096"] by simp
qed

lemma setup_region:
  assumes built: "fa_setup tr fsz fal sm rgn = Some (fa0, sm')" and rgn: "hi rgn + 2 ^ 22 \<le> 2 ^ 64" "4096 dvd lo rgn"
  shows "fa_inv fa0" "free_set (table fa0) = {}" "\<And>q. head (table fa0) q = None" "dom (table fa0) = pages_in rgn"
    "\<And>q. q \<in> pages_in rgn \<Longrightarrow> st_of (table fa0) q = Some (if q \<in> set (reserved_pfns sm' rgn) then Kernel else Uninitialized)"
proof -
  have base: "unat (to_pfn (start_address rgn)) = lo rgn div 4096" by (simp add: unat_to_pfn unat_start_address)
  have "unat (drop_bit PAGE_SHIFT (rsize rgn)) = unat (rsize rgn) div 4096"
    by (simp add: PAGE_SHIFT_def drop_bit_eq_div unat_div_distrib)
  then have range: "unat (to_pfn (start_address rgn)) + unat (drop_bit PAGE_SHIFT (rsize rgn)) = hi rgn div 4096"
    using rgn(2) unfolding base by (simp add: hi_def lo_def div_plus_div_distrib_dvd_left)
  moreover have "hi rgn div 4096 \<le> 2 ^ 52" using rgn(1) by simp
  ultimately have bound: "unat (to_pfn (start_address rgn)) + unat (drop_bit PAGE_SHIFT (rsize rgn)) \<le> 2 ^ 52" by simp
  obtain m where m: "lo rgn = 4096 * m" using rgn(2) by (rule dvdE)
  have "pages_in rgn = {lo rgn div 4096..<hi rgn div 4096}"
    by (auto simp: pages_in_def m less_eq_div_iff_mult_less_eq Suc_le_eq [symmetric] simp del: mult_Suc)
  then show "dom (table fa0) = pages_in rgn" using fa_setup_spec(4) [OF built bound] range unfolding base by simp
  then show "\<And>q. q \<in> pages_in rgn \<Longrightarrow> st_of (table fa0) q = Some (if q \<in> set (reserved_pfns sm' rgn) then Kernel else Uninitialized)"
    using fa_setup_spec(5) [OF built bound] by simp
  show "fa_inv fa0" "free_set (table fa0) = {}" "\<And>q. head (table fa0) q = None" using fa_setup_spec(1-3) [OF built bound] by simp_all
qed

text \<open>The frames of the naturally aligned blocks of the highest order all of whose bytes are in \<open>B\<close>.\<close>

definition whole_blocks :: "nat set \<Rightarrow> page_frame set" where
  "whole_blocks B = (\<Union>p \<in> {p. 2 ^ MAX_ORDER dvd p \<and> {p * 4096..<(p + 2 ^ MAX_ORDER) * 4096} \<subseteq> B}. blk p MAX_ORDER)"

lemma blocks_in_regions:
  assumes rs: "solid rs" and B: "bytes rs = B" and free: "\<And>p r. r \<in> set rs \<Longrightarrow> blk p MAX_ORDER \<subseteq> pages_in r \<Longrightarrow> st_of F p \<noteq> Some Kernel"
  shows "(\<Union>r \<in> set rs. blocks_in F r) = whole_blocks B"
proof -
  have iff: "(\<exists>r \<in> set rs. blk p MAX_ORDER \<subseteq> pages_in r) \<longleftrightarrow> {p * 4096..<(p + 2 ^ MAX_ORDER) * 4096} \<subseteq> B" for p
  proof
    assume "\<exists>r \<in> set rs. blk p MAX_ORDER \<subseteq> pages_in r"
    then obtain r where "r \<in> set rs" "lo r \<le> p * 4096" "(p + 2 ^ MAX_ORDER) * 4096 \<le> hi r" unfolding blk_pages_in by blast
    then have "{p * 4096..<(p + 2 ^ MAX_ORDER) * 4096} \<subseteq> span r" "span r \<subseteq> B" using B by (auto simp: span_def bytes_def)
    then show "{p * 4096..<(p + 2 ^ MAX_ORDER) * 4096} \<subseteq> B" by blast
  next
    assume sub: "{p * 4096..<(p + 2 ^ MAX_ORDER) * 4096} \<subseteq> B"
    obtain r where "r \<in> set rs" "lo r \<le> p * 4096" "(p + 2 ^ MAX_ORDER) * 4096 \<le> hi r"
      using interval_in_region [OF rs sub [folded B]] by auto
    then show "\<exists>r \<in> set rs. blk p MAX_ORDER \<subseteq> pages_in r" unfolding blk_pages_in by blast
  qed
  have "(\<Union>r \<in> set rs. blocks_in F r) =
      (\<Union>p \<in> {p. 2 ^ MAX_ORDER dvd p \<and> (\<exists>r \<in> set rs. blk p MAX_ORDER \<subseteq> pages_in r)}. blk p MAX_ORDER)"
    unfolding blocks_in_def using free by blast
  then show ?thesis unfolding iff whole_blocks_def .
qed

lemma solid_bounds:
  assumes "solid ms" "r \<in> set ms"
  shows "lo (hd ms) \<le> lo r" "hi r \<le> hi (last ms)"
proof -
  show "lo (hd ms) \<le> lo r" using assms by (induction ms) (fastforce simp: solid_Cons)+
  show "hi r \<le> hi (last ms)"
    using assms
  proof (induction ms)
    case (Cons m ms)
    have "hi m \<le> hi (last ms)" if "ms \<noteq> []"
    proof -
      have "hi m < lo (last ms)" using Cons.prems(1) that by (simp add: solid_Cons)
      then show ?thesis using lo_le_hi [of "last ms"] by linarith
    qed
    then show ?case using Cons by (auto simp: solid_Cons)
  qed simp
qed

lemma frame_alloc_init_eq:
  assumes ms: "regions (memory sm) = m # ms" "solid (m # ms)" and few: "length (m # ms) \<le> unat (rl_max (memory sm))"
    and sz: "sz = of_nat ((hi (last (m # ms)) - lo m) div 4096) * fsz"
    and meta: "smalloc_alloc tr sm sz fal = Some (Inr a, sm')"
  obtains fa0 where "fa_setup tr fsz fal sm (region_of (lo m) (hi (last (m # ms)))) = Some (fa0, sm')"
    "frame_alloc_init tr fsz fal sm = populate_all fa0 (iter_free sm')"
proof -
  let ?l = "last (m # ms)" and ?r = "region_of (lo m) (hi (last (m # ms)))"
  have l: "?l \<in> set (m # ms)" by (rule last_in_set) simp
  have "length (m # ms) < 2 ^ 64" using le_less_trans [OF few unat_usize_less] by simp
  then have "unat (of_nat (length (m # ms)) :: usize) = length (m # ms)" by (simp only: unat_of_nat) simp
  then have cnt: "(of_nat (length (m # ms)) :: usize) \<noteq> 0" by (metis length_0_conv list.distinct(1) unat_0)
  have vl: "valid ?l" using ms(2) l by (auto simp: solid_def separated_def list_all_iff)
  have le: "lo m \<le> hi ?l" using order.trans [OF solid_bounds(1) [OF ms(2) l] lo_le_hi] by (simp only: list.sel)
  have h: "hi ?l < 2 ^ 64" using vl by (simp add: valid_def)
  have r: "from_start_end_address (start_address m) (end_address ?l) = Some ?r"
    using le unat_end_address [OF vl] by (simp add: from_start_end_address_eq unat_start_address)
  have "unat (rsize ?r) = hi ?l - lo m" using le h by (simp add: region_of_def unat_sub_usize unat_of_nat)
  then have "drop_bit PAGE_SHIFT (rsize ?r) = of_nat ((hi ?l - lo m) div 4096)"
    by (intro word_unat_eq_iff [THEN iffD2]) (use h in \<open>simp add: PAGE_SHIFT_def drop_bit_eq_div unat_div_distrib unat_of_nat\<close>)
  then have "sz = drop_bit PAGE_SHIFT (rsize ?r) * fsz" using sz by simp
  then obtain fa0 where fa0: "fa_setup tr fsz fal sm ?r = Some (fa0, sm')"
    using meta mark_kernel_spec by (fastforce simp: fa_setup_def Let_def)
  moreover have "frame_alloc_init tr fsz fal sm = populate_all fa0 (iter_free sm')"
    using ms(1) cnt r fa0 by (simp add: frame_alloc_init_def base_ram_base_address_def rl_is_empty_def count_def)
  ultimately show thesis using that by blast
qed

text \<open>
  Claim C28. The initialisation of the frame allocator, on a well-formed boot allocator whose memory starts at
  a page boundary and ends at least one largest block below the end of the address space, and which
  has room for the metadata (two spare reservations, a positive size, no wrap-around) and finds it: provided no reservation reaches from
  one memory region into another, it does not panic and gives an allocator that satisfies its
  invariant. The free frames are exactly those of the naturally aligned blocks of the highest order
  all of whose bytes are memory and not reserved, the metadata included in the reservations. So no
  reserved byte is ever handed out.
\<close>

theorem init_frees_unreserved:
  assumes inv: "smalloc_inv sm" and ms: "regions (memory sm) = m # ms" "4096 dvd lo m" "hi (last (m # ms)) + 2 ^ 22 \<le> 2 ^ 64"
    and sz: "sz = of_nat ((hi (last (m # ms)) - lo m) div 4096) * fsz" "0 < unat sz"
    and room: "headroom sm (unat sz) (unat fal)" "4096 + unat fal + unat sz \<le> 2 ^ 64" "is_power_of_two fal"
      "Suc (Suc (length (regions (res sm)))) < unat (rl_max (res sm))"
    and meta: "smalloc_alloc tr sm sz fal = Some (Inr a, sm')" and one: "one_each (regions (memory sm)) (regions (res sm'))"
  shows "\<exists>fa. frame_alloc_init tr fsz fal sm = Some fa \<and> fa_inv fa \<and> free_set (table fa) = whole_blocks (mem_bytes sm - res_bytes sm') \<and>
    res_bytes sm \<union> {unat a..<unat a + unat sz} \<subseteq> res_bytes sm'"
proof -
  obtain N where sm': "smalloc_inv sm'" "memory sm' = memory sm" "res_bytes sm' = res_bytes sm \<union> N \<union> {unat a..<unat a + unat sz}"
    using smalloc_alloc_run [OF inv room(1-3) sz(2) room(4), of tr] meta by auto
  have solid: "solid (m # ms)" "solid (regions (res sm'))" using inv sm'(1) ms(1) by (auto simp: smalloc_inv_def rl_inv_def solid_def)
  have "length (m # ms) \<le> unat (rl_max (memory sm))" using inv ms(1) by (simp add: smalloc_inv_def rl_inv_def)
  then obtain fa0 where fa0: "fa_setup tr fsz fal sm (region_of (lo m) (hi (last (m # ms)))) = Some (fa0, sm')"
    "frame_alloc_init tr fsz fal sm = populate_all fa0 (iter_free sm')" using frame_alloc_init_eq [OF ms(1) solid(1) _ sz(1) meta] by blast
  let ?h = "hi (last (m # ms))" and ?r = "region_of (lo m) (hi (last (m # ms)))" and ?rs = "iter_free sm'"
  have l: "last (m # ms) \<in> set (m # ms)" by (rule last_in_set) simp
  have "lo m \<le> ?h" using order.trans [OF solid_bounds(1) [OF solid(1) l] lo_le_hi] by (simp only: list.sel)
  then have r: "lo ?r = lo m" "hi ?r = ?h" using ms(3) by simp_all
  note su = setup_region [OF fa0(1), unfolded r, OF ms(3,2)]
  have rs: "solid ?rs" using iter_free_from_solid [OF solid] sm'(2) ms(1) by (simp add: iter_free_def)
  have B: "bytes ?rs = mem_bytes sm - res_bytes sm'"
    using iter_free_from_bytes [OF solid] one sm'(2) ms(1) by (simp add: iter_free_def)
  have inside: "lo m \<le> lo q \<and> hi q \<le> ?h" if "q \<in> set ?rs" for q
  proof -
    have q: "lo q < hi q" using rs that by (simp add: solid_def)
    then have "lo q \<in> span q" "hi q - 1 \<in> span q" by (auto simp: span_def)
    moreover have "span q \<subseteq> mem_bytes sm" using that B by (auto simp only: bytes_def)
    ultimately have "lo q \<in> mem_bytes sm" "hi q - 1 \<in> mem_bytes sm" by blast+
    then obtain f g where "f \<in> set (m # ms)" "lo f \<le> lo q" "g \<in> set (m # ms)" "hi q - 1 < hi g"
      unfolding ms(1) by (auto simp: bytes_def span_def)
    then show ?thesis using solid_bounds(1) [OF solid(1), of f] solid_bounds(2) [OF solid(1), of g] q unfolding list.sel by linarith
  qed
  have "\<forall>q \<in> set ?rs. hi q + 2 ^ 22 \<le> 2 ^ 64 \<and> pages_in q \<subseteq> dom (table fa0)"
  proof
    fix q assume q: "q \<in> set ?rs"
    then have "pages_in q \<subseteq> pages_in ?r" using inside [OF q] unfolding pages_in_def r by auto
    then show "hi q + 2 ^ 22 \<le> 2 ^ 64 \<and> pages_in q \<subseteq> dom (table fa0)" using inside [OF q] ms(3) su(4) by auto
  qed
  then obtain fa where fa: "populate_all fa0 ?rs = Some fa" "fa_inv fa" "free_set (table fa) = (\<Union>q \<in> set ?rs. blocks_in (table fa0) q)"
    using populate_all_spec [OF su(1) rs] su(2,3) by auto
  have "st_of (table fa0) p \<noteq> Some Kernel" if q: "q \<in> set ?rs" and p: "blk p MAX_ORDER \<subseteq> pages_in q" for p q
  proof -
    have "p \<in> pages_in q" using p by (auto simp: blk_def)
    then have pq: "lo q \<le> p * 4096" "Suc p * 4096 \<le> hi q" by (simp_all add: pages_in_def)
    then have "p \<in> pages_in ?r" using inside [OF q] unfolding pages_in_def r by auto
    moreover have "p \<notin> set (reserved_pfns sm' ?r)"
    proof
      assume "p \<in> set (reserved_pfns sm' ?r)"
      then obtain b where b: "b \<in> res_bytes sm'" "b div 4096 = p"
        using reserved_pfn_byte [of sm' p ?r] solid(2) by (auto simp: solid_def separated_def list_all_iff)
      then have "p * 4096 \<le> b" "b < Suc p * 4096" by auto
      then have "b \<in> span q" using pq by (simp add: span_def)
      then have "b \<in> bytes ?rs" using q by (auto simp only: bytes_def)
      then show False using b(1) B by blast
    qed
    ultimately show ?thesis using su(5) by simp
  qed
  from blocks_in_regions [OF rs B this] fa fa0(2) sm'(3) show ?thesis by auto
qed

text \<open>
  Eight megabytes of memory with the kernel in its first page. The metadata follows the kernel, so that
  the first block of four megabytes is not free and the second one is.
\<close>

definition boot :: smalloc where
  "boot = smalloc_new \<lparr>rl_max = 8, rl_ptr = 0, regions = [rnew 0x400000 0x800000]\<rparr>
     \<lparr>rl_max = 8, rl_ptr = 0, regions = [rnew 0x400000 0x1000]\<rparr>"

theorem init_frees_unreserved_witness:
  "\<exists>fa. frame_alloc_init IdentityTranslator 64 8 boot = Some fa \<and> fa_inv fa \<and> 0x800 \<in> free_set (table fa) \<and> 0x401 \<notin> free_set (table fa)"
proof -
  define sm' where "sm' = boot\<lparr>res := \<lparr>rl_max = 8, rl_ptr = 0, regions = [rnew 0x400000 0x21000]\<rparr>\<rparr>"
  have meta: "smalloc_alloc IdentityTranslator boot 0x20000 8 = Some (Inr 0x401000, sm')" unfolding sm'_def by code_simp
  have ms: "regions (memory boot) = rnew 0x400000 0x800000 # []" by (simp add: boot_def smalloc_new_def)
  have inv: "smalloc_inv boot" "headroom boot (unat (0x20000 :: usize)) (unat (8 :: usize))"
    by (simp_all add: boot_def smalloc_inv_def headroom_def roomy_def rl_inv_def smalloc_new_def valid_def lo_def hi_def)
  have pow: "is_power_of_two (8 :: usize)" unfolding is_power_of_two_iff by (rule exI [of _ 3]) simp
  have sz: "(0x20000 :: usize) = of_nat ((hi (last [rnew 0x400000 0x800000]) - lo (rnew 0x400000 0x800000)) div 4096) * 64"
    by (simp add: hi_def lo_def)
  have one: "one_each (regions (memory boot)) (regions (res sm'))" by (simp add: ms one_each_def)
  have al: "4096 dvd lo (rnew 0x400000 0x800000)" "hi (last [rnew 0x400000 0x800000]) + 2 ^ 22 \<le> 2 ^ 64" by (simp_all add: lo_def hi_def)
  obtain fa where fa: "frame_alloc_init IdentityTranslator 64 8 boot = Some fa" "fa_inv fa"
    "free_set (table fa) = whole_blocks (mem_bytes boot - res_bytes sm')"
    using init_frees_unreserved [OF inv(1) ms al sz _ inv(2) _ pow _ meta one] by (auto simp: boot_def smalloc_new_def)
  have free: "mem_bytes boot - res_bytes sm' = {0x421000..<0xC00000}"
    by (auto simp: ms sm'_def bytes_def span_def lo_def hi_def)
  have "0x800 \<in> free_set (table fa)"
    unfolding fa(3) free whole_blocks_def by (auto simp: MAX_ORDER_def blk_def intro!: exI [of _ "0x800"])
  moreover have "0x401 \<notin> free_set (table fa)"
  proof
    assume "0x401 \<in> free_set (table fa)"
    then obtain p :: nat where "{p * 4096..<(p + 2 ^ MAX_ORDER) * 4096} \<subseteq> {0x421000..<0xC00000}" "p \<le> 0x401"
      unfolding fa(3) free whole_blocks_def by (auto simp: blk_def)
    then show False by (auto simp: MAX_ORDER_def subset_iff dest!: spec [of _ "p * 4096"])
  qed
  ultimately show ?thesis using fa by blast
qed

section \<open>Initialisation over one region\<close>

text \<open>
  \<open>init_from_region\<close> populates a region that may hold reservations, and only the first frame of a block
  is looked at. A reserved frame further inside a block whose first frame is not reserved becomes
  free, and can be handed out.
\<close>

lemma populate_frees_reserved_frames:
  assumes built: "fa_setup tr fsz fal sm rgn = Some (fa0, sm')" and rgn: "hi rgn + 2 ^ 22 \<le> 2 ^ 64" "4096 dvd lo rgn"
    and run: "populate_free_region fa0 rgn = Some fa" and p: "2 ^ MAX_ORDER dvd p" "blk p MAX_ORDER \<subseteq> pages_in rgn"
    and "p \<notin> set (reserved_pfns sm' rgn)" and "q \<in> set (reserved_pfns sm' rgn)" and q: "q \<in> blk p MAX_ORDER"
  shows "q \<in> free_set (table fa)"
proof -
  note su = setup_region [OF built rgn]
  have "p \<in> pages_in rgn" using p(2) by (auto simp: blk_def)
  then have "q \<in> blocks_in (table fa0) rgn" using su(5) assms(7) p q by (auto simp: blocks_in_def)
  then show ?thesis using populate_free_region_spec [OF su(1) rgn(1)] su(3,4) run by auto
qed

end
