(* ===== verification/Slab_Alloc.thy ===== *)
theory Slab_Alloc
  imports Frame_Alloc
begin

text \<open>
  The slab allocator and the kernel heap: \<^verbatim>\<open>slab/allocator.rs\<close>, \<^verbatim>\<open>slab/cache.rs\<close> and
  \<^verbatim>\<open>slab/heap.rs\<close> under \<^verbatim>\<open>libkernel/src/memory/allocators\<close>. A manager holds the slabs
  of one size class; slabs live in the frame table of the frame allocator, so a manager operation
  works on a \<open>heap\<close>: the frame allocator and the memory that holds the free lists of the slabs.
  The manager's own \<open>FrameList\<close> is a pointer to the same table. \<open>None\<close> is a panic.
\<close>

section \<open>Slab managers\<close>

record heap =
  hp_fa :: frame_alloc
  hp_mem :: obj_mem

record slab_manager =
  sm_free :: "page_frame list"
  sm_partial :: "page_frame list"
  free_list_sz :: nat
  sm_obj_shift :: nat

definition MAX_FREE_SLABS :: nat where
  "MAX_FREE_SLABS = 32"

definition slab_manager_new :: "nat \<Rightarrow> slab_manager" where
  "slab_manager_new shift = \<lparr>sm_free = [], sm_partial = [], free_list_sz = 0, sm_obj_shift = shift\<rparr>"

text \<open>
  The operations of an intrusive list that the manager uses. Removing goes through a
  pointer into the list: removing a frame that is on no list is undefined, and is \<open>None\<close> here.
\<close>

definition link_front :: "page_frame \<Rightarrow> page_frame list \<Rightarrow> heap \<Rightarrow> (page_frame list \<times> heap) option" where
  "link_front p ps h =
     do {
       linked \<leftarrow> is_linked (hp_fa h) p;
       if linked then None
       else map_option (\<lambda>fa. (p # ps, h\<lparr>hp_fa := fa\<rparr>)) (set_link (hp_fa h) p True)
     }"

definition unlink :: "page_frame \<Rightarrow> heap \<Rightarrow> heap option" where
  "unlink p h = map_option (\<lambda>fa. h\<lparr>hp_fa := fa\<rparr>) (set_link (hp_fa h) p False)"

definition hp_set_slab :: "heap \<Rightarrow> page_frame \<Rightarrow> slab \<Rightarrow> heap option" where
  "hp_set_slab h p s = map_option (\<lambda>fa. h\<lparr>hp_fa := fa\<rparr>) (set_state (hp_fa h) p (Slab s))"

text \<open>The part of \<open>try_alloc\<close> that takes an object from a frame that was just popped.\<close>

definition alloc_from_frame ::
  "slab_manager \<Rightarrow> heap \<Rightarrow> page_frame \<Rightarrow> (addr option \<times> slab_manager \<times> heap) option" where
  "alloc_from_frame m h p =
     do {
       st \<leftarrow> fa_state (hp_fa h) p;
       (case st of
          Slab s \<Rightarrow>
            do {
              (obj, s) \<leftarrow> alloc_object s (hp_mem h);
              h \<leftarrow> hp_set_slab h p s;
              (case obj of
                 None \<Rightarrow> Some (None, m, h)
               | Some ptr \<Rightarrow>
                   if slab_state s = SlabPartial
                   then map_option (\<lambda>(ps, h). (Some ptr, m\<lparr>sm_partial := ps\<rparr>, h)) (link_front p (sm_partial m) h)
                   else Some (Some ptr, m, h))
            }
        | _ \<Rightarrow> Some (None, m, h))
     }"

definition try_alloc_free :: "slab_manager \<Rightarrow> heap \<Rightarrow> (addr option \<times> slab_manager \<times> heap) option" where
  "try_alloc_free m h =
     (case sm_free m of
        [] \<Rightarrow> Some (None, m, h)
      | p # rest \<Rightarrow>
          do {
            h \<leftarrow> unlink p h;
            (obj, m, h) \<leftarrow> alloc_from_frame (m\<lparr>sm_free := rest, free_list_sz := free_list_sz m - 1\<rparr>) h p;
            (case obj of None \<Rightarrow> None | Some ptr \<Rightarrow> Some (Some ptr, m, h))
          })"

definition try_alloc :: "slab_manager \<Rightarrow> heap \<Rightarrow> (addr option \<times> slab_manager \<times> heap) option" where
  "try_alloc m h =
     (case sm_partial m of
        [] \<Rightarrow> try_alloc_free m h
      | p # rest \<Rightarrow>
          do {
            h \<leftarrow> unlink p h;
            (obj, m, h) \<leftarrow> alloc_from_frame (m\<lparr>sm_partial := rest\<rparr>) h p;
            (case obj of None \<Rightarrow> try_alloc_free m h | Some ptr \<Rightarrow> Some (Some ptr, m, h))
          })"

definition sm_alloc :: "translator \<Rightarrow> slab_manager \<Rightarrow> heap \<Rightarrow> (addr \<times> slab_manager \<times> heap) option" where
  "sm_alloc tr m h =
     do {
       (obj, m, h) \<leftarrow> try_alloc m h;
       (case obj of
          Some ptr \<Rightarrow> Some (ptr, m, h)
        | None \<Rightarrow>
            do {
              (r, fa) \<leftarrow> alloc_frames (hp_fa h) SLAB_FRAME_ALLOC_ORDER;
              (case r of
                 Inl _ \<Rightarrow> None
               | Inr rgn \<Rightarrow>
                   do {
                     (s, mem) \<leftarrow> slab_new (phys_to_virt tr) (hp_mem h) rgn (sm_obj_shift m);
                     (obj, s) \<leftarrow> alloc_object s mem;
                     ptr \<leftarrow> obj;
                     (p, fa) \<leftarrow> into_slab fa rgn s;
                     let h = \<lparr>hp_fa = fa, hp_mem = mem\<rparr>;
                     if slab_state s = SlabPartial
                     then map_option (\<lambda>(ps, h). (ptr, m\<lparr>sm_partial := ps\<rparr>, h)) (link_front p (sm_partial m) h)
                     else Some (ptr, m, h)
                   })
            })
     }"

text \<open>\<open>do_free_obj\<close>: follow the tail frames to the slab that holds the object, and put it back.\<close>

partial_function (option) do_free_obj ::
  "heap \<Rightarrow> page_frame \<Rightarrow> addr \<Rightarrow> nat \<Rightarrow> (page_frame \<times> SlabState \<times> heap) option" where
  "do_free_obj h p ptr shift =
     (case fa_state (hp_fa h) p of
        Some (AllocatedTail hd_pfn) \<Rightarrow> do_free_obj h hd_pfn ptr shift
      | Some (Slab s) \<Rightarrow>
          if obj_shift s \<noteq> shift then None
          else
            do {
              (s, mem) \<leftarrow> put_object s (hp_mem h) ptr;
              h \<leftarrow> hp_set_slab (h\<lparr>hp_mem := mem\<rparr>) p s;
              Some (p, slab_state s, h)
            }
      | _ \<Rightarrow> None)"

declare do_free_obj.simps [code]

fun free_slabs :: "nat \<Rightarrow> page_frame list \<Rightarrow> heap \<Rightarrow> (page_frame list \<times> heap) option" where
  "free_slabs 0 ps h = Some (ps, h)"
| "free_slabs (Suc n) [] h = None"
| "free_slabs (Suc n) (p # ps) h =
     do {
       h \<leftarrow> unlink p h;
       fa \<leftarrow> free_slab (hp_fa h) p;
       free_slabs n ps (h\<lparr>hp_fa := fa\<rparr>)
     }"

definition sm_free_obj :: "translator \<Rightarrow> slab_manager \<Rightarrow> heap \<Rightarrow> addr \<Rightarrow> (slab_manager \<times> heap) option" where
  "sm_free_obj tr m h ptr =
     do {
       (p, st, h) \<leftarrow> do_free_obj h (unat (to_pfn (virt_to_phys tr ptr))) ptr (sm_obj_shift m);
       linked \<leftarrow> is_linked (hp_fa h) p;
       (case st of
          SlabFree \<Rightarrow>
            do {
              (m, h) \<leftarrow> (if free_list_sz m = MAX_FREE_SLABS
                        then map_option
                               (\<lambda>(ps, h). (m\<lparr>sm_free := ps, free_list_sz := free_list_sz m - MAX_FREE_SLABS div 2\<rparr>, h))
                               (free_slabs (MAX_FREE_SLABS div 2) (sm_free m) h)
                        else Some (m, h));
              (m, h) \<leftarrow> (if linked
                        then if p \<in> set (sm_partial m)
                             then map_option (\<lambda>h. (m\<lparr>sm_partial := remove1 p (sm_partial m)\<rparr>, h)) (unlink p h)
                             else None
                        else Some (m, h));
              (ps, h) \<leftarrow> link_front p (sm_free m) h;
              Some (m\<lparr>sm_free := ps, free_list_sz := free_list_sz m + 1\<rparr>, h)
            }
        | SlabPartial \<Rightarrow>
            if linked then Some (m, h)
            else map_option (\<lambda>(ps, h). (m\<lparr>sm_partial := ps\<rparr>, h)) (link_front p (sm_partial m) h)
        | SlabFull \<Rightarrow> None)
     }"

definition slab_allocator_new :: "slab_manager list" where
  "slab_allocator_new = map slab_manager_new [0..<SLAB_MAX_OBJ_SHIFT + 1]"

definition allocator_for_layout :: "layout \<Rightarrow> nat option option" where
  "allocator_for_layout l = alloc_order l"

section \<open>Per-CPU caches\<close>

definition PTRS_PER_SZ_CLASS :: nat where
  "PTRS_PER_SZ_CLASS = 32"

record ptr_cache =
  pc_next_free :: nat
  pc_ptrs :: "addr list"

definition ptr_cache_new :: ptr_cache where
  "ptr_cache_new = \<lparr>pc_next_free = 0, pc_ptrs = replicate PTRS_PER_SZ_CLASS 0\<rparr>"

definition pc_is_empty :: "ptr_cache \<Rightarrow> bool" where
  "pc_is_empty c \<longleftrightarrow> pc_next_free c = 0"

definition pc_is_full :: "ptr_cache \<Rightarrow> bool" where
  "pc_is_full c \<longleftrightarrow> pc_next_free c = PTRS_PER_SZ_CLASS"

definition pc_push :: "ptr_cache \<Rightarrow> addr \<Rightarrow> ptr_cache option" where
  "pc_push c ptr =
     (if pc_next_free c < length (pc_ptrs c)
      then Some \<lparr>pc_next_free = pc_next_free c + 1, pc_ptrs = (pc_ptrs c)[pc_next_free c := ptr]\<rparr>
      else None)"

definition pc_alloc :: "ptr_cache \<Rightarrow> (addr option \<times> ptr_cache) option" where
  "pc_alloc c =
     (if pc_is_empty c then Some (None, c)
      else
        let n = pc_next_free c - 1
        in if n < length (pc_ptrs c) then Some (Some (pc_ptrs c ! n), c\<lparr>pc_next_free := n\<rparr>) else None)"

text \<open>\<open>Err(ptr)\<close> is \<open>Inl\<close>.\<close>

definition pc_free :: "ptr_cache \<Rightarrow> addr \<Rightarrow> ((addr + unit) \<times> ptr_cache) option" where
  "pc_free c ptr =
     (if pc_is_full c then Some (Inl ptr, c) else map_option (Pair (Inr ())) (pc_push c ptr))"

text \<open>The loop of \<open>fill_from\<close> ends after at most as many rounds as the cache has room.\<close>

fun fill_loop :: "nat \<Rightarrow> ptr_cache \<Rightarrow> slab_manager \<Rightarrow> heap \<Rightarrow> (ptr_cache \<times> slab_manager \<times> heap) option" where
  "fill_loop 0 c m h = Some (c, m, h)"
| "fill_loop (Suc n) c m h =
     (if pc_is_full c then Some (c, m, h)
      else
        do {
          (obj, m, h) \<leftarrow> try_alloc m h;
          (case obj of
             None \<Rightarrow> Some (c, m, h)
           | Some ptr \<Rightarrow> do { c \<leftarrow> pc_push c ptr; fill_loop n c m h })
        })"

definition fill_from :: "ptr_cache \<Rightarrow> slab_manager \<Rightarrow> heap \<Rightarrow> (ptr_cache \<times> slab_manager \<times> heap) option" where
  "fill_from c m h = fill_loop (PTRS_PER_SZ_CLASS - pc_next_free c) c m h"

fun drain_loop ::
  "nat \<Rightarrow> translator \<Rightarrow> ptr_cache \<Rightarrow> slab_manager \<Rightarrow> heap \<Rightarrow> (ptr_cache \<times> slab_manager \<times> heap) option" where
  "drain_loop 0 tr c m h = Some (c, m, h)"
| "drain_loop (Suc n) tr c m h =
     (let k = pc_next_free c - 1
      in if k < length (pc_ptrs c)
         then
           do {
             (m, h) \<leftarrow> sm_free_obj tr m h (pc_ptrs c ! k);
             drain_loop n tr (c\<lparr>pc_next_free := k\<rparr>) m h
           }
         else None)"

definition drain_into ::
  "translator \<Rightarrow> ptr_cache \<Rightarrow> slab_manager \<Rightarrow> heap \<Rightarrow> (ptr_cache \<times> slab_manager \<times> heap) option" where
  "drain_into tr c m h = drain_loop (pc_next_free c div 2) tr c m h"

definition NUM_PTR_CACHES :: nat where
  "NUM_PTR_CACHES = SLAB_MAX_OBJ_SHIFT + 1"

definition slab_cache_new :: "ptr_cache list" where
  "slab_cache_new = replicate NUM_PTR_CACHES ptr_cache_new"

text \<open>\<open>get_cache\<close> gives the line of a layout by its index; the index may be out of range.\<close>

definition get_cache :: "ptr_cache list \<Rightarrow> layout \<Rightarrow> (nat \<times> ptr_cache) option option" where
  "get_cache cs l =
     (case alloc_order l of
        None \<Rightarrow> None
      | Some None \<Rightarrow> Some None
      | Some (Some k) \<Rightarrow> if k < length cs then Some (Some (k, cs ! k)) else None)"

fun free_all :: "translator \<Rightarrow> addr list \<Rightarrow> slab_manager \<Rightarrow> heap \<Rightarrow> (slab_manager \<times> heap) option" where
  "free_all tr [] m h = Some (m, h)"
| "free_all tr (ptr # ptrs) m h =
     do { (m, h) \<leftarrow> sm_free_obj tr m h ptr; free_all tr ptrs m h }"

fun purge_into ::
  "translator \<Rightarrow> ptr_cache list \<Rightarrow> slab_manager list \<Rightarrow> heap \<Rightarrow>
    (ptr_cache list \<times> slab_manager list \<times> heap) option" where
  "purge_into tr (c # cs) (m # ms) h =
     do {
       (m, h) \<leftarrow> free_all tr (take (pc_next_free c) (pc_ptrs c)) m h;
       (cs, ms, h) \<leftarrow> purge_into tr cs ms h;
       Some (c\<lparr>pc_next_free := 0\<rparr> # cs, m # ms, h)
     }"
| "purge_into tr cs ms h = Some (cs, ms, h)"

section \<open>The kernel heap\<close>

record kheap =
  kh_heap :: heap
  kh_managers :: "slab_manager list"
  kh_cache :: "ptr_cache list"

definition calculate_huge_order :: "layout \<Rightarrow> nat option" where
  "calculate_huge_order l =
     (let size = max (layout_size l) (layout_align l);
          pages_needed = (if size mod PAGE_SIZE = 0 then size div PAGE_SIZE else size div PAGE_SIZE + 1)
      in npt_log2 pages_needed)"

text \<open>The cast of the order to \<open>u8\<close> keeps it, because an order is below 64.\<close>

definition kheap_alloc :: "translator \<Rightarrow> kheap \<Rightarrow> layout \<Rightarrow> (addr \<times> kheap) option" where
  "kheap_alloc tr k l =
     do {
       line \<leftarrow> get_cache (kh_cache k) l;
       (case line of
          None \<Rightarrow>
            do {
              n \<leftarrow> calculate_huge_order l;
              (r, fa) \<leftarrow> alloc_frames (hp_fa (kh_heap k)) n;
              (case r of
                 Inl _ \<Rightarrow> None
               | Inr rgn \<Rightarrow> Some (phys_to_virt tr (start_address rgn), k\<lparr>kh_heap := (kh_heap k)\<lparr>hp_fa := fa\<rparr>\<rparr>))
            }
        | Some (i, c) \<Rightarrow>
            do {
              (obj, c) \<leftarrow> pc_alloc c;
              (case obj of
                 Some ptr \<Rightarrow> Some (ptr, k\<lparr>kh_cache := (kh_cache k)[i := c]\<rparr>)
               | None \<Rightarrow>
                   if i < length (kh_managers k)
                   then
                     do {
                       (ptr, m, h) \<leftarrow> sm_alloc tr (kh_managers k ! i) (kh_heap k);
                       (c, m, h) \<leftarrow> fill_from c m h;
                       Some (ptr, \<lparr>kh_heap = h, kh_managers = (kh_managers k)[i := m],
                                   kh_cache = (kh_cache k)[i := c]\<rparr>)
                     }
                   else None)
            })
     }"

definition kheap_dealloc :: "translator \<Rightarrow> kheap \<Rightarrow> addr \<Rightarrow> layout \<Rightarrow> kheap option" where
  "kheap_dealloc tr k ptr l =
     do {
       line \<leftarrow> get_cache (kh_cache k) l;
       (case line of
          None \<Rightarrow>
            do {
              n \<leftarrow> calculate_huge_order l;
              fa \<leftarrow> page_allocation_drop (hp_fa (kh_heap k)) (rnew (virt_to_phys tr ptr) (push_bit n PAGE_SIZE));
              Some (k\<lparr>kh_heap := (kh_heap k)\<lparr>hp_fa := fa\<rparr>\<rparr>)
            }
        | Some (i, c) \<Rightarrow>
            do {
              (r, c) \<leftarrow> pc_free c ptr;
              (case r of
                 Inr _ \<Rightarrow> Some (k\<lparr>kh_cache := (kh_cache k)[i := c]\<rparr>)
               | Inl ptr \<Rightarrow>
                   if i < length (kh_managers k)
                   then
                     do {
                       (m, h) \<leftarrow> sm_free_obj tr (kh_managers k ! i) (kh_heap k) ptr;
                       (c, m, h) \<leftarrow> drain_into tr c m h;
                       Some \<lparr>kh_heap = h, kh_managers = (kh_managers k)[i := m], kh_cache = (kh_cache k)[i := c]\<rparr>
                     }
                   else None)
            })
     }"

section \<open>Size classes\<close>

lemma npt_log2_spec:
  assumes "npt_log2 n = Some k"
  shows "unat n \<le> 2 ^ k" and "k < 64" and "\<And>j. j < k \<Longrightarrow> 2 ^ j < unat n"
proof -
  obtain i where i: "i < 64" "n \<le> push_bit ([0..<64] ! i) 1" "k = [0..<64] ! i"
    "\<forall>j<i. \<not> n \<le> push_bit ([0..<64] ! j) 1"
    using assms by (auto simp: npt_log2_def find_Some_iff)
  then have k: "k = i" "k < 64" by simp_all
  then show "k < 64" by simp
  show "unat n \<le> 2 ^ k" using i(2) k by (simp add: word_le_nat_alt unat_exp_usize)
  show "2 ^ j < unat n" if "j < k" for j
  proof -
    have "\<not> n \<le> push_bit ([0..<64] ! j) 1" using i(4) that k(1) by blast
    then show ?thesis using that k by (simp add: word_le_nat_alt unat_exp_usize)
  qed
qed

lemma npt_log2_Some:
  assumes "unat n \<le> 2 ^ 63"
  obtains k where "npt_log2 n = Some k"
proof (cases "npt_log2 n")
  case None
  moreover have "63 \<in> set [0..<64 :: nat]" by simp
  ultimately have "\<not> n \<le> push_bit 63 1" unfolding npt_log2_def find_None_iff by blast
  then have "unat (push_bit 63 1 :: usize) < unat n" unfolding not_le word_less_nat_alt .
  moreover have "unat (push_bit 63 1 :: usize) = 2 ^ 63" by (simp add: unat_exp_usize)
  ultimately show ?thesis using assms by simp
qed (use that in blast)

text \<open>
  Claim C32. The size class of a layout is the smallest power of two, of at least two bytes, that
  is not below its size and its alignment; there is none exactly when an object would
  be larger than half a slab.
\<close>

theorem alloc_order_fits:
  assumes "unat (max (layout_size l) (layout_align l)) \<le> 2 ^ 63"
  shows "\<exists>c. alloc_order l = Some c \<and>
    (case c of
       None \<Rightarrow> 2 ^ 13 < max (unat (layout_size l)) (unat (layout_align l))
     | Some k \<Rightarrow> 1 \<le> k \<and> k \<le> 13 \<and> unat (layout_size l) \<le> 2 ^ k \<and> unat (layout_align l) \<le> 2 ^ k \<and>
         (\<forall>j. 1 \<le> j \<longrightarrow> j < k \<longrightarrow> 2 ^ j < max (unat (layout_size l)) (unat (layout_align l))))"
proof -
  let ?n = "max (layout_size l) (layout_align l)"
  obtain k where k: "npt_log2 ?n = Some k" using npt_log2_Some [OF assms] .
  note spec = npt_log2_spec [OF k, unfolded unat_max_word]
  show ?thesis
  proof (cases "k > 13")
    case True
    then show ?thesis
      using k spec(3) [of 13] by (simp add: alloc_order_def SLAB_MAX_OBJ_SHIFT_def)
  next
    case False
    have "unat (layout_size l) \<le> 2 ^ k" "unat (layout_align l) \<le> 2 ^ k" using spec(1) by simp_all
    with False k spec(3) show ?thesis
      by (cases "k = 0") (auto simp: alloc_order_def SLAB_MAX_OBJ_SHIFT_def)
  qed
qed

theorem alloc_order_fits_witness:
  "alloc_order \<lparr>layout_size = 100, layout_align = 8\<rparr> = Some (Some 7) \<and>
   (\<exists>c. alloc_order \<lparr>layout_size = 100, layout_align = 8\<rparr> = Some c)"
proof -
  have "alloc_order \<lparr>layout_size = 100, layout_align = 8\<rparr> = Some (Some 7)" by code_simp
  moreover have "unat (max (layout_size \<lparr>layout_size = 100, layout_align = 8\<rparr>)
      (layout_align \<lparr>layout_size = 100, layout_align = 8\<rparr>)) \<le> 2 ^ 63"
    by (simp add: unat_max_word)
  ultimately show ?thesis using alloc_order_fits by blast
qed

end
