(* ===== verification/Slab_Manager.thy ===== *)
theory Slab_Manager
  imports Slab_Alloc Buddy_Props
begin

text \<open>
  A slab manager on top of the frame allocator: its lists agree with the states of its slabs,
  and the objects it has handed out are exactly those it was asked for and not given back.
  The two components meet in the frame table; \<open>fa_inv_upd\<close> of \<open>Buddy_Ops\<close> shows that what the manager writes
  there keeps the invariant of the frame allocator.
\<close>

section \<open>Slabs and the objects in use\<close>

text \<open>
  The slabs in the frame table, and the objects in use: those of a slab that are not on its free
  list, each with the size class that it belongs to.
\<close>

definition slab_at :: "heap \<Rightarrow> page_frame \<Rightarrow> slab \<Rightarrow> bool" where
  "slab_at h p s \<longleftrightarrow> st_of (table (hp_fa h)) p = Some (Slab s)"

definition in_use :: "heap \<Rightarrow> (addr \<times> nat) set" where
  "in_use h = {(slot s i, obj_shift s) | p s xs i.
     slab_at h p s \<and> slab_rep s (hp_mem h) xs \<and> i < capacity s \<and> i \<notin> set xs}"

definition linked :: "heap \<Rightarrow> page_frame \<Rightarrow> bool" where
  "linked h p \<longleftrightarrow> is_linked (hp_fa h) p = Some True"

text \<open>Every slab is well formed and lies at the address of its frame.\<close>

definition slabs_ok :: "translator \<Rightarrow> heap \<Rightarrow> bool" where
  "slabs_ok tr h \<longleftrightarrow> fa_inv (hp_fa h) \<and> address_translator (virt_to_phys tr) (phys_to_virt tr) \<and>
     (\<forall>p \<in> dom (table (hp_fa h)). unat (phys_to_virt tr (pfn_pa (of_nat p))) + 16384 < 2 ^ 64) \<and>
     (\<forall>p s. slab_at h p s \<longrightarrow>
        (\<exists>xs. slab_rep s (hp_mem h) xs) \<and> slab_base s = phys_to_virt tr (pfn_pa (of_nat p)))"

text \<open>The lists of a manager agree with the states of the slabs of its class.\<close>

definition lists_agree :: "slab_manager \<Rightarrow> heap \<Rightarrow> bool" where
  "lists_agree m h \<longleftrightarrow>
     (\<forall>p s. slab_at h p s \<longrightarrow> obj_shift s = sm_obj_shift m \<longrightarrow>
        (p \<in> set (sm_free m) \<longleftrightarrow> slab_state s = SlabFree) \<and>
        (p \<in> set (sm_partial m) \<longleftrightarrow> slab_state s = SlabPartial) \<and>
        (linked h p \<longleftrightarrow> slab_state s \<noteq> SlabFull)) \<and>
     (\<forall>p \<in> set (sm_free m) \<union> set (sm_partial m). \<exists>s. slab_at h p s \<and> obj_shift s = sm_obj_shift m) \<and>
     distinct (sm_free m) \<and> distinct (sm_partial m) \<and>
     free_list_sz m = length (sm_free m) \<and> free_list_sz m \<le> MAX_FREE_SLABS"

text \<open>
  What an operation does to the slabs: those in \<open>D\<close> are gone, \<open>p\<close> holds \<open>s'\<close>, and the others and
  their links are as they were.
\<close>

definition slab_step :: "translator \<Rightarrow> heap \<Rightarrow> heap \<Rightarrow> page_frame set \<Rightarrow> page_frame \<Rightarrow> slab \<Rightarrow> bool" where
  "slab_step tr h h' D p s' \<longleftrightarrow> slabs_ok tr h' \<and>
     (\<forall>q t. slab_at h' q t \<longleftrightarrow> q \<notin> D \<and> (if q = p then t = s' else slab_at h q t)) \<and>
     (\<forall>q t. slab_at h' q t \<longrightarrow> q \<noteq> p \<longrightarrow> linked h' q = linked h q)"

text \<open>What an operation of a manager does: it keeps the invariants, its own and those of the other managers.\<close>

definition mgr_step :: "translator \<Rightarrow> slab_manager \<Rightarrow> heap \<Rightarrow> slab_manager \<Rightarrow> heap \<Rightarrow> (addr \<times> nat) set \<Rightarrow> bool" where
  "mgr_step tr m h m' h' U \<longleftrightarrow> slabs_ok tr h' \<and> lists_agree m' h' \<and> sm_obj_shift m' = sm_obj_shift m \<and>
     in_use h' = U \<and> (\<forall>n. lists_agree n h \<longrightarrow> sm_obj_shift n \<noteq> sm_obj_shift m \<longrightarrow> lists_agree n h')"

lemma slab_at_unique: "slab_at h p s \<Longrightarrow> slab_at h p t \<Longrightarrow> s = t"
  by (simp add: slab_at_def)

lemma slabs_okD:
  assumes "slabs_ok tr h"
  shows "fa_inv (hp_fa h)" and "address_translator (virt_to_phys tr) (phys_to_virt tr)"
    and "slab_at h p s \<Longrightarrow> \<exists>xs. slab_rep s (hp_mem h) xs"
    and "slab_at h p s \<Longrightarrow> slab_base s = phys_to_virt tr (pfn_pa (of_nat p))"
    and "slab_at h p s \<Longrightarrow> slab_ok s"
    and "p \<in> dom (table (hp_fa h)) \<Longrightarrow> unat (phys_to_virt tr (pfn_pa (of_nat p))) + 16384 < 2 ^ 64"
  using assms unfolding slabs_ok_def slab_rep_def by blast+

lemma chain_unique: "chain s mem nf xs \<Longrightarrow> chain s mem nf ys \<Longrightarrow> slab_ok s \<Longrightarrow> xs = ys"
proof (induction xs arbitrary: nf ys)
  case (Cons i xs)
  then obtain j js where ys: "ys = j # js" by (cases ys) auto
  have "i < 8192" "j < 8192"
    using Cons.prems ys capacity_bounds(3) [of s] by auto
  then have "i = j" using Cons.prems ys by (auto simp: unat_eq_usize unat_of_nat)
  with Cons ys show ?case by auto
next
  case Nil
  then show ?case by (cases ys) auto
qed

lemma slab_rep_unique: "slab_rep s mem xs \<Longrightarrow> slab_rep s mem ys \<Longrightarrow> xs = ys"
  unfolding slab_rep_def by (meson chain_unique)

lemma slab_rep_state:
  assumes "slab_rep s mem xs"
  shows "slab_state s = SlabFull \<longleftrightarrow> xs = []" and "slab_state s = SlabFree \<longleftrightarrow> set xs = {..<capacity s}"
    and "set xs \<subseteq> {..<capacity s}"
proof -
  show sub: "set xs \<subseteq> {..<capacity s}"
    using assms chain_capacity [of s mem "next_free s" xs] by (auto simp: slab_rep_def)
  have cap: "2 \<le> capacity s" using assms capacity_bounds(2) by (simp add: slab_rep_def)
  have len: "num_free s = length xs" "card (set xs) = length xs"
    using assms by (simp_all add: slab_rep_def distinct_card)
  show "slab_state s = SlabFull \<longleftrightarrow> xs = []" using len by (simp add: slab_state_def)
  have "length xs = capacity s \<longleftrightarrow> set xs = {..<capacity s}"
  proof
    assume "length xs = capacity s"
    then show "set xs = {..<capacity s}" using len(2) by (intro card_subset_eq [OF _ sub]) simp_all
  next
    assume "set xs = {..<capacity s}"
    with len(2) show "length xs = capacity s" by simp
  qed
  then show "slab_state s = SlabFree \<longleftrightarrow> set xs = {..<capacity s}"
    using len(1) cap by (auto simp: slab_state_def)
qed

text \<open>The frame of an object lies in the block of its slab, so that different slabs have different objects.\<close>

lemma byte_frame:
  assumes tr: "address_translator (virt_to_phys tr) (phys_to_virt tr)" and inv: "fa_inv (hp_fa h)"
    and p: "slab_at h p s" "slab_base s = phys_to_virt tr (pfn_pa (of_nat p))" and o: "d < 16384"
  shows "unat (to_pfn (virt_to_phys tr (slab_base s + of_nat d))) \<in> blk p SLAB_FRAME_ALLOC_ORDER"
proof -
  have head: "head (table (hp_fa h)) p = Some SLAB_FRAME_ALLOC_ORDER"
    using p(1) by (simp add: slab_at_def head_def)
  have "fa_ok (hp_fa h)" using inv by (simp add: fa_inv_def)
  moreover have "p + 3 \<in> blk p SLAB_FRAME_ALLOC_ORDER" by (simp add: blk_def SLAB_FRAME_ALLOC_ORDER_def)
  ultimately have "p + 3 \<in> dom (table (hp_fa h))" using inv_head(3) [OF _ head] by blast
  then have bound: "p + 3 < 2 ^ 52" by (rule fa_inv_pfn [OF inv])
  have "slab_base s + of_nat d = phys_to_virt tr (pfn_pa (of_nat p) + of_nat d)"
    unfolding p(2) address_translator.virt_add [OF tr] ..
  then have "virt_to_phys tr (slab_base s + of_nat d) = pfn_pa (of_nat p) + of_nat d"
    by (simp only: address_translator.phys_virt [OF tr])
  moreover have "unat (pfn_pa (of_nat p) :: usize) = p * 4096"
    using bound by (simp add: pfn_pa_def PAGE_SHIFT_def push_bit_eq_mult unat_word_ariths(2) unat_of_nat)
  moreover have "unat (of_nat d :: usize) = d" using o by (subst unat_of_nat) simp
  ultimately have "unat (virt_to_phys tr (slab_base s + of_nat d)) = p * 4096 + d"
    using bound o by (simp add: unat_add_usize)
  then have "unat (to_pfn (virt_to_phys tr (slab_base s + of_nat d))) = p + d div 4096"
    by (simp add: unat_to_pfn)
  then show ?thesis using o by (simp add: blk_def SLAB_FRAME_ALLOC_ORDER_def)
qed

lemma object_frame:
  assumes tr: "address_translator (virt_to_phys tr) (phys_to_virt tr)" and inv: "fa_inv (hp_fa h)"
    and p: "slab_at h p s" "slab_base s = phys_to_virt tr (pfn_pa (of_nat p))" "slab_ok s" "i < capacity s"
  shows "unat (to_pfn (virt_to_phys tr (slot s i))) \<in> blk p SLAB_FRAME_ALLOC_ORDER"
  unfolding slot_def by (rule byte_frame [OF tr inv p(1,2) slot_offset(1) [OF p(3,4)]])

lemma slots_differ:
  assumes tr: "address_translator (virt_to_phys tr) (phys_to_virt tr)" and inv: "fa_inv (hp_fa h)"
    and p: "slab_at h p s" "slab_base s = phys_to_virt tr (pfn_pa (of_nat p))" "slab_ok s" "i < capacity s"
    and q: "slab_at h q t" "slab_base t = phys_to_virt tr (pfn_pa (of_nat q))" "slab_ok t" "j < capacity t"
    and ne: "p \<noteq> q"
  shows "slot s i \<noteq> slot t j"
proof
  assume eq: "slot s i = slot t j"
  have heads: "head (table (hp_fa h)) p = Some SLAB_FRAME_ALLOC_ORDER"
    "head (table (hp_fa h)) q = Some SLAB_FRAME_ALLOC_ORDER"
    using p(1) q(1) by (simp_all add: slab_at_def head_def)
  have "fa_ok (hp_fa h)" using inv by (simp add: fa_inv_def)
  then have "blk p SLAB_FRAME_ALLOC_ORDER \<inter> blk q SLAB_FRAME_ALLOC_ORDER = {}"
    using heads ne by (rule inv_disjoint)
  with object_frame [OF tr inv p] object_frame [OF tr inv q] eq show False by auto
qed

lemma chain_mem_cong:
  "\<forall>i < capacity s. mem' (slot s i) = mem (slot s i) \<Longrightarrow> chain s mem' nf xs = chain s mem nf xs"
  by (induction xs arbitrary: nf) auto

lemma slab_rep_cong:
  "\<forall>i < capacity s. mem' (slot s i) = mem (slot s i) \<Longrightarrow> slab_rep s mem' xs = slab_rep s mem xs"
  unfolding slab_rep_def using chain_mem_cong by blast

section \<open>Steps on the heap\<close>

definition heap_upd :: "heap \<Rightarrow> heap \<Rightarrow> page_frame \<Rightarrow> frame \<Rightarrow> obj_mem \<Rightarrow> bool" where
  "heap_upd h h' p g mem \<longleftrightarrow>
     hp_mem h' = mem \<and> table (hp_fa h') = (table (hp_fa h))(p \<mapsto> g) \<and>
     free_lists (hp_fa h') = free_lists (hp_fa h) \<and> free_pages (hp_fa h') = free_pages (hp_fa h) \<and>
     same_shape (hp_fa h) (hp_fa h')"

lemma heap_upd_trans: "heap_upd h h1 p g m \<Longrightarrow> heap_upd h1 h2 p g' m' \<Longrightarrow> heap_upd h h2 p g' m'"
  by (simp add: heap_upd_def same_shape_def)

lemma unlink_upd:
  assumes "table (hp_fa h) p = Some f"
  obtains h' where "unlink p h = Some h'" and "heap_upd h h' p (f\<lparr>link := False\<rparr>) (hp_mem h)"
proof -
  obtain fa where "set_link (hp_fa h) p False = Some fa" "table fa = (table (hp_fa h))(p \<mapsto> f\<lparr>link := False\<rparr>)"
    "free_lists fa = free_lists (hp_fa h)" "free_pages fa = free_pages (hp_fa h)" "same_shape (hp_fa h) fa"
    using set_link_Some [OF assms] by metis
  then show ?thesis using that [of "h\<lparr>hp_fa := fa\<rparr>"] by (simp add: unlink_def heap_upd_def)
qed

lemma link_front_upd:
  assumes "table (hp_fa h) p = Some f" and "\<not> link f"
  obtains h' where "link_front p ps h = Some (p # ps, h')" and "heap_upd h h' p (f\<lparr>link := True\<rparr>) (hp_mem h)"
proof -
  obtain fa where "set_link (hp_fa h) p True = Some fa" "table fa = (table (hp_fa h))(p \<mapsto> f\<lparr>link := True\<rparr>)"
    "free_lists fa = free_lists (hp_fa h)" "free_pages fa = free_pages (hp_fa h)" "same_shape (hp_fa h) fa"
    using set_link_Some [OF assms(1)] by metis
  then show ?thesis
    using that [of "h\<lparr>hp_fa := fa\<rparr>"] assms by (simp add: link_front_def heap_upd_def is_linked_def)
qed

lemma set_slab_upd:
  assumes "table (hp_fa h) p = Some f"
  obtains h' where "hp_set_slab h p s = Some h'" and "heap_upd h h' p (f\<lparr>state := Slab s\<rparr>) (hp_mem h)"
proof -
  obtain fa where "set_state (hp_fa h) p (Slab s) = Some fa" "table fa = (table (hp_fa h))(p \<mapsto> f\<lparr>state := Slab s\<rparr>)"
    "free_lists fa = free_lists (hp_fa h)" "free_pages fa = free_pages (hp_fa h)" "same_shape (hp_fa h) fa"
    using set_state_Some [OF assms] by metis
  then show ?thesis using that [of "h\<lparr>hp_fa := fa\<rparr>"] by (simp add: hp_set_slab_def heap_upd_def)
qed

lemma slots_apart:
  assumes ok: "slabs_ok tr h" and p: "slab_at h p s" "i < capacity s" and q: "slab_at h q t" "j < capacity t"
    and ne: "p \<noteq> q"
  shows "slot s i \<noteq> slot t j"
  using slots_differ [OF slabs_okD(2,1) [OF ok] p(1) slabs_okD(4,5) [OF ok p(1)] p(2)
      q(1) slabs_okD(4,5) [OF ok q(1)] q(2) ne] .

lemma in_use_slab:
  assumes ok: "slabs_ok tr h" and p: "slab_at h p s" "slab_rep s (hp_mem h) xs" and j: "j < capacity s"
  shows "(slot s j, obj_shift s) \<in> in_use h \<longleftrightarrow> j \<notin> set xs"
proof
  assume "(slot s j, obj_shift s) \<in> in_use h"
  then obtain q t ys i where q: "slot s j = slot t i" "slab_at h q t" "slab_rep t (hp_mem h) ys"
    "i < capacity t" "i \<notin> set ys" by (auto simp: in_use_def)
  have "p = q" using slots_apart [OF ok p(1) j q(2,4)] q(1) by blast
  then have "s = t" using p(1) q(2) slab_at_unique by blast
  then have "xs = ys" "j = i"
    using slab_rep_unique [OF p(2)] q slot_inject [OF slabs_okD(5) [OF ok p(1)] j] by auto
  with q(5) show "j \<notin> set xs" by simp
next
  assume "j \<notin> set xs"
  with p j show "(slot s j, obj_shift s) \<in> in_use h" unfolding in_use_def by blast
qed

text \<open>The in-use objects of a heap that differs only in the slab at \<open>p\<close>.\<close>

lemma in_use_upd:
  assumes at: "\<And>q t. slab_at h' q t \<longleftrightarrow> (if q = p then t = s' else slab_at h q t)"
    and rep: "\<And>q t ys. slab_at h q t \<Longrightarrow> q \<noteq> p \<Longrightarrow> slab_rep t (hp_mem h') ys \<longleftrightarrow> slab_rep t (hp_mem h) ys"
    and s': "slab_rep s' (hp_mem h') xs'"
  shows "in_use h' = {(slot t i, obj_shift t) | q t ys i. slab_at h q t \<and> q \<noteq> p \<and> slab_rep t (hp_mem h) ys \<and>
      i < capacity t \<and> i \<notin> set ys} \<union> {(slot s' i, obj_shift s') | i. i < capacity s' \<and> i \<notin> set xs'}" (is "?l = ?r")
proof (intro set_eqI iffI)
  fix a assume "a \<in> ?l"
  then obtain q t ys i where a: "a = (slot t i, obj_shift t)" "slab_at h' q t" "slab_rep t (hp_mem h') ys"
    "i < capacity t" "i \<notin> set ys" unfolding in_use_def by blast
  show "a \<in> ?r"
  proof (cases "q = p")
    case True
    then have "t = s'" using a(2) at by simp
    moreover from this have "ys = xs'" using a(3) s' slab_rep_unique by blast
    ultimately show ?thesis using a by blast
  next
    case False
    then have "slab_at h q t" using a(2) at by simp
    with a rep [of q t ys] False show ?thesis by blast
  qed
next
  fix a assume "a \<in> ?r"
  then consider q t ys i where "a = (slot t i, obj_shift t)" "slab_at h q t" "q \<noteq> p" "slab_rep t (hp_mem h) ys"
      "i < capacity t" "i \<notin> set ys"
    | i where "a = (slot s' i, obj_shift s')" "i < capacity s'" "i \<notin> set xs'" by blast
  then show "a \<in> ?l"
  proof cases
    case 1
    then have "slab_rep t (hp_mem h') ys" "slab_at h' q t" using rep [of q t ys] at [of q t] by simp_all
    with 1 show ?thesis unfolding in_use_def by blast
  next
    case 2
    moreover have "slab_at h' p s'" using at [of p s'] by simp
    ultimately show ?thesis using s' unfolding in_use_def by blast
  qed
qed

definition objs :: "slab \<Rightarrow> nat set \<Rightarrow> (addr \<times> nat) set" where
  "objs s A = (\<lambda>i. (slot s i, obj_shift s)) ` A"

lemma slab_upd:
  assumes ok: "slabs_ok tr h" and p: "slab_at h p s" "slab_rep s (hp_mem h) xs"
    and upd: "heap_upd h h' p g mem'" and g: "state g = Slab s'"
    and s': "slab_base s' = slab_base s" "obj_shift s' = obj_shift s" "slab_rep s' mem' xs'"
    and mem: "\<forall>a. a \<notin> slot s ` {..<capacity s} \<longrightarrow> mem' a = hp_mem h a"
  shows "slab_step tr h h' {} p s'" and "linked h' p = link g"
    and "in_use h' = (in_use h - objs s {..<capacity s}) \<union> objs s ({..<capacity s} - set xs')"
proof -
  have tab: "table (hp_fa h') = (table (hp_fa h))(p \<mapsto> g)" and mem': "hp_mem h' = mem'"
    using upd by (simp_all add: heap_upd_def)
  have same: "slot s' = slot s" "capacity s' = capacity s" using slot_cong [of s' s] s'(1,2) by simp_all
  have objs: "objs s' = objs s" by (simp add: fun_eq_iff objs_def same s'(2))
  obtain f where f: "table (hp_fa h) p = Some f" "state f = Slab s" using p(1) by (auto simp: slab_at_def st_of_def)
  have at: "slab_at h' q t \<longleftrightarrow> (if q = p then t = s' else slab_at h q t)" for q t
    using g by (auto simp: slab_at_def tab)
  show "linked h' p = link g" by (simp add: linked_def is_linked_def tab)
  have apart: "slot t i \<notin> slot s ` {..<capacity s}" if t: "slab_at h q t" "q \<noteq> p" "i < capacity t" for q t i
    using slots_apart [OF ok t(1,3) p(1) _ t(2)] by blast
  then have rep: "slab_rep t mem' ys \<longleftrightarrow> slab_rep t (hp_mem h) ys" if "slab_at h q t" "q \<noteq> p" for q t ys
    using that mem by (intro slab_rep_cong) blast
  have "fa_inv (hp_fa h')"
    by (rule fa_inv_upd(1) [OF slabs_okD(1) [OF ok] f(1)]) (use f(2) g upd in \<open>simp_all add: heap_upd_def\<close>)
  moreover have "dom (table (hp_fa h')) = dom (table (hp_fa h))" using tab f(1) by auto
  moreover have "(\<exists>ys. slab_rep t mem' ys) \<and> slab_base t = phys_to_virt tr (pfn_pa (of_nat q))" if "slab_at h' q t" for q t
    using that slabs_okD(3,4) [OF ok] s' p(1) rep [of q t] unfolding at by (cases "q = p") auto
  ultimately have "slabs_ok tr h'" using ok by (simp add: slabs_ok_def mem')
  then show "slab_step tr h h' {} p s'"
    by (simp add: slab_step_def at linked_def is_linked_def tab)
  define R where "R = {(slot t i, obj_shift t) | q t ys i. slab_at h q t \<and> q \<noteq> p \<and> slab_rep t (hp_mem h) ys \<and>
      i < capacity t \<and> i \<notin> set ys}"
  have eqs: "{(slot t i, obj_shift t) | i. i < capacity t \<and> i \<notin> A} = objs t ({..<capacity t} - A)" for t A
    by (auto simp: objs_def)
  have "slab_at h q t \<longleftrightarrow> (if q = p then t = s else slab_at h q t)" for q t
    using p(1) by (cases "q = p") (auto simp: slab_at_def)
  then have "in_use h = R \<union> objs s ({..<capacity s} - set xs)"
    unfolding R_def eqs [symmetric] by (rule in_use_upd) (rule refl, rule p(2))
  moreover have "in_use h' = R \<union> objs s ({..<capacity s} - set xs')"
    unfolding R_def eqs [of s', unfolded objs same, symmetric]
    by (rule in_use_upd [OF at, unfolded same]) (simp_all add: mem' rep s'(3))
  moreover have "R \<inter> objs s {..<capacity s} = {}" by (auto simp: R_def objs_def) (metis apart imageI lessThan_iff)
  moreover have "objs s ({..<capacity s} - set xs) \<subseteq> objs s {..<capacity s}" by (auto simp: objs_def)
  ultimately show "in_use h' = (in_use h - objs s {..<capacity s}) \<union> objs s ({..<capacity s} - set xs')"
    by blast
qed

lemma objs_Diff:
  assumes "slab_ok s" and "A \<subseteq> {..<capacity s}"
  shows "objs s {..<capacity s} - objs s A = objs s ({..<capacity s} - A)"
  using assms slot_inject [OF assms(1)] by (auto simp: objs_def)

lemma objs_in_use:
  assumes ok: "slabs_ok tr h" and p: "slab_at h p s" "slab_rep s (hp_mem h) xs"
  shows "in_use h \<inter> objs s {..<capacity s} = objs s ({..<capacity s} - set xs)"
  using in_use_slab [OF ok p] by (auto simp: objs_def)

text \<open>Taking the object \<open>i\<close> of a slab, giving it back, and only changing a link.\<close>

lemma in_use_take:
  assumes ok: "slabs_ok tr h" and p: "slab_at h p s" "slab_rep s (hp_mem h) (i # xs)"
    and U: "U = (in_use h - objs s {..<capacity s}) \<union> objs s ({..<capacity s} - set xs)"
  shows "U = insert (slot s i, obj_shift s) (in_use h)" and "(slot s i, obj_shift s) \<notin> in_use h"
proof -
  have i: "i < capacity s" "i \<notin> set xs" using p(2) by (auto simp: slab_rep_def)
  then have "objs s ({..<capacity s} - set xs) = insert (slot s i, obj_shift s) (objs s ({..<capacity s} - set (i # xs)))"
    by (auto simp: objs_def)
  then show "U = insert (slot s i, obj_shift s) (in_use h)"
    using U objs_in_use [OF ok p] by blast
  show "(slot s i, obj_shift s) \<notin> in_use h" using in_use_slab [OF ok p i(1)] by simp
qed

lemma in_use_give:
  assumes ok: "slabs_ok tr h" and p: "slab_at h p s" "slab_rep s (hp_mem h) xs" and i: "i < capacity s" "i \<notin> set xs"
    and U: "U = (in_use h - objs s {..<capacity s}) \<union> objs s ({..<capacity s} - set (i # xs))"
  shows "U = in_use h - {(slot s i, obj_shift s)}"
proof -
  have "(slot s i, obj_shift s) \<in> objs s {..<capacity s}" using i by (simp add: objs_def)
  moreover have "objs s ({..<capacity s} - set (i # xs)) = objs s ({..<capacity s} - set xs) - {(slot s i, obj_shift s)}"
    using slot_inject [OF slabs_okD(5) [OF ok p(1)]] i by (auto simp: objs_def)
  ultimately show ?thesis using U objs_in_use [OF ok p] by blast
qed

lemma in_use_same:
  assumes "slabs_ok tr h" and "slab_at h p s" "slab_rep s (hp_mem h) xs"
    and "U = (in_use h - objs s {..<capacity s}) \<union> objs s ({..<capacity s} - set xs)"
  shows "U = in_use h"
  using assms objs_in_use [OF assms(1-3)] by blast

section \<open>Agreement of the lists\<close>

lemma lists_agree_step:
  assumes agree: "lists_agree m h" and step: "slab_step tr h h' D p s'" and s': "obj_shift s' = sm_obj_shift m"
    and link: "linked h' p \<longleftrightarrow> slab_state s' \<noteq> SlabFull" and D: "p \<notin> D"
    and m': "sm_obj_shift m' = sm_obj_shift m"
      "set (sm_free m') = (set (sm_free m) - {p} - D) \<union> (if slab_state s' = SlabFree then {p} else {})"
      "set (sm_partial m') = (set (sm_partial m) - {p} - D) \<union> (if slab_state s' = SlabPartial then {p} else {})"
      "distinct (sm_free m')" "distinct (sm_partial m')" "free_list_sz m' = length (sm_free m')"
      "free_list_sz m' \<le> MAX_FREE_SLABS"
  shows "lists_agree m' h'"
proof -
  have at: "\<And>q t. slab_at h' q t \<longleftrightarrow> q \<notin> D \<and> (if q = p then t = s' else slab_at h q t)"
    and lk: "\<And>q t. slab_at h' q t \<Longrightarrow> q \<noteq> p \<Longrightarrow> linked h' q = linked h q"
    using step unfolding slab_step_def by blast+
  have "(q \<in> set (sm_free m') \<longleftrightarrow> slab_state t = SlabFree) \<and> (q \<in> set (sm_partial m') \<longleftrightarrow> slab_state t = SlabPartial) \<and>
      (linked h' q \<longleftrightarrow> slab_state t \<noteq> SlabFull)" if t: "slab_at h' q t" "obj_shift t = sm_obj_shift m" for q t
  proof (cases "q = p")
    case True
    then have "t = s'" using t(1) at by simp
    then show ?thesis using True link m'(2,3) by auto
  next
    case False
    then have q: "slab_at h q t" "q \<notin> D" using t(1) at by simp_all
    then have "(q \<in> set (sm_free m) \<longleftrightarrow> slab_state t = SlabFree) \<and> (q \<in> set (sm_partial m) \<longleftrightarrow> slab_state t = SlabPartial) \<and>
        (linked h q \<longleftrightarrow> slab_state t \<noteq> SlabFull)" using agree t(2) unfolding lists_agree_def by blast
    then show ?thesis using False q(2) m'(2,3) lk [OF t(1) False] by auto
  qed
  moreover have "\<exists>s. slab_at h' q s \<and> obj_shift s = sm_obj_shift m" if "q \<in> set (sm_free m') \<union> set (sm_partial m')" for q
  proof (cases "q = p")
    case False
    then have "q \<notin> D" "q \<in> set (sm_free m) \<union> set (sm_partial m)" using that m'(2,3) by (auto split: if_splits)
    then show ?thesis using agree False unfolding lists_agree_def at by auto
  qed (use at s' D in auto)
  ultimately show ?thesis using m'(1,4-7) unfolding lists_agree_def by simp
qed

lemma lists_agree_other:
  assumes agree: "lists_agree m h" and step: "slab_step tr h h' D p s'" and s': "obj_shift s' \<noteq> sm_obj_shift m"
    and D: "\<forall>q \<in> insert p D. \<forall>t. slab_at h q t \<longrightarrow> obj_shift t \<noteq> sm_obj_shift m"
  shows "lists_agree m h'"
proof -
  have at: "\<And>q t. slab_at h' q t \<longleftrightarrow> q \<notin> D \<and> (if q = p then t = s' else slab_at h q t)"
    and lk: "\<And>q t. slab_at h' q t \<Longrightarrow> q \<noteq> p \<Longrightarrow> linked h' q = linked h q"
    using step unfolding slab_step_def by blast+
  have eq: "slab_at h' q t \<longleftrightarrow> slab_at h q t" if "obj_shift t = sm_obj_shift m" for q t
    using s' D that unfolding at by auto
  have links: "linked h' q = linked h q" if "slab_at h q t" "obj_shift t = sm_obj_shift m" for q t
    using that lk [of q t] eq [OF that(2), of q] D by blast
  have "(q \<in> set (sm_free m) \<longleftrightarrow> slab_state t = SlabFree) \<and> (q \<in> set (sm_partial m) \<longleftrightarrow> slab_state t = SlabPartial) \<and>
      (linked h' q \<longleftrightarrow> slab_state t \<noteq> SlabFull)" if "slab_at h' q t" "obj_shift t = sm_obj_shift m" for q t
    unfolding links [OF that(1) [unfolded eq [OF that(2)]] that(2)]
    using agree that eq [OF that(2)] unfolding lists_agree_def by blast
  moreover have "\<exists>s. slab_at h' q s \<and> obj_shift s = sm_obj_shift m" if "q \<in> set (sm_free m) \<union> set (sm_partial m)" for q
    using agree that eq unfolding lists_agree_def by blast
  ultimately show ?thesis using agree unfolding lists_agree_def by simp
qed

section \<open>Allocating an object\<close>

lemma slab_frame:
  assumes "slab_at h p s"
  obtains f where "table (hp_fa h) p = Some f" and "state f = Slab s" and "linked h p = link f"
  using assms by (auto simp: slab_at_def st_of_def linked_def is_linked_def)

lemma frame_upd_commute: "f\<lparr>link := a, state := b\<rparr> = f\<lparr>state := b, link := a\<rparr>"
  by simp

lemma alloc_from_frame_spec:
  assumes ok: "slabs_ok tr h" and p: "slab_at h p s" "slab_rep s (hp_mem h) (i # xs)"
  shows "\<exists>h1 h' s'. unlink p h = Some h1 \<and>
    alloc_from_frame m h1 p =
      Some (Some (slot s i), (if slab_state s' = SlabPartial then m\<lparr>sm_partial := p # sm_partial m\<rparr> else m), h') \<and>
    slab_step tr h h' {} p s' \<and> obj_shift s' = obj_shift s \<and> slab_state s' \<noteq> SlabFree \<and>
    linked h' p = (slab_state s' \<noteq> SlabFull) \<and> in_use h' = insert (slot s i, obj_shift s) (in_use h) \<and>
    (slot s i, obj_shift s) \<notin> in_use h"
proof -
  obtain f where f: "table (hp_fa h) p = Some f" "state f = Slab s" using p(1) by (rule slab_frame)
  obtain h1 where h1: "unlink p h = Some h1" "heap_upd h h1 p (f\<lparr>link := False\<rparr>) (hp_mem h)"
    using f(1) by (rule unlink_upd)
  then have f1: "table (hp_fa h1) p = Some (f\<lparr>link := False\<rparr>)" "hp_mem h1 = hp_mem h"
    by (simp_all add: heap_upd_def)
  obtain s' where s': "alloc_object s (hp_mem h) = Some (Some (slot s i), s')" "slab_rep s' (hp_mem h) xs"
    "slab_base s' = slab_base s" "obj_shift s' = obj_shift s"
    using p(2) by (rule alloc_object_Cons)
  obtain h2 where h2: "hp_set_slab h1 p s' = Some h2" "heap_upd h1 h2 p (f\<lparr>link := False, state := Slab s'\<rparr>) (hp_mem h)"
    using set_slab_upd [OF f1(1), of s'] f1(2) by metis
  have f2: "table (hp_fa h2) p = Some (f\<lparr>link := False, state := Slab s'\<rparr>)" "hp_mem h2 = hp_mem h"
    using h2(2) by (simp_all add: heap_upd_def)
  obtain h3 where h3: "link_front p (sm_partial m) h2 = Some (p # sm_partial m, h3)"
    "heap_upd h2 h3 p (f\<lparr>link := False, state := Slab s', link := True\<rparr>) (hp_mem h)"
    by (rule link_front_upd [OF f2(1), of "sm_partial m"]) (simp, simp only: f2(2))
  define h' where "h' = (if slab_state s' = SlabPartial then h3 else h2)"
  have "i < capacity s'" "i \<notin> set xs" using p(2) s'(3,4) slot_cong [of s' s] by (auto simp: slab_rep_def)
  then have st: "slab_state s' \<noteq> SlabFree" using slab_rep_state(2) [OF s'(2)] by auto
  have "fa_state (hp_fa h1) p = Some (Slab s)" using f1(1) f(2) by (simp add: fa_state_def)
  then have run: "alloc_from_frame m h1 p =
      Some (Some (slot s i), (if slab_state s' = SlabPartial then m\<lparr>sm_partial := p # sm_partial m\<rparr> else m), h')"
    using s'(1) f1(2) h2(1) h3(1) by (simp add: alloc_from_frame_def h'_def)
  have upd: "heap_upd h h' p (f\<lparr>link := False, state := Slab s', link := slab_state s' = SlabPartial\<rparr>) (hp_mem h)"
    using heap_upd_trans [OF h1(2) h2(2)] heap_upd_trans [OF heap_upd_trans [OF h1(2) h2(2)] h3(2)]
    by (simp add: h'_def frame_upd_commute)
  note su = slab_upd [OF ok p upd _ s'(3,4,2), simplified]
  have "linked h' p = (slab_state s' \<noteq> SlabFull)" using su(2) st by (cases "slab_state s'") auto
  with h1(1) run su(1) s'(4) st in_use_take [OF ok p su(3)] show ?thesis by blast
qed


lemma try_alloc_step:
  assumes ok: "slabs_ok tr h" and agree: "lists_agree m h"
    and p: "slab_at h p s" "obj_shift s = sm_obj_shift m" "slab_state s \<noteq> SlabFull"
    and m1: "sm_obj_shift m1 = sm_obj_shift m" "set (sm_free m1) = set (sm_free m) - {p}"
      "set (sm_partial m1) = set (sm_partial m) - {p}" "distinct (sm_free m1)" "distinct (sm_partial m1)"
      "free_list_sz m1 = length (sm_free m1)" "free_list_sz m1 \<le> MAX_FREE_SLABS"
  shows "\<exists>h1 ptr m' h'. unlink p h = Some h1 \<and> alloc_from_frame m1 h1 p = Some (Some ptr, m', h') \<and>
    (ptr, sm_obj_shift m) \<notin> in_use h \<and> mgr_step tr m h m' h' (insert (ptr, sm_obj_shift m) (in_use h))"
proof -
  obtain ys where ys: "slab_rep s (hp_mem h) ys" using slabs_okD(3) [OF ok p(1)] by blast
  then obtain i xs where rep: "slab_rep s (hp_mem h) (i # xs)"
    using slab_rep_state(1) [OF ys] p(3) by (cases ys) auto
  obtain h1 h' s' where a: "unlink p h = Some h1"
    "alloc_from_frame m1 h1 p =
      Some (Some (slot s i), (if slab_state s' = SlabPartial then m1\<lparr>sm_partial := p # sm_partial m1\<rparr> else m1), h')"
    "slab_step tr h h' {} p s'" "obj_shift s' = obj_shift s" "slab_state s' \<noteq> SlabFree"
    "linked h' p = (slab_state s' \<noteq> SlabFull)" "in_use h' = insert (slot s i, obj_shift s) (in_use h)"
    "(slot s i, obj_shift s) \<notin> in_use h"
    using alloc_from_frame_spec [OF ok p(1) rep, of m1] by blast
  let ?m = "if slab_state s' = SlabPartial then m1\<lparr>sm_partial := p # sm_partial m1\<rparr> else m1"
  have "p \<notin> set (sm_partial m1)" using m1(3) by blast
  then have "lists_agree ?m h'"
    by (intro lists_agree_step [OF agree a(3) _ a(6)]) (use p(2) a(4,5) m1 in auto)
  moreover have "lists_agree n h'" if n: "lists_agree n h" "sm_obj_shift n \<noteq> sm_obj_shift m" for n
  proof (rule lists_agree_other [OF n(1) a(3)])
    show "obj_shift s' \<noteq> sm_obj_shift n" using n(2) a(4) p(2) by simp
    have "obj_shift t \<noteq> sm_obj_shift n" if "slab_at h p t" for t
      using slab_at_unique [OF p(1) that] n(2) p(2) by simp
    then show "\<forall>q \<in> insert p {}. \<forall>t. slab_at h q t \<longrightarrow> obj_shift t \<noteq> sm_obj_shift n" by blast
  qed
  moreover have "slabs_ok tr h'" using a(3) by (simp add: slab_step_def)
  ultimately have "mgr_step tr m h ?m h' (insert (slot s i, sm_obj_shift m) (in_use h))"
    using a(7) p(2) m1(1) by (simp add: mgr_step_def)
  with a(1,2,8) p(2) show ?thesis by auto
qed

lemma try_alloc_spec:
  assumes ok: "slabs_ok tr h" and agree: "lists_agree m h"
  shows "if sm_partial m = [] \<and> sm_free m = [] then try_alloc m h = Some (None, m, h)
    else \<exists>ptr m' h'. try_alloc m h = Some (Some ptr, m', h') \<and> (ptr, sm_obj_shift m) \<notin> in_use h \<and>
      mgr_step tr m h m' h' (insert (ptr, sm_obj_shift m) (in_use h))"
proof -
  have mem: "\<exists>s. slab_at h p s \<and> obj_shift s = sm_obj_shift m" if "p \<in> set (sm_free m) \<union> set (sm_partial m)" for p
    using agree that unfolding lists_agree_def by blast
  have st: "(p \<in> set (sm_free m) \<longleftrightarrow> slab_state s = SlabFree) \<and> (p \<in> set (sm_partial m) \<longleftrightarrow> slab_state s = SlabPartial)"
    if "slab_at h p s" "obj_shift s = sm_obj_shift m" for p s using agree that unfolding lists_agree_def by blast
  have m: "distinct (sm_free m)" "distinct (sm_partial m)" "free_list_sz m = length (sm_free m)"
    "free_list_sz m \<le> MAX_FREE_SLABS" using agree by (simp_all add: lists_agree_def)
  show ?thesis
  proof (cases "sm_partial m")
    case (Cons p rest)
    then obtain s where s: "slab_at h p s" "obj_shift s = sm_obj_shift m" using mem by auto
    then have "slab_state s = SlabPartial" "p \<notin> set (sm_free m)" using st [OF s] Cons by auto
    then show ?thesis
      using try_alloc_step [OF ok agree s, of "m\<lparr>sm_partial := rest\<rparr>"] m Cons by (auto simp: try_alloc_def)
  next
    case Nil
    show ?thesis
    proof (cases "sm_free m")
      case (Cons p rest)
      then obtain s where s: "slab_at h p s" "obj_shift s = sm_obj_shift m" using mem by auto
      then have "slab_state s = SlabFree" using st [OF s] Cons by auto
      then show ?thesis
        using try_alloc_step [OF ok agree s, of "m\<lparr>sm_free := rest, free_list_sz := free_list_sz m - 1\<rparr>"] m Cons Nil
        by (auto simp: try_alloc_def try_alloc_free_def)
    qed (simp add: Nil try_alloc_def try_alloc_free_def)
  qed
qed

lemma slab_not_free:
  assumes "fa_inv fa" and "st_of (table fa) q = Some (Slab t)"
  shows "q \<notin> free_set (table fa)"
proof
  assume "q \<in> free_set (table fa)"
  then obtain p k where p: "st_of (table fa) p = Some (Free k)" "q \<in> blk p k" by (auto simp: free_set_iff)
  have "fa_ok fa" using assms(1) by (simp add: fa_inv_def)
  moreover have "head (table fa) q = Some SLAB_FRAME_ALLOC_ORDER" using assms(2) by (simp add: head_def)
  moreover have "p \<noteq> q" using p(1) assms(2) by auto
  ultimately have "blk p k \<inter> blk q SLAB_FRAME_ALLOC_ORDER = {}" using inv_disjoint head_free [OF p(1)] by blast
  then show False using p(2) blk_self [of q] by blast
qed

lemma fresh_slab:
  assumes ok: "slabs_ok tr h" and fa: "fa_inv fa" "same_shape (hp_fa h) fa"
    and p: "blk p SLAB_FRAME_ALLOC_ORDER \<subseteq> free_set (table (hp_fa h))"
      "table fa p = Some f" "state f = AllocatedHead \<lparr>ref_count = 1, order = SLAB_FRAME_ALLOC_ORDER\<rparr>"
      "free_set (table fa) = free_set (table (hp_fa h)) - blk p SLAB_FRAME_ALLOC_ORDER"
      "\<forall>q. q \<notin> free_set (table (hp_fa h)) \<longrightarrow> table fa q = table (hp_fa h) q"
    and upd: "heap_upd \<lparr>hp_fa = fa, hp_mem = mem\<rparr> h' p g mem" "state g = Slab s'"
    and s': "slab_base s' = phys_to_virt tr (pfn_pa (of_nat p))" "slab_rep s' mem xs"
      "\<forall>a. a \<notin> slot s' ` {..<capacity s'} \<longrightarrow> mem a = hp_mem h a"
  shows "slab_step tr h h' {} p s'" and "linked h' p = link g" and "\<not> slab_at h p t"
    and "in_use h' = in_use h \<union> objs s' ({..<capacity s'} - set xs)" and "in_use h \<inter> objs s' {..<capacity s'} = {}"
proof -
  have tab: "table (hp_fa h') = (table fa)(p \<mapsto> g)" and mem': "hp_mem h' = mem"
    using upd(1) by (simp_all add: heap_upd_def)
  have inv: "fa_inv (hp_fa h')"
    by (rule fa_inv_upd(1) [OF fa(1) p(2)]) (use p(3) upd in \<open>simp_all add: heap_upd_def\<close>)
  note not_free = slab_not_free [OF slabs_okD(1) [OF ok]]
  have "p \<in> free_set (table (hp_fa h))" using p(1) blk_self [of p] by blast
  then show np: "\<not> slab_at h p t" for t using not_free by (auto simp: slab_at_def)
  have tail: "st_of (table fa) q = Some (AllocatedTail p)" if "q \<in> blk p SLAB_FRAME_ALLOC_ORDER" "q \<noteq> p" for q
    using fa(1) p(2,3) that unfolding fa_inv_def buddy_inv_def tails_ok_def by (auto simp: st_of_def)
  have same: "table fa q = table (hp_fa h) q" if "st_of (table fa) q = Some (Slab t)" "q \<noteq> p" for q t
  proof -
    have "q \<notin> free_set (table fa)" using slab_not_free [OF fa(1) that(1)] .
    moreover have "q \<notin> blk p SLAB_FRAME_ALLOC_ORDER" using tail [OF _ that(2)] that(1) by auto
    ultimately show ?thesis using p(4,5) by blast
  qed
  have same': "table fa q = table (hp_fa h) q" if "slab_at h q t" for q t
    using p(5) not_free that by (simp add: slab_at_def)
  have "st_of (table fa) q = Some (Slab t) \<longleftrightarrow> slab_at h q t" if "q \<noteq> p" for q t
    using same [of q t, OF _ that] same' [of q t] unfolding slab_at_def st_of_def by metis
  then have at: "slab_at h' q t \<longleftrightarrow> (if q = p then t = s' else slab_at h q t)" for q t
    using upd(2) by (auto simp: slab_at_def [of h'] tab)
  show "linked h' p = link g" by (simp add: linked_def is_linked_def tab)
  have apart: "slot u i \<notin> slot s' ` {..<capacity s'}" if u: "slab_at h q u" "i < capacity u" for q u i
  proof -
    have q: "q \<noteq> p" using u(1) np by blast
    have "slab_at h' q u" "slab_at h' p s'" using at u(1) q by simp_all
    moreover have "slab_ok s'" using s'(2) by (simp add: slab_rep_def)
    ultimately have "slot u i \<noteq> slot s' j" if "j < capacity s'" for j
      using slots_differ [OF slabs_okD(2) [OF ok] inv _ slabs_okD(4,5) [OF ok u(1)] u(2) _ s'(1) _ that q] by blast
    then show ?thesis by blast
  qed
  then have rep: "slab_rep u mem ys \<longleftrightarrow> slab_rep u (hp_mem h) ys" if "slab_at h q u" for q u ys
    using that s'(3) by (intro slab_rep_cong) blast
  have dom: "dom (table (hp_fa h')) = dom (table (hp_fa h))"
    unfolding table_dom using upd(1) fa(2) by (simp add: heap_upd_def same_shape_def)
  have "(\<exists>ys. slab_rep u mem ys) \<and> slab_base u = phys_to_virt tr (pfn_pa (of_nat q))" if "slab_at h' q u" for q u
    using that slabs_okD(3,4) [OF ok] s' rep [of q u] unfolding at by (cases "q = p") auto
  then have "slabs_ok tr h'" using ok inv dom by (simp add: slabs_ok_def mem')
  moreover have "linked h' q = linked h q" if "slab_at h' q u" "q \<noteq> p" for q u
    using that same' [of q u] unfolding at by (simp add: linked_def is_linked_def tab)
  moreover have "\<forall>q t. slab_at h' q t \<longleftrightarrow> q \<notin> {} \<and> (if q = p then t = s' else slab_at h q t)" using at by simp
  ultimately show "slab_step tr h h' {} p s'" unfolding slab_step_def by blast
  have "in_use h' = {(slot t i, obj_shift t) | q t ys i. slab_at h q t \<and> q \<noteq> p \<and> slab_rep t (hp_mem h) ys \<and>
      i < capacity t \<and> i \<notin> set ys} \<union> {(slot s' i, obj_shift s') | i. i < capacity s' \<and> i \<notin> set xs}"
    by (rule in_use_upd [OF at]) (simp_all add: mem' rep s'(2))
  also have "\<dots> = in_use h \<union> objs s' ({..<capacity s'} - set xs)"
    using np unfolding in_use_def objs_def by blast
  finally show "in_use h' = in_use h \<union> objs s' ({..<capacity s'} - set xs)" .
  show "in_use h \<inter> objs s' {..<capacity s'} = {}"
  proof (rule equals0I)
    fix a assume "a \<in> in_use h \<inter> objs s' {..<capacity s'}"
    then obtain q u i where "slab_at h q u" "i < capacity u" "slot u i \<in> slot s' ` {..<capacity s'}"
      unfolding in_use_def objs_def by blast
    then show False using apart by blast
  qed
qed

text \<open>A slab from a fresh block.\<close>

lemma slow_alloc_spec:
  assumes ok: "slabs_ok tr h" and agree: "lists_agree m h" and shift: "1 \<le> sm_obj_shift m" "sm_obj_shift m \<le> SLAB_MAX_OBJ_SHIFT"
    and none: "try_alloc m h = Some (None, m, h)"
    and run: "\<exists>p. 2 ^ SLAB_FRAME_ALLOC_ORDER dvd p \<and> blk p SLAB_FRAME_ALLOC_ORDER \<subseteq> free_set (table (hp_fa h))"
  shows "\<exists>ptr m' h'. sm_alloc tr m h = Some (ptr, m', h') \<and> (ptr, sm_obj_shift m) \<notin> in_use h \<and>
      mgr_step tr m h m' h' (insert (ptr, sm_obj_shift m) (in_use h))"
proof -
  let ?r = SLAB_FRAME_ALLOC_ORDER and ?n = "16384 div 2 ^ sm_obj_shift m :: nat"
  note inv = slabs_okD(1) [OF ok]
  have r: "?r \<le> MAX_ORDER" by (simp add: SLAB_FRAME_ALLOC_ORDER_def MAX_ORDER_def)
  obtain p fa where a: "alloc_frames (hp_fa h) ?r = Some (Inr (rnew (pfn_pa (of_nat p)) (push_bit PAGE_SHIFT (push_bit ?r 1))), fa)"
    "fa_inv fa" "blk p ?r \<subseteq> free_set (table (hp_fa h))" "free_set (table fa) = free_set (table (hp_fa h)) - blk p ?r"
    "st_of (table fa) p = Some (AllocatedHead \<lparr>ref_count = 1, order = ?r\<rparr>)"
    "\<forall>q. q \<notin> free_set (table (hp_fa h)) \<longrightarrow> table fa q = table (hp_fa h) q" "same_shape (hp_fa h) fa"
    using alloc_frames_run [OF inv r run] by blast
  let ?rgn = "rnew (pfn_pa (of_nat p)) (push_bit PAGE_SHIFT (push_bit ?r 1)) :: region"
  obtain f where f: "table fa p = Some f" "state f = AllocatedHead \<lparr>ref_count = 1, order = ?r\<rparr>"
    using a(5) by (auto simp: st_of_def)
  have unl: "\<not> link f" using a(2) f unfolding fa_inv_def buddy_inv_def lists_ok_def by blast
  have "dom (table (hp_fa h)) = dom (table fa)" unfolding table_dom using a(7) by (simp add: same_shape_def)
  then have dom: "p \<in> dom (table (hp_fa h))" using f(1) by blast
  have rgn: "rsize ?rgn = SLAB_SIZE_BYTES" "start_address ?rgn = pfn_pa (of_nat p)" "unat (to_pfn (start_address ?rgn)) = p"
    using to_pfn_pa [OF fa_inv_pfn [OF inv dom]]
    by (simp_all add: start_address_def SLAB_SIZE_BYTES_eq PAGE_SHIFT_def SLAB_FRAME_ALLOC_ORDER_def push_bit_eq_mult)
  obtain s mem where s: "slab_new (phys_to_virt tr) (hp_mem h) ?rgn (sm_obj_shift m) = Some (s, mem)"
    "slab_rep s mem [0..<?n]" "obj_shift s = sm_obj_shift m" "slab_base s = phys_to_virt tr (start_address ?rgn)"
    "\<forall>a. a \<notin> slot s ` {..<capacity s} \<longrightarrow> mem a = hp_mem h a"
    using slab_new_spec [OF rgn(1) shift, of "phys_to_virt tr" "hp_mem h"] slabs_okD(6) [OF ok dom] rgn(2) by metis
  have n: "capacity s = ?n" "2 \<le> ?n"
    using capacity_bounds(2) [of s] s(2,3) by (simp_all add: slab_rep_def capacity_eq)
  then have n0: "[0..<?n] = 0 # [1..<?n]" by (simp add: upt_conv_Cons)
  obtain s' where s': "alloc_object s mem = Some (Some (slot s 0), s')" "slab_rep s' mem [1..<?n]"
    "slab_base s' = slab_base s" "obj_shift s' = obj_shift s"
    using alloc_object_Cons [OF s(2) [unfolded n0]] .
  have cong: "slot s' = slot s" "capacity s' = ?n" using slot_cong [OF s'(3,4)] n(1) by simp_all
  have "slab_state s' \<noteq> SlabFull" using slab_rep_state(1) [OF s'(2)] n(2) by simp
  moreover have "0 \<in> {..<capacity s'}" "0 \<notin> set [1..<?n]" using n(2) cong(2) by simp_all
  then have "slab_state s' \<noteq> SlabFree" unfolding slab_rep_state(2) [OF s'(2)] by blast
  ultimately have part: "slab_state s' = SlabPartial" by (cases "slab_state s'") simp_all
  obtain fa2 where fa2: "set_state fa p (Slab s') = Some fa2" "table fa2 = (table fa)(p \<mapsto> f\<lparr>state := Slab s'\<rparr>)"
    "free_lists fa2 = free_lists fa" "free_pages fa2 = free_pages fa" "same_shape fa fa2"
    using set_state_Some [OF f(1)] by metis
  let ?h0 = "\<lparr>hp_fa = fa, hp_mem = mem\<rparr>" and ?h2 = "\<lparr>hp_fa = fa2, hp_mem = mem\<rparr>"
  have h2: "heap_upd ?h0 ?h2 p (f\<lparr>state := Slab s'\<rparr>) mem" using fa2 by (simp add: heap_upd_def)
  have f2: "table (hp_fa ?h2) p = Some (f\<lparr>state := Slab s'\<rparr>)" using fa2(2) by simp
  obtain h' where h': "link_front p (sm_partial m) ?h2 = Some (p # sm_partial m, h')"
    "heap_upd ?h2 h' p (f\<lparr>state := Slab s', link := True\<rparr>) mem"
    by (rule link_front_upd [OF f2, of "sm_partial m"]) (use unl in simp_all)
  have run: "sm_alloc tr m h = Some (slot s 0, m\<lparr>sm_partial := p # sm_partial m\<rparr>, h')"
    using none a(1) s(1) s'(1) fa2(1) h'(1) part rgn(3) by (simp add: sm_alloc_def into_slab_def)
  have base: "slab_base s' = phys_to_virt tr (pfn_pa (of_nat p))" using s(4) s'(3) rgn(2) by simp
  have mem: "\<forall>a. a \<notin> slot s' ` {..<capacity s'} \<longrightarrow> mem a = hp_mem h a" using s(5) cong n(1) by simp
  note fs = fresh_slab [OF ok a(2,7,3) f a(4,6) heap_upd_trans [OF h2 h'(2)] _ base s'(2) mem, simplified]
  have lists: "sm_partial m = []" "sm_free m = []" using try_alloc_spec [OF ok agree] none by (auto split: if_splits)
  have "{..<capacity s'} - {Suc 0..<?n} = {0}" using cong(2) n(2) by auto
  then have use: "in_use h' = insert (slot s 0, sm_obj_shift m) (in_use h)"
    using fs(4) cong(1) s'(4) s(3) by (simp add: objs_def)
  have "(slot s 0, sm_obj_shift m) \<in> objs s' {..<capacity s'}" using cong n(2) s'(4) s(3) by (auto simp: objs_def)
  then have fresh: "(slot s 0, sm_obj_shift m) \<notin> in_use h" using fs(5) by blast
  have "lists_agree (m\<lparr>sm_partial := p # sm_partial m\<rparr>) h'"
    by (rule lists_agree_step [OF agree fs(1)])
      (use s'(4) s(3) fs(2) part lists agree in \<open>simp_all add: lists_agree_def\<close>)
  moreover have "lists_agree n h'" if "lists_agree n h" "sm_obj_shift n \<noteq> sm_obj_shift m" for n
    by (rule lists_agree_other [OF that(1) fs(1)]) (use that(2) s'(4) s(3) fs(3) in auto)
  moreover have "slabs_ok tr h'" using fs(1) by (simp add: slab_step_def)
  ultimately have "mgr_step tr m h (m\<lparr>sm_partial := p # sm_partial m\<rparr>) h' (insert (slot s 0, sm_obj_shift m) (in_use h))"
    using use by (simp add: mgr_step_def)
  with run fresh show ?thesis by blast
qed

lemma sm_alloc_spec:
  assumes ok: "slabs_ok tr h" and agree: "lists_agree m h" and shift: "1 \<le> sm_obj_shift m" "sm_obj_shift m \<le> SLAB_MAX_OBJ_SHIFT"
  shows "if sm_partial m = [] \<and> sm_free m = [] \<and>
      \<not> (\<exists>p. 2 ^ SLAB_FRAME_ALLOC_ORDER dvd p \<and> blk p SLAB_FRAME_ALLOC_ORDER \<subseteq> free_set (table (hp_fa h)))
    then sm_alloc tr m h = None
    else \<exists>ptr m' h'. sm_alloc tr m h = Some (ptr, m', h') \<and> (ptr, sm_obj_shift m) \<notin> in_use h \<and>
      mgr_step tr m h m' h' (insert (ptr, sm_obj_shift m) (in_use h))"
proof (cases "sm_partial m = [] \<and> sm_free m = []")
  case True
  then have none: "try_alloc m h = Some (None, m, h)" using try_alloc_spec [OF ok agree] by simp
  have fa: "fa_ok (hp_fa h)" using slabs_okD(1) [OF ok] by (simp add: fa_inv_def)
  have r: "SLAB_FRAME_ALLOC_ORDER \<le> MAX_ORDER" by (simp add: SLAB_FRAME_ALLOC_ORDER_def MAX_ORDER_def)
  show ?thesis
    using True none alloc_frames_none [OF fa r] slow_alloc_spec [OF ok agree shift none]
    by (auto simp: sm_alloc_def)
next
  case False
  then obtain ptr m' h' where "try_alloc m h = Some (Some ptr, m', h')" "(ptr, sm_obj_shift m) \<notin> in_use h"
    "mgr_step tr m h m' h' (insert (ptr, sm_obj_shift m) (in_use h))"
    using try_alloc_spec [OF ok agree] by (metis (no_types, lifting))
  with False show ?thesis by (auto simp: sm_alloc_def)
qed

section \<open>Freeing an object\<close>

lemma do_free_obj_spec:
  assumes ok: "slabs_ok tr h" and p: "slab_at h p s" "slab_rep s (hp_mem h) xs" and i: "i < capacity s" "i \<notin> set xs"
    and f: "table (hp_fa h) p = Some f"
  shows "\<exists>s' mem' h'. do_free_obj h (unat (to_pfn (virt_to_phys tr (slot s i)))) (slot s i) (obj_shift s) =
      Some (p, slab_state s', h') \<and> heap_upd h h' p (f\<lparr>state := Slab s'\<rparr>) mem' \<and> slab_rep s' mem' (i # xs) \<and>
    slab_base s' = slab_base s \<and> obj_shift s' = obj_shift s \<and>
    (\<forall>a. a \<notin> slot s ` {..<capacity s} \<longrightarrow> mem' a = hp_mem h a)"
proof -
  obtain s' mem' where s': "put_object s (hp_mem h) (slot s i) = Some (s', mem')" "slab_rep s' mem' (i # xs)"
    "slab_base s' = slab_base s" "obj_shift s' = obj_shift s" "\<And>a. a \<noteq> slot s i \<Longrightarrow> mem' a = hp_mem h a"
    using put_object_spec [OF p(2) i] by blast
  obtain h' where h': "hp_set_slab (h\<lparr>hp_mem := mem'\<rparr>) p s' = Some h'"
    "heap_upd (h\<lparr>hp_mem := mem'\<rparr>) h' p (f\<lparr>state := Slab s'\<rparr>) mem'"
    using set_slab_upd [of "h\<lparr>hp_mem := mem'\<rparr>" p f s'] f by auto
  have st: "fa_state (hp_fa h) p = Some (Slab s)" using p(1) by (simp add: slab_at_def fa_state_table)
  then have at_head: "do_free_obj h p (slot s i) (obj_shift s) = Some (p, slab_state s', h')"
    using s'(1) h'(1) by (subst do_free_obj.simps) simp
  let ?q = "unat (to_pfn (virt_to_phys tr (slot s i)))"
  have q: "?q \<in> blk p SLAB_FRAME_ALLOC_ORDER"
    by (rule object_frame [OF slabs_okD(2,1) [OF ok] p(1) slabs_okD(4,5) [OF ok p(1)] i(1)])
  have "do_free_obj h ?q (slot s i) (obj_shift s) = Some (p, slab_state s', h')"
  proof (cases "?q = p")
    case False
    have "Option.bind (st_of (table (hp_fa h)) p) owned_order = Some SLAB_FRAME_ALLOC_ORDER"
      using p(1) by (simp add: slab_at_def)
    then have "st_of (table (hp_fa h)) ?q = Some (AllocatedTail p)"
      using slabs_okD(1) [OF ok] q False unfolding fa_inv_def buddy_inv_def tails_ok_def by blast
    then show ?thesis using at_head by (subst do_free_obj.simps) (simp add: fa_state_table)
  qed (simp add: at_head)
  moreover have "mem' a = hp_mem h a" if "a \<notin> slot s ` {..<capacity s}" for a using that i(1) by (intro s'(5)) blast
  moreover have "heap_upd h h' p (f\<lparr>state := Slab s'\<rparr>) mem'" using h'(2) by (simp add: heap_upd_def)
  ultimately show ?thesis using s'(2-4) by blast
qed

text \<open>Returning one empty slab to the frame allocator.\<close>

lemma release_slab:
  assumes ok: "slabs_ok tr h" and p: "slab_at h p s" "slab_state s = SlabFree"
  shows "\<exists>h1 fa h'. unlink p h = Some h1 \<and> free_slab (hp_fa h1) p = Some fa \<and> h' = h1\<lparr>hp_fa := fa\<rparr> \<and> slabs_ok tr h' \<and>
    (\<forall>q t. slab_at h' q t \<longleftrightarrow> q \<noteq> p \<and> slab_at h q t) \<and> (\<forall>q t. slab_at h' q t \<longrightarrow> linked h' q = linked h q) \<and>
    in_use h' = in_use h \<and> hp_mem h' = hp_mem h"
proof -
  let ?r = SLAB_FRAME_ALLOC_ORDER and ?info = "\<lparr>ref_count = 1, order = SLAB_FRAME_ALLOC_ORDER\<rparr>"
  note inv = slabs_okD(1) [OF ok]
  obtain f where f: "table (hp_fa h) p = Some f" "state f = Slab s" using p(1) by (rule slab_frame)
  obtain h1 where h1: "unlink p h = Some h1" "heap_upd h h1 p (f\<lparr>link := False\<rparr>) (hp_mem h)"
    using f(1) by (rule unlink_upd)
  have f1: "table (hp_fa h1) p = Some (f\<lparr>link := False\<rparr>)" using h1(2) by (simp add: heap_upd_def)
  let ?g = "f\<lparr>link := False, state := AllocatedHead ?info\<rparr>"
  obtain fa2 where fa2: "set_state (hp_fa h1) p (AllocatedHead ?info) = Some fa2"
    "table fa2 = (table (hp_fa h1))(p \<mapsto> ?g)" "free_lists fa2 = free_lists (hp_fa h1)"
    "free_pages fa2 = free_pages (hp_fa h1)" "same_shape (hp_fa h1) fa2"
    using set_state_Some [OF f1] by metis
  have tab2: "table fa2 = (table (hp_fa h))(p \<mapsto> ?g)" using fa2(2) h1(2) by (simp add: heap_upd_def)
  have inv2: "fa_inv fa2" "free_set (table fa2) = free_set (table (hp_fa h))"
    using fa_inv_upd [OF inv f(1) _ _ _ tab2, of ?r] f(2) fa2(3-5) h1(2) by (simp_all add: heap_upd_def same_shape_def)
  have dom: "p \<in> dom (table (hp_fa h))" using f(1) by blast
  let ?rgn = "rnew (pfn_pa (of_nat p)) SLAB_SIZE_BYTES :: region"
  have pfn: "unat (to_pfn (start_address ?rgn)) = p"
    using to_pfn_pa [OF fa_inv_pfn [OF inv dom]] by (simp add: start_address_def)
  have "table fa2 (unat (to_pfn (start_address ?rgn))) = Some ?g" "state ?g = AllocatedHead ?info" "ref_count ?info \<le> 1"
    using tab2 by (simp_all add: pfn)
  then obtain fa where fa: "free_frames fa2 ?rgn = Some fa" "fa_inv fa"
    "free_set (table fa) = free_set (table fa2) \<union> blk p ?r"
    "\<forall>q. q \<notin> free_set (table fa) \<longrightarrow> table fa q = table fa2 q" "same_shape fa2 fa"
    using free_frames_spec [OF inv2(1)] by (metis AllocatedInfo.select_convs(2) pfn)
  let ?h' = "h1\<lparr>hp_fa := fa\<rparr>"
  have mem: "hp_mem ?h' = hp_mem h" using h1(2) by (simp add: heap_upd_def)
  have to: "q \<noteq> p \<and> table fa q = table (hp_fa h) q" if "slab_at ?h' q t" for q t
  proof -
    have nf: "q \<notin> free_set (table fa)" using slab_not_free [OF fa(2)] that by (simp add: slab_at_def)
    then have "q \<noteq> p" using fa(3) blk_self [of p ?r] by blast
    then show ?thesis using nf fa(4) tab2 by simp
  qed
  have kept: "table fa q = table (hp_fa h) q" if "slab_at h q t" "q \<noteq> p" for q t
  proof -
    have "head (table (hp_fa h)) q = Some ?r" "head (table (hp_fa h)) p = Some ?r"
      using that(1) p(1) by (simp_all add: slab_at_def head_def)
    then have "blk q ?r \<inter> blk p ?r = {}" using inv that(2) unfolding fa_inv_def by (meson inv_disjoint)
    then have "q \<notin> blk p ?r" using blk_self [of q ?r] by blast
    moreover have "q \<notin> free_set (table (hp_fa h))" using slab_not_free [OF inv] that(1) by (simp add: slab_at_def)
    ultimately have "q \<notin> free_set (table fa)" using fa(3) inv2(2) by blast
    then show ?thesis using fa(4) tab2 that(2) by simp
  qed
  have at: "slab_at ?h' q t \<longleftrightarrow> q \<noteq> p \<and> slab_at h q t" for q t
    using to [of q t] kept [of q t] unfolding slab_at_def st_of_def by (simp, metis)
  have links: "linked ?h' q = linked h q" if "slab_at ?h' q t" for q t
    using to [OF that] by (simp add: linked_def is_linked_def)
  have dom': "dom (table fa) = dom (table (hp_fa h))"
    unfolding table_dom using fa(5) fa2(5) h1(2) by (simp add: same_shape_def heap_upd_def)
  have "slabs_ok tr ?h'" using ok fa(2) dom' mem unfolding slabs_ok_def at by auto
  moreover have "in_use ?h' = in_use h"
  proof -
    have "q \<noteq> p" if "slab_at h q t" "slab_rep t (hp_mem h) ys" "i < capacity t" "i \<notin> set ys" for q t ys i
      using that p slab_at_unique [OF p(1), of t] slab_rep_state(2) [OF that(2)] by blast
    then show ?thesis unfolding in_use_def at mem by blast
  qed
  moreover have "free_slab (hp_fa h1) p = Some fa"
    using f1 f(2) fa2(1) fa(1) by (simp add: free_slab_def fa_state_def)
  ultimately show ?thesis using h1(1) at links mem by blast
qed

lemma free_slabs_spec:
  assumes "slabs_ok tr h" and "distinct ps" and "n \<le> length ps"
    and "\<forall>p \<in> set (take n ps). \<exists>s. slab_at h p s \<and> slab_state s = SlabFree"
  shows "\<exists>h'. free_slabs n ps h = Some (drop n ps, h') \<and> slabs_ok tr h' \<and>
    (\<forall>q t. slab_at h' q t \<longleftrightarrow> q \<notin> set (take n ps) \<and> slab_at h q t) \<and>
    (\<forall>q t. slab_at h' q t \<longrightarrow> linked h' q = linked h q) \<and> in_use h' = in_use h \<and> hp_mem h' = hp_mem h"
  using assms
proof (induction n ps h rule: free_slabs.induct)
  case (3 n p ps h)
  obtain s where s: "slab_at h p s" "slab_state s = SlabFree" using 3(5) by auto
  obtain h1 fa h2 where step: "unlink p h = Some h1" "free_slab (hp_fa h1) p = Some fa" "h2 = h1\<lparr>hp_fa := fa\<rparr>"
    "slabs_ok tr h2" "\<forall>q t. slab_at h2 q t \<longleftrightarrow> q \<noteq> p \<and> slab_at h q t"
    "\<forall>q t. slab_at h2 q t \<longrightarrow> linked h2 q = linked h q" "in_use h2 = in_use h" "hp_mem h2 = hp_mem h"
    using release_slab [OF 3(2) s] by blast
  have "\<forall>q \<in> set (take n ps). \<exists>s. slab_at h2 q s \<and> slab_state s = SlabFree"
  proof
    fix q assume q: "q \<in> set (take n ps)"
    then have "q \<noteq> p" using 3(3) set_take_subset [of n ps] by auto
    moreover obtain s where "slab_at h q s" "slab_state s = SlabFree" using 3(5) q by auto
    ultimately show "\<exists>s. slab_at h2 q s \<and> slab_state s = SlabFree" using step(5) by blast
  qed
  then obtain h' where h': "free_slabs n ps h2 = Some (drop n ps, h')" "slabs_ok tr h'"
    "\<forall>q t. slab_at h' q t \<longleftrightarrow> q \<notin> set (take n ps) \<and> slab_at h2 q t"
    "\<forall>q t. slab_at h' q t \<longrightarrow> linked h' q = linked h2 q" "in_use h' = in_use h2" "hp_mem h' = hp_mem h2"
    using 3(1) [OF step(1,2), folded step(3), OF step(4)] 3(3,4) by (metis Suc_le_mono distinct.simps(2) length_Cons)
  show ?case
  proof (intro exI [of _ h'] conjI)
    show "free_slabs (Suc n) (p # ps) h = Some (drop (Suc n) (p # ps), h')"
      using step(1,2,3) h'(1) by simp
    show "\<forall>q t. slab_at h' q t \<longleftrightarrow> q \<notin> set (take (Suc n) (p # ps)) \<and> slab_at h q t"
      using h'(3) step(5) by auto
    show "\<forall>q t. slab_at h' q t \<longrightarrow> linked h' q = linked h q" using h'(3,4) step(6) by blast
  qed (use h' step in simp_all)
qed simp_all

text \<open>Moving the slab at \<open>p\<close> between lists only changes its link.\<close>

lemma relink:
  assumes ok: "slabs_ok tr h" and p: "slab_at h p s"
  shows "\<exists>f h1 h2. table (hp_fa h) p = Some f \<and> linked h p = link f \<and> unlink p h = Some h1 \<and>
    (\<forall>ps. link_front p ps h1 = Some (p # ps, h2)) \<and> (\<not> link f \<longrightarrow> (\<forall>ps. \<exists>h3. link_front p ps h = Some (p # ps, h3) \<and>
       slab_step tr h h3 {} p s \<and> linked h3 p \<and> in_use h3 = in_use h)) \<and>
    slab_step tr h h2 {} p s \<and> linked h2 p \<and> in_use h2 = in_use h"
proof -
  obtain f where f: "table (hp_fa h) p = Some f" "state f = Slab s" "linked h p = link f" using p by (rule slab_frame)
  obtain xs where xs: "slab_rep s (hp_mem h) xs" using slabs_okD(3) [OF ok p] by blast
  obtain h1 where h1: "unlink p h = Some h1" "heap_upd h h1 p (f\<lparr>link := False\<rparr>) (hp_mem h)"
    using f(1) by (rule unlink_upd)
  have f1: "table (hp_fa h1) p = Some (f\<lparr>link := False\<rparr>)" "hp_mem h1 = hp_mem h"
    using h1(2) by (simp_all add: heap_upd_def)
  have moved: "slab_step tr h h' {} p s \<and> linked h' p \<and> in_use h' = in_use h"
    if upd: "heap_upd h h' p (f\<lparr>link := True\<rparr>) (hp_mem h)" for h'
  proof -
    have "state (f\<lparr>link := True\<rparr>) = Slab s" using f(2) by simp
    note su = slab_upd [OF ok p xs upd this refl refl xs]
    have same: "\<forall>a. a \<notin> slot s ` {..<capacity s} \<longrightarrow> hp_mem h a = hp_mem h a" by blast
    have "linked h' p" using su(2) [OF same] by simp
    with su(1) [OF same] in_use_same [OF ok p xs su(3) [OF same]] show ?thesis by blast
  qed
  have front: "\<exists>h3. link_front p ps h = Some (p # ps, h3) \<and> heap_upd h h3 p (f\<lparr>link := True\<rparr>) (hp_mem h)" if "\<not> link f" for ps
    using link_front_upd [OF f(1) that, of ps] by blast
  obtain h2 where h2: "link_front p [] h1 = Some ([p], h2)" "heap_upd h1 h2 p (f\<lparr>link := True\<rparr>) (hp_mem h)"
    by (rule link_front_upd [OF f1(1), of "[]"]) (simp_all add: f1(2))
  have any: "\<forall>ps. link_front p ps h1 = Some (p # ps, h2)"
    using h2(1) by (auto simp: link_front_def split: if_splits option.splits bind_splits)
  have unl: "\<not> link f \<longrightarrow> (\<forall>ps. \<exists>h3. link_front p ps h = Some (p # ps, h3) \<and>
       slab_step tr h h3 {} p s \<and> linked h3 p \<and> in_use h3 = in_use h)"
    using front moved by meson
  show ?thesis
    by (intro exI [of _ f] exI [of _ h1] exI [of _ h2] conjI f(1,3) h1(1) any unl)
      (use moved [OF heap_upd_trans [OF h1(2) h2(2)]] in simp_all)
qed

lemma slab_step_compose:
  assumes "slab_step tr h h1 {} p s" and "p \<notin> D"
    and "\<forall>q t. slab_at h2 q t \<longleftrightarrow> q \<notin> D \<and> slab_at h1 q t" "\<forall>q t. slab_at h2 q t \<longrightarrow> linked h2 q = linked h1 q"
    and "slab_step tr h2 h3 {} p s"
  shows "slab_step tr h h3 D p s"
proof -
  have at1: "\<And>q t. slab_at h1 q t \<longleftrightarrow> (if q = p then t = s else slab_at h q t)"
    and lk1: "\<And>q t. slab_at h1 q t \<Longrightarrow> q \<noteq> p \<Longrightarrow> linked h1 q = linked h q" using assms(1) unfolding slab_step_def by (simp, blast)
  have at3: "\<And>q t. slab_at h3 q t \<longleftrightarrow> (if q = p then t = s else slab_at h2 q t)"
    and lk3: "\<And>q t. slab_at h3 q t \<Longrightarrow> q \<noteq> p \<Longrightarrow> linked h3 q = linked h2 q" using assms(5) unfolding slab_step_def by (simp, blast)
  have "slab_at h3 q t \<longleftrightarrow> q \<notin> D \<and> (if q = p then t = s else slab_at h q t)" for q t
    using assms(2,3) by (simp add: at3 at1)
  moreover have "linked h3 q = linked h q" if "slab_at h3 q t" "q \<noteq> p" for q t
  proof -
    have 2: "slab_at h2 q t" using that at3 by simp
    then have "slab_at h1 q t" using assms(3) by blast
    then show ?thesis using lk3 [OF that] lk1 [of q t] assms(4) 2 that(2) by auto
  qed
  moreover have "slabs_ok tr h3" using assms(5) by (simp add: slab_step_def)
  ultimately show ?thesis unfolding slab_step_def by blast
qed

lemma mgr_stepI:
  assumes agree: "lists_agree m h" and step: "slab_step tr h h' D p s'" and s': "obj_shift s' = sm_obj_shift m"
    and old: "\<forall>q \<in> insert p D. \<forall>t. slab_at h q t \<longrightarrow> obj_shift t = sm_obj_shift m"
    and m': "lists_agree m' h'" "sm_obj_shift m' = sm_obj_shift m" and U: "in_use h' = U"
  shows "mgr_step tr m h m' h' U"
proof -
  have "lists_agree n h'" if n: "lists_agree n h" "sm_obj_shift n \<noteq> sm_obj_shift m" for n
    by (rule lists_agree_other [OF n(1) step]) (use s' n(2) old in auto)
  with step m' U show ?thesis by (simp add: mgr_step_def slab_step_def)
qed

text \<open>The batch release that keeps the free list short.\<close>

definition batch :: "slab_manager \<Rightarrow> page_frame set" where
  "batch m = (if free_list_sz m = MAX_FREE_SLABS then set (take (MAX_FREE_SLABS div 2) (sm_free m)) else {})"

lemma batch_spec:
  assumes ok: "slabs_ok tr h1" and sz: "free_list_sz m = length (sm_free m)" and d: "distinct (sm_free m)"
    and free: "\<forall>p \<in> set (sm_free m). \<exists>s. slab_at h1 p s \<and> slab_state s = SlabFree"
  shows "\<exists>m1 h2. (if free_list_sz m = MAX_FREE_SLABS
       then map_option (\<lambda>(ps, h). (m\<lparr>sm_free := ps, free_list_sz := free_list_sz m - MAX_FREE_SLABS div 2\<rparr>, h))
              (free_slabs (MAX_FREE_SLABS div 2) (sm_free m) h1)
       else Some (m, h1)) = Some (m1, h2) \<and> slabs_ok tr h2 \<and>
     (\<forall>q t. slab_at h2 q t \<longleftrightarrow> q \<notin> batch m \<and> slab_at h1 q t) \<and> (\<forall>q t. slab_at h2 q t \<longrightarrow> linked h2 q = linked h1 q) \<and>
     in_use h2 = in_use h1 \<and> hp_mem h2 = hp_mem h1 \<and> sm_partial m1 = sm_partial m \<and> sm_obj_shift m1 = sm_obj_shift m \<and>
     set (sm_free m1) = set (sm_free m) - batch m \<and> distinct (sm_free m1) \<and> free_list_sz m1 = length (sm_free m1) \<and>
     free_list_sz m1 \<noteq> MAX_FREE_SLABS \<and> free_list_sz m1 \<le> free_list_sz m"
proof (cases "free_list_sz m = MAX_FREE_SLABS")
  case True
  let ?n = "MAX_FREE_SLABS div 2"
  have n: "?n \<le> length (sm_free m)" using True sz by (simp add: MAX_FREE_SLABS_def)
  have "\<forall>p \<in> set (take ?n (sm_free m)). \<exists>s. slab_at h1 p s \<and> slab_state s = SlabFree"
    using free set_take_subset [of ?n "sm_free m"] by blast
  then obtain h2 where h2: "free_slabs ?n (sm_free m) h1 = Some (drop ?n (sm_free m), h2)" "slabs_ok tr h2"
    "\<forall>q t. slab_at h2 q t \<longleftrightarrow> q \<notin> set (take ?n (sm_free m)) \<and> slab_at h1 q t"
    "\<forall>q t. slab_at h2 q t \<longrightarrow> linked h2 q = linked h1 q" "in_use h2 = in_use h1" "hp_mem h2 = hp_mem h1"
    using free_slabs_spec [OF ok d n] by blast
  have "set (take ?n (sm_free m)) \<inter> set (drop ?n (sm_free m)) = {}"
    using d by (metis append_take_drop_id distinct_append)
  moreover have "set (sm_free m) = set (take ?n (sm_free m)) \<union> set (drop ?n (sm_free m))"
    by (metis append_take_drop_id set_append)
  ultimately have "set (drop ?n (sm_free m)) = set (sm_free m) - batch m" using True by (auto simp: batch_def)
  then show ?thesis using True h2 d sz
    by (intro exI [of _ "m\<lparr>sm_free := drop ?n (sm_free m), free_list_sz := free_list_sz m - ?n\<rparr>"] exI [of _ h2])
      (simp add: batch_def MAX_FREE_SLABS_def)
qed (use assms in \<open>simp add: batch_def\<close>)


text \<open>What \<open>do_free_obj\<close> does to the slabs and the objects in use, before the lists are updated.\<close>

lemma put_back:
  assumes ok: "slabs_ok tr h" and u: "(ptr, k) \<in> in_use h"
  shows "\<exists>p s s' h1. slab_at h p s \<and> obj_shift s = k \<and> slab_state s \<noteq> SlabFree \<and>
    do_free_obj h (unat (to_pfn (virt_to_phys tr ptr))) ptr k = Some (p, slab_state s', h1) \<and>
    slab_step tr h h1 {} p s' \<and> obj_shift s' = k \<and> slab_state s' \<noteq> SlabFull \<and> linked h1 p = linked h p \<and>
    (slab_state s' = SlabFree \<longrightarrow> slab_state s = SlabPartial) \<and> in_use h1 = in_use h - {(ptr, k)}"
proof -
  obtain p s xs i where p: "slab_at h p s" "slab_rep s (hp_mem h) xs" and i: "i < capacity s" "i \<notin> set xs"
    and k: "k = obj_shift s" and ptr: "ptr = slot s i"
    using u unfolding in_use_def by blast
  obtain f where f: "table (hp_fa h) p = Some f" "linked h p = link f" using p(1) by (rule slab_frame)
  obtain s' mem' h1 where r: "do_free_obj h (unat (to_pfn (virt_to_phys tr ptr))) ptr k = Some (p, slab_state s', h1)"
    "heap_upd h h1 p (f\<lparr>state := Slab s'\<rparr>) mem'" "slab_rep s' mem' (i # xs)"
    "slab_base s' = slab_base s" "obj_shift s' = obj_shift s" "\<forall>a. a \<notin> slot s ` {..<capacity s} \<longrightarrow> mem' a = hp_mem h a"
    using do_free_obj_spec [OF ok p i f(1)] unfolding k ptr by blast
  note su = slab_upd [OF ok p r(2) _ r(4,5,3,6), simplified]
  have full: "slab_state s' \<noteq> SlabFull" using slab_rep_state(1) [OF r(3)] by simp
  have nfree: "slab_state s \<noteq> SlabFree" using slab_rep_state(2) [OF p(2)] i by auto
  have "slab_state s = SlabPartial" if "slab_state s' = SlabFree"
  proof -
    have cap: "capacity s' = capacity s" "2 \<le> capacity s"
      using slot_cong [OF r(4,5)] capacity_bounds(2) [OF slabs_okD(5) [OF ok p(1)]] by simp_all
    have "card (set (i # xs)) = capacity s" using slab_rep_state(2) [OF r(3)] that cap(1) by simp
    moreover have "card (set (i # xs)) \<le> length (i # xs)" by (rule card_length)
    ultimately have "xs \<noteq> []" using cap(2) by auto
    then show ?thesis using slab_rep_state(1) [OF p(2)] nfree by (cases "slab_state s") simp_all
  qed
  moreover have "in_use h1 = in_use h - {(ptr, k)}"
    unfolding k ptr by (rule in_use_give [OF ok p i]) (use su(3) in simp)
  moreover have "linked h1 p = linked h p" using su(2) f(2) by simp
  ultimately show ?thesis using p(1) k nfree r(1) su(1) r(5) full by metis
qed

lemma sm_free_spec:
  assumes ok: "slabs_ok tr h" and agree: "lists_agree m h" and u: "(ptr, sm_obj_shift m) \<in> in_use h"
  shows "\<exists>m' h'. sm_free_obj tr m h ptr = Some (m', h') \<and> mgr_step tr m h m' h' (in_use h - {(ptr, sm_obj_shift m)})"
proof -
  obtain p s s' h1 where p: "slab_at h p s" "obj_shift s = sm_obj_shift m" "slab_state s \<noteq> SlabFree"
    and run: "do_free_obj h (unat (to_pfn (virt_to_phys tr ptr))) ptr (sm_obj_shift m) = Some (p, slab_state s', h1)"
    and s1: "slab_step tr h h1 {} p s'" and s': "obj_shift s' = sm_obj_shift m" "slab_state s' \<noteq> SlabFull"
    and lk: "linked h1 p = linked h p" and part: "slab_state s' = SlabFree \<longrightarrow> slab_state s = SlabPartial"
    and use: "in_use h1 = in_use h - {(ptr, sm_obj_shift m)}"
    using put_back [OF ok u] by blast
  have ok1: "slabs_ok tr h1" and at1: "slab_at h1 p s'" using s1 by (simp_all add: slab_step_def)
  have mp: "p \<notin> set (sm_free m)" "p \<in> set (sm_partial m) \<longleftrightarrow> slab_state s = SlabPartial" "linked h p \<longleftrightarrow> slab_state s \<noteq> SlabFull"
    using agree p unfolding lists_agree_def by blast+
  have m: "distinct (sm_free m)" "distinct (sm_partial m)" "free_list_sz m = length (sm_free m)" "free_list_sz m \<le> MAX_FREE_SLABS"
    using agree by (simp_all add: lists_agree_def)
  have old: "\<forall>q \<in> insert p D. \<forall>t. slab_at h q t \<longrightarrow> obj_shift t = sm_obj_shift m" if "D \<subseteq> set (sm_free m)" for D
    using agree that p slab_at_unique unfolding lists_agree_def by blast
  have il: "is_linked (hp_fa h1) p = Some (linked h1 p)"
    using at1 by (auto simp: slab_at_def st_of_def linked_def is_linked_def)
  show ?thesis
  proof (cases "slab_state s' = SlabFree")
    case False
    then have sp: "slab_state s' = SlabPartial" using s'(2) by (cases "slab_state s'") simp_all
    show ?thesis
    proof (cases "linked h1 p")
      case True
      have "slab_state s = SlabPartial" using True lk mp(3) p(3) by (cases "slab_state s") simp_all
      then have "lists_agree m h1"
        by (intro lists_agree_step [OF agree s1 s'(1)]) (use True sp mp m in auto)
      then have "mgr_step tr m h m h1 (in_use h - {(ptr, sm_obj_shift m)})"
        by (intro mgr_stepI [OF agree s1 s'(1)]) (use old [of "{}"] use in simp_all)
      then show ?thesis using run il True sp by (simp add: sm_free_obj_def)
    next
      case False
      obtain h3 where h3: "link_front p (sm_partial m) h1 = Some (p # sm_partial m, h3)"
        "slab_step tr h1 h3 {} p s'" "linked h3 p" "in_use h3 = in_use h1"
        using relink [OF ok1 at1] False by metis
      have s3: "slab_step tr h h3 {} p s'" by (rule slab_step_compose [OF s1 _ _ _ h3(2)]) simp_all
      have "p \<notin> set (sm_partial m)" using mp False lk by auto
      then have "lists_agree (m\<lparr>sm_partial := p # sm_partial m\<rparr>) h3"
        by (intro lists_agree_step [OF agree s3 s'(1)]) (use h3(3) sp mp m in auto)
      then have "mgr_step tr m h (m\<lparr>sm_partial := p # sm_partial m\<rparr>) h3 (in_use h - {(ptr, sm_obj_shift m)})"
        by (intro mgr_stepI [OF agree s3 s'(1)]) (use old [of "{}"] use h3(4) in simp_all)
      then show ?thesis using run il False sp h3(1) by (simp add: sm_free_obj_def)
    qed
  next
    case True
    then have sP: "slab_state s = SlabPartial" using part by blast
    then have inp: "p \<in> set (sm_partial m)" and l1: "linked h1 p" using mp lk by simp_all
    have bm: "batch m \<subseteq> set (sm_free m)" using set_take_subset [of _ "sm_free m"] by (auto simp: batch_def)
    have free: "\<forall>q \<in> set (sm_free m). \<exists>t. slab_at h1 q t \<and> slab_state t = SlabFree"
    proof
      fix q assume q: "q \<in> set (sm_free m)"
      then obtain t where t: "slab_at h q t" "obj_shift t = sm_obj_shift m" using agree unfolding lists_agree_def by blast
      moreover have "slab_state t = SlabFree" using agree q t unfolding lists_agree_def by blast
      moreover have "q \<noteq> p" using q mp(1) by blast
      ultimately show "\<exists>t. slab_at h1 q t \<and> slab_state t = SlabFree" using s1 by (auto simp: slab_step_def)
    qed
    obtain m1 h2 where b: "(if free_list_sz m = MAX_FREE_SLABS
       then map_option (\<lambda>(ps, h). (m\<lparr>sm_free := ps, free_list_sz := free_list_sz m - MAX_FREE_SLABS div 2\<rparr>, h))
              (free_slabs (MAX_FREE_SLABS div 2) (sm_free m) h1)
       else Some (m, h1)) = Some (m1, h2)" "slabs_ok tr h2"
      "\<forall>q t. slab_at h2 q t \<longleftrightarrow> q \<notin> batch m \<and> slab_at h1 q t" "\<forall>q t. slab_at h2 q t \<longrightarrow> linked h2 q = linked h1 q"
      "in_use h2 = in_use h1" "sm_partial m1 = sm_partial m" "sm_obj_shift m1 = sm_obj_shift m"
      "set (sm_free m1) = set (sm_free m) - batch m" "distinct (sm_free m1)" "free_list_sz m1 = length (sm_free m1)"
      "free_list_sz m1 \<noteq> MAX_FREE_SLABS" "free_list_sz m1 \<le> free_list_sz m"
      using batch_spec [OF ok1 m(3,1) free] by blast
    have pD: "p \<notin> batch m" using bm mp(1) by blast
    then have at2: "slab_at h2 p s'" using b(3) at1 by blast
    obtain h3 h4 where h4: "unlink p h2 = Some h3" "\<forall>ps. link_front p ps h3 = Some (p # ps, h4)"
      "slab_step tr h2 h4 {} p s'" "linked h4 p" "in_use h4 = in_use h2"
      using relink [OF b(2) at2] by blast
    let ?m = "m1\<lparr>sm_partial := remove1 p (sm_partial m), sm_free := p # sm_free m1, free_list_sz := free_list_sz m1 + 1\<rparr>"
    have s4: "slab_step tr h h4 (batch m) p s'" by (rule slab_step_compose [OF s1 pD b(3,4) h4(3)])
    have bp: "batch m \<inter> set (sm_partial m) = {}"
    proof -
      have False if q: "q \<in> set (sm_free m)" "q \<in> set (sm_partial m)" for q
        using agree q unfolding lists_agree_def by (metis SlabState.distinct(1) UnI1)
      then show ?thesis using bm by blast
    qed
    have run': "sm_free_obj tr m h ptr = Some (?m, h4)"
      unfolding sm_free_obj_def run using True il l1 inp b(1,6) h4(1,2) by simp
    have "lists_agree ?m h4"
      by (rule lists_agree_step [OF agree s4 s'(1)])
        (use True h4(4) pD b(6-12) m mp(1) bp in \<open>auto simp: MAX_FREE_SLABS_def\<close>)
    then have "mgr_step tr m h ?m h4 (in_use h - {(ptr, sm_obj_shift m)})"
      by (intro mgr_stepI [OF agree s4 s'(1)]) (use old [OF bm] use b(5,7) h4(5) in simp_all)
    with run' show ?thesis by blast
  qed
qed

end
