(* ===== verification/Kernel_Heap.thy ===== *)
theory Kernel_Heap
  imports Slab_Manager
begin

text \<open>
  The kernel heap: the per-CPU caches in front of the slab managers. A cache line is a bounded
  stack of objects, all of which the managers count as in use; an object is live when it is
  in use and in no cache. \<open>kheap_alloc\<close> hands out an object that was not live and
  \<open>kheap_dealloc\<close> takes it back.
\<close>

section \<open>A cache line as a bounded stack\<close>

definition pc_ok :: "ptr_cache \<Rightarrow> bool" where
  "pc_ok c \<longleftrightarrow> length (pc_ptrs c) = PTRS_PER_SZ_CLASS \<and> pc_next_free c \<le> PTRS_PER_SZ_CLASS"

definition pc_list :: "ptr_cache \<Rightarrow> addr list" where
  "pc_list c = take (pc_next_free c) (pc_ptrs c)"

lemma length_pc_list: "pc_ok c \<Longrightarrow> length (pc_list c) = pc_next_free c"
  by (simp add: pc_ok_def pc_list_def)

lemma pc_push_spec:
  assumes "pc_ok c" and "\<not> pc_is_full c"
  shows "\<exists>c'. pc_push c x = Some c' \<and> pc_ok c' \<and> pc_list c' = pc_list c @ [x]"
  using assms by (simp add: pc_ok_def pc_is_full_def pc_push_def pc_list_def take_Suc_conv_app_nth)

lemma pc_pop_spec:
  assumes "pc_ok c" and "pc_next_free c = Suc n"
  shows "n < length (pc_ptrs c)" and "pc_ok (c\<lparr>pc_next_free := n\<rparr>)"
    and "pc_list c = pc_list (c\<lparr>pc_next_free := n\<rparr>) @ [pc_ptrs c ! n]"
  using assms by (simp_all add: pc_ok_def pc_list_def take_Suc_conv_app_nth)

lemma pc_alloc_spec:
  assumes "pc_ok c"
  shows "if pc_list c = [] then pc_alloc c = Some (None, c)
    else \<exists>c'. pc_alloc c = Some (Some (last (pc_list c)), c') \<and> pc_ok c' \<and> pc_list c' = butlast (pc_list c)"
proof (cases "pc_next_free c")
  case 0
  then show ?thesis by (simp add: pc_alloc_def pc_is_empty_def pc_list_def)
next
  case (Suc n)
  note pop = pc_pop_spec [OF assms Suc]
  show ?thesis using pop(1,2) Suc unfolding pop(3) by (simp add: pc_alloc_def pc_is_empty_def)
qed

lemma pc_free_spec:
  assumes "pc_ok c"
  shows "if length (pc_list c) = PTRS_PER_SZ_CLASS then pc_free c x = Some (Inl x, c)
    else \<exists>c'. pc_free c x = Some (Inr (), c') \<and> pc_ok c' \<and> pc_list c' = pc_list c @ [x]"
  using pc_push_spec [OF assms, of x] length_pc_list [OF assms] by (auto simp: pc_free_def pc_is_full_def)

section \<open>Moving objects between a cache line and its manager\<close>

definition tag :: "nat \<Rightarrow> addr list \<Rightarrow> (addr \<times> nat) set" where
  "tag k xs = (\<lambda>x. (x, k)) ` set xs"

lemma tag_simps [simp]:
  "tag k [] = {}" "tag k (x # xs) = insert (x, k) (tag k xs)" "tag k (xs @ ys) = tag k xs \<union> tag k ys"
  by (auto simp: tag_def)

lemma tag_mem [simp]: "(x, j) \<in> tag k xs \<longleftrightarrow> j = k \<and> x \<in> set xs"
  by (auto simp: tag_def)

lemma mgr_step_refl: "slabs_ok tr h \<Longrightarrow> lists_agree m h \<Longrightarrow> mgr_step tr m h m h (in_use h)"
  by (simp add: mgr_step_def)

lemma mgr_step_trans: "mgr_step tr m h m1 h1 U \<Longrightarrow> mgr_step tr m1 h1 m2 h2 W \<Longrightarrow> mgr_step tr m h m2 h2 W"
  unfolding mgr_step_def by auto

lemma mgr_stepD:
  assumes "mgr_step tr m h m' h' U"
  shows "slabs_ok tr h'" and "lists_agree m' h'" and "sm_obj_shift m' = sm_obj_shift m" and "in_use h' = U"
  using assms by (simp_all add: mgr_step_def)

lemma fill_loop_spec:
  assumes "slabs_ok tr h" and "lists_agree m h" and "pc_ok c" and "sm_obj_shift m = k"
  shows "\<exists>xs c' m' h'. fill_loop n c m h = Some (c', m', h') \<and> pc_ok c' \<and> pc_list c' = pc_list c @ xs \<and>
    distinct xs \<and> tag k xs \<inter> in_use h = {} \<and> mgr_step tr m h m' h' (in_use h \<union> tag k xs)"
  using assms
proof (induction n arbitrary: c m h)
  case 0
  then show ?case using mgr_step_refl by (intro exI [of _ "[]"]) auto
next
  case (Suc n)
  note tried = try_alloc_spec [OF Suc.prems(1,2)]
  consider "pc_is_full c" | "\<not> pc_is_full c" "sm_partial m = [] \<and> sm_free m = []"
    | "\<not> pc_is_full c" "\<not> (sm_partial m = [] \<and> sm_free m = [])" by blast
  then show ?case
  proof cases
    case 3
    then obtain x m1 h1 where x: "try_alloc m h = Some (Some x, m1, h1)" "(x, sm_obj_shift m) \<notin> in_use h"
      "mgr_step tr m h m1 h1 (insert (x, sm_obj_shift m) (in_use h))" using tried by (metis (no_types, lifting))
    obtain c1 where c1: "pc_push c x = Some c1" "pc_ok c1" "pc_list c1 = pc_list c @ [x]"
      using pc_push_spec [OF Suc.prems(3) 3(1)] by blast
    note st = mgr_stepD [OF x(3)]
    obtain xs c' m' h' where r: "fill_loop n c1 m1 h1 = Some (c', m', h')" "pc_ok c'" "pc_list c' = pc_list c1 @ xs"
      "distinct xs" "tag k xs \<inter> in_use h1 = {}" "mgr_step tr m1 h1 m' h' (in_use h1 \<union> tag k xs)"
      using Suc.IH [OF st(1,2) c1(2)] st(3) Suc.prems(4) by metis
    show ?thesis
    proof (intro exI [of _ "x # xs"] exI conjI)
      show "fill_loop (Suc n) c m h = Some (c', m', h')" using 3(1) x(1) c1(1) r(1) by simp
      show "mgr_step tr m h m' h' (in_use h \<union> tag k (x # xs))"
        using mgr_step_trans [OF x(3) r(6)] Suc.prems(4) st(4) by simp
    qed (use r c1 x(2) st(4) Suc.prems(4) in auto)
  qed (use Suc.prems tried mgr_step_refl in \<open>intro exI [of _ "[]"], auto\<close>)+
qed

lemma drain_loop_spec:
  assumes "slabs_ok tr h" and "lists_agree m h" and "pc_ok c" and "sm_obj_shift m = k" and "n \<le> length (pc_list c)"
    and "distinct (pc_list c)" and "tag k (pc_list c) \<subseteq> in_use h"
  shows "\<exists>c' m' h'. drain_loop n tr c m h = Some (c', m', h') \<and> pc_ok c' \<and>
    pc_list c' = take (length (pc_list c) - n) (pc_list c) \<and>
    mgr_step tr m h m' h' (in_use h - tag k (drop (length (pc_list c) - n) (pc_list c)))"
  using assms
proof (induction n arbitrary: c m h)
  case 0
  then show ?case using mgr_step_refl by auto
next
  case (Suc n)
  obtain j where j: "pc_next_free c = Suc j" using Suc.prems(5) length_pc_list [OF Suc.prems(3)] by (cases "pc_next_free c") auto
  let ?c = "c\<lparr>pc_next_free := j\<rparr>" and ?x = "pc_ptrs c ! j"
  note pop = pc_pop_spec [OF Suc.prems(3) j]
  have x: "(?x, sm_obj_shift m) \<in> in_use h" using Suc.prems(4,7) unfolding pop(3) by auto
  obtain m1 h1 where f: "sm_free_obj tr m h ?x = Some (m1, h1)" "mgr_step tr m h m1 h1 (in_use h - {(?x, sm_obj_shift m)})"
    using sm_free_spec [OF Suc.prems(1,2) x] by blast
  note st = mgr_stepD [OF f(2)]
  have d: "distinct (pc_list ?c)" "?x \<notin> set (pc_list ?c)" using Suc.prems(6) unfolding pop(3) by simp_all
  have sub: "tag k (pc_list ?c) \<subseteq> in_use h1" using Suc.prems(7) d(2) st(4) unfolding pop(3) by auto
  have n: "n \<le> length (pc_list ?c)" using Suc.prems(5) unfolding pop(3) by simp
  obtain c' m' h' where r: "drain_loop n tr ?c m1 h1 = Some (c', m', h')" "pc_ok c'"
    "pc_list c' = take (length (pc_list ?c) - n) (pc_list ?c)"
    "mgr_step tr m1 h1 m' h' (in_use h1 - tag k (drop (length (pc_list ?c) - n) (pc_list ?c)))"
    using Suc.IH [OF st(1,2) pop(2) _ n d(1) sub] st(3) Suc.prems(4) by metis
  show ?case
  proof (intro exI conjI)
    show "drain_loop (Suc n) tr c m h = Some (c', m', h')" using j pop(1) f(1) r(1) by simp
    show "pc_list c' = take (length (pc_list c) - Suc n) (pc_list c)" using r(3) unfolding pop(3) by simp
    have "in_use h - tag k (drop (length (pc_list c) - Suc n) (pc_list c)) =
        in_use h1 - tag k (drop (length (pc_list ?c) - n) (pc_list ?c))"
      using st(4) Suc.prems(4) unfolding pop(3) by auto
    then show "mgr_step tr m h m' h' (in_use h - tag k (drop (length (pc_list c) - Suc n) (pc_list c)))"
      using mgr_step_trans [OF f(2) r(4)] by simp
  qed (rule r(2))
qed

section \<open>Live objects\<close>

definition kh_inv :: "translator \<Rightarrow> kheap \<Rightarrow> bool" where
  "kh_inv tr k \<longleftrightarrow> slabs_ok tr (kh_heap k) \<and> length (kh_managers k) = NUM_PTR_CACHES \<and>
     length (kh_cache k) = NUM_PTR_CACHES \<and>
     (\<forall>i < NUM_PTR_CACHES.
        lists_agree (kh_managers k ! i) (kh_heap k) \<and> sm_obj_shift (kh_managers k ! i) = i \<and>
        pc_ok (kh_cache k ! i) \<and> distinct (pc_list (kh_cache k ! i)) \<and>
        tag i (pc_list (kh_cache k ! i)) \<subseteq> in_use (kh_heap k))"

definition live :: "kheap \<Rightarrow> (addr \<times> nat) set" where
  "live k = {(x, i). (x, i) \<in> in_use (kh_heap k) \<and> \<not> (i < length (kh_cache k) \<and> x \<in> set (pc_list (kh_cache k ! i)))}"

lemma kh_invD:
  assumes "kh_inv tr k"
  shows "slabs_ok tr (kh_heap k)" and "length (kh_managers k) = NUM_PTR_CACHES" and "length (kh_cache k) = NUM_PTR_CACHES"
    and "i < NUM_PTR_CACHES \<Longrightarrow> lists_agree (kh_managers k ! i) (kh_heap k)"
    and "i < NUM_PTR_CACHES \<Longrightarrow> sm_obj_shift (kh_managers k ! i) = i"
    and "i < NUM_PTR_CACHES \<Longrightarrow> pc_ok (kh_cache k ! i)"
    and "i < NUM_PTR_CACHES \<Longrightarrow> distinct (pc_list (kh_cache k ! i))"
    and "i < NUM_PTR_CACHES \<Longrightarrow> tag i (pc_list (kh_cache k ! i)) \<subseteq> in_use (kh_heap k)"
  using assms unfolding kh_inv_def by blast+

lemma kh_inv_upd:
  assumes inv: "kh_inv tr k" and i: "i < NUM_PTR_CACHES" and step: "mgr_step tr (kh_managers k ! i) (kh_heap k) m h U"
    and c: "pc_ok c" "distinct (pc_list c)" "tag i (pc_list c) \<subseteq> U"
    and other: "\<And>x j. j \<noteq> i \<Longrightarrow> (x, j) \<in> U \<longleftrightarrow> (x, j) \<in> in_use (kh_heap k)"
  defines "k' \<equiv> \<lparr>kh_heap = h, kh_managers = (kh_managers k)[i := m], kh_cache = (kh_cache k)[i := c]\<rparr>"
  shows "kh_inv tr k'" and "(x, j) \<in> live k' \<longleftrightarrow>
    (if j = i then (x, i) \<in> U \<and> x \<notin> set (pc_list c) else (x, j) \<in> live k)"
proof -
  note inv' = kh_invD [OF inv]
  have st: "slabs_ok tr h" "lists_agree m h" "sm_obj_shift m = i" "in_use h = U"
    using mgr_stepD [OF step] inv'(5) [OF i] by simp_all
  have keep: "lists_agree n h" if "lists_agree n (kh_heap k)" "sm_obj_shift n \<noteq> i" for n
    using step that inv'(5) [OF i] unfolding mgr_step_def by simp
  have oth: "lists_agree (kh_managers k ! j) h" if "j < NUM_PTR_CACHES" "j \<noteq> i" for j
    by (rule keep [OF inv'(4) [OF that(1)]]) (simp add: inv'(5) [OF that(1)] that(2))
  have sub: "tag j (pc_list (kh_cache k ! j)) \<subseteq> U" if "j < NUM_PTR_CACHES" "j \<noteq> i" for j
    using inv'(8) [OF that(1)] other [OF that(2)] by (auto simp: tag_def)
  show "kh_inv tr k'"
    using st inv' oth sub c i unfolding kh_inv_def by (simp add: k'_def nth_list_update)
  show "(x, j) \<in> live k' \<longleftrightarrow> (if j = i then (x, i) \<in> U \<and> x \<notin> set (pc_list c) else (x, j) \<in> live k)"
    using i inv'(3) st(4) other [of j x] by (auto simp: live_def k'_def)
qed

lemma alloc_order_class:
  assumes "alloc_order l = Some (Some i)"
  shows "1 \<le> i" and "i \<le> SLAB_MAX_OBJ_SHIFT" and "i < NUM_PTR_CACHES"
  using assms by (auto simp: alloc_order_def NUM_PTR_CACHES_def SLAB_MAX_OBJ_SHIFT_def split: if_splits)

lemma get_cache_class:
  "alloc_order l = Some (Some i) \<Longrightarrow> kh_inv tr k \<Longrightarrow> get_cache (kh_cache k) l = Some (Some (i, kh_cache k ! i))"
  using alloc_order_class(3) by (simp add: get_cache_def kh_invD(3))

abbreviation free_run :: "nat \<Rightarrow> frame_alloc \<Rightarrow> bool" where
  "free_run r fa \<equiv> \<exists>p. 2 ^ r dvd p \<and> blk p r \<subseteq> free_set (table fa)"

lemma kheap_alloc_run:
  assumes inv: "kh_inv tr k" and l: "alloc_order l = Some (Some i)"
    and run: "pc_list (kh_cache k ! i) \<noteq> [] \<or> sm_alloc tr (kh_managers k ! i) (kh_heap k) \<noteq> None"
  shows "\<exists>ptr k'. kheap_alloc tr k l = Some (ptr, k') \<and> kh_inv tr k' \<and> (ptr, i) \<notin> live k \<and>
    live k' = insert (ptr, i) (live k)"
proof -
  note i = alloc_order_class [OF l]
  note inv' = kh_invD [OF inv] and ci = kh_invD(4-8) [OF inv i(3)]
  let ?c = "kh_cache k ! i" and ?m = "kh_managers k ! i"
  have line: "get_cache (kh_cache k) l = Some (Some (i, ?c))" by (rule get_cache_class [OF l inv])
  show ?thesis
  proof (cases "pc_list ?c = []")
    case False
    then obtain zs z where zs: "pc_list ?c = zs @ [z]" by (cases "pc_list ?c" rule: rev_cases) auto
    then obtain c where c: "pc_alloc ?c = Some (Some z, c)" "pc_ok c" "pc_list c = zs"
      using pc_alloc_spec [OF ci(3)] by auto
    have d: "distinct (pc_list c)" "z \<notin> set zs" using ci(4) by (simp_all add: zs c(3))
    have sub: "tag i (pc_list c) \<subseteq> in_use (kh_heap k)" "(z, i) \<in> in_use (kh_heap k)"
      using ci(5) by (simp_all add: zs c(3))
    note upd = kh_inv_upd [OF inv i(3) mgr_step_refl [OF inv'(1) ci(1)] c(2) d(1) sub(1) refl]
    have k': "k\<lparr>kh_cache := (kh_cache k)[i := c]\<rparr> =
        \<lparr>kh_heap = kh_heap k, kh_managers = (kh_managers k)[i := ?m], kh_cache = (kh_cache k)[i := c]\<rparr>" by simp
    have "(x, j) \<in> live (k\<lparr>kh_cache := (kh_cache k)[i := c]\<rparr>) \<longleftrightarrow> (x, j) = (z, i) \<or> (x, j) \<in> live k" for x j
      unfolding k' upd(2) using i(3) inv'(3) sub(2) d(2) by (auto simp: live_def zs c(3))
    then have "live (k\<lparr>kh_cache := (kh_cache k)[i := c]\<rparr>) = insert (z, i) (live k)" by auto
    moreover have "(z, i) \<notin> live k" using i(3) inv'(3) by (simp add: live_def zs)
    moreover have "kheap_alloc tr k l = Some (z, k\<lparr>kh_cache := (kh_cache k)[i := c]\<rparr>)"
      using line c(1) by (simp add: kheap_alloc_def)
    ultimately show ?thesis using upd(1) unfolding k' [symmetric] by blast
  next
    case True
    obtain ptr m1 h1 where a: "sm_alloc tr ?m (kh_heap k) = Some (ptr, m1, h1)" "(ptr, i) \<notin> in_use (kh_heap k)"
      "mgr_step tr ?m (kh_heap k) m1 h1 (insert (ptr, i) (in_use (kh_heap k)))"
      using sm_alloc_spec [OF inv'(1) ci(1)] i(1,2) ci(2) run True by (metis (no_types, lifting))
    note st = mgr_stepD [OF a(3)]
    obtain xs c m2 h2 where f: "fill_from ?c m1 h1 = Some (c, m2, h2)" "pc_ok c" "pc_list c = xs" "distinct xs"
      "tag i xs \<inter> in_use h1 = {}" "mgr_step tr m1 h1 m2 h2 (in_use h1 \<union> tag i xs)"
      using fill_loop_spec [OF st(1,2) ci(3), of i] st(3) ci(2) True unfolding fill_from_def by (metis append_Nil)
    let ?k = "\<lparr>kh_heap = h2, kh_managers = (kh_managers k)[i := m2], kh_cache = (kh_cache k)[i := c]\<rparr>"
    let ?U = "insert (ptr, i) (in_use (kh_heap k)) \<union> tag i xs"
    have step: "mgr_step tr ?m (kh_heap k) m2 h2 ?U" using mgr_step_trans [OF a(3) f(6)] st(4) by simp
    have "tag i (pc_list c) \<subseteq> ?U" "\<And>x j. j \<noteq> i \<Longrightarrow> (x, j) \<in> ?U \<longleftrightarrow> (x, j) \<in> in_use (kh_heap k)" using f(3) by auto
    note upd = kh_inv_upd [OF inv i(3) step f(2) _ this] 
    have "(x, i) \<notin> in_use h1" if "x \<in> set xs" for x using that f(5) tag_mem [of x i i xs] by blast
    then have disj: "(x, i) \<notin> in_use (kh_heap k)" "x \<noteq> ptr" if "x \<in> set xs" for x using that st(4) by auto
    have "(x, j) \<in> live ?k \<longleftrightarrow> (x, j) = (ptr, i) \<or> (x, j) \<in> live k" for x j
      using disj True i(3) inv'(3) f(3,4) by (subst upd(2)) (auto simp: live_def)
    then have "live ?k = insert (ptr, i) (live k)" by auto
    moreover have "(ptr, i) \<notin> live k" using a(2) by (simp add: live_def)
    moreover have "kheap_alloc tr k l = Some (ptr, ?k)"
      using line a(1) f(1) pc_alloc_spec [OF ci(3)] True i(3) inv'(2) by (simp add: kheap_alloc_def)
    moreover have "kh_inv tr ?k" using upd(1) f(3,4) by simp
    ultimately show ?thesis by blast
  qed
qed

lemma kheap_alloc_spec:
  assumes inv: "kh_inv tr k" and l: "alloc_order l = Some (Some i)"
    and run: "pc_list (kh_cache k ! i) \<noteq> [] \<or> free_run SLAB_FRAME_ALLOC_ORDER (hp_fa (kh_heap k))"
  shows "\<exists>ptr k'. kheap_alloc tr k l = Some (ptr, k') \<and> kh_inv tr k' \<and> (ptr, i) \<notin> live k \<and>
    live k' = insert (ptr, i) (live k)"
proof (rule kheap_alloc_run [OF inv l])
  note i = alloc_order_class [OF l]
  note ci = kh_invD(4,5) [OF inv i(3)]
  show "pc_list (kh_cache k ! i) \<noteq> [] \<or> sm_alloc tr (kh_managers k ! i) (kh_heap k) \<noteq> None"
    using sm_alloc_spec [OF kh_invD(1) [OF inv] ci(1)] i(1,2) ci(2) run by (metis option.distinct(1))
qed

lemma kheap_alloc_Some:
  assumes inv: "kh_inv tr k" and l: "alloc_order l = Some (Some i)" and run: "kheap_alloc tr k l = Some (ptr, k')"
  shows "kh_inv tr k'" and "(ptr, i) \<notin> live k" and "live k' = insert (ptr, i) (live k)"
proof -
  note i = alloc_order_class [OF l]
  have "pc_list (kh_cache k ! i) \<noteq> [] \<or> sm_alloc tr (kh_managers k ! i) (kh_heap k) \<noteq> None"
    using run get_cache_class [OF l inv] pc_alloc_spec [OF kh_invD(6) [OF inv i(3)]]
    by (auto simp: kheap_alloc_def bind_eq_Some_conv split: if_splits)
  from kheap_alloc_run [OF inv l this] run
  show "kh_inv tr k'" "(ptr, i) \<notin> live k" "live k' = insert (ptr, i) (live k)" by auto
qed

lemma kheap_dealloc_spec:
  assumes inv: "kh_inv tr k" and l: "alloc_order l = Some (Some i)" and ptr: "(ptr, i) \<in> live k"
  shows "\<exists>k'. kheap_dealloc tr k ptr l = Some k' \<and> kh_inv tr k' \<and> live k' = live k - {(ptr, i)}"
proof -
  note i = alloc_order_class [OF l]
  note inv' = kh_invD [OF inv] and ci = kh_invD(4-8) [OF inv i(3)]
  let ?c = "kh_cache k ! i" and ?m = "kh_managers k ! i"
  have line: "get_cache (kh_cache k) l = Some (Some (i, ?c))" by (rule get_cache_class [OF l inv])
  have use: "(ptr, i) \<in> in_use (kh_heap k)" and fresh: "ptr \<notin> set (pc_list ?c)"
    using ptr i(3) inv'(3) by (auto simp: live_def)
  show ?thesis
  proof (cases "length (pc_list ?c) = PTRS_PER_SZ_CLASS")
    case False
    then obtain c where c: "pc_free ?c ptr = Some (Inr (), c)" "pc_ok c" "pc_list c = pc_list ?c @ [ptr]"
      using pc_free_spec [OF ci(3), of ptr] by auto
    have sub: "distinct (pc_list c)" "tag i (pc_list c) \<subseteq> in_use (kh_heap k)" using ci(4,5) fresh use by (simp_all add: c(3))
    note upd = kh_inv_upd [OF inv i(3) mgr_step_refl [OF inv'(1) ci(1)] c(2) sub refl]
    have k': "k\<lparr>kh_cache := (kh_cache k)[i := c]\<rparr> =
        \<lparr>kh_heap = kh_heap k, kh_managers = (kh_managers k)[i := ?m], kh_cache = (kh_cache k)[i := c]\<rparr>" by simp
    have "(x, j) \<in> live (k\<lparr>kh_cache := (kh_cache k)[i := c]\<rparr>) \<longleftrightarrow> (x, j) \<noteq> (ptr, i) \<and> (x, j) \<in> live k" for x j
      unfolding k' upd(2) using i(3) inv'(3) by (auto simp: live_def c(3))
    then have "live (k\<lparr>kh_cache := (kh_cache k)[i := c]\<rparr>) = live k - {(ptr, i)}" by auto
    moreover have "kheap_dealloc tr k ptr l = Some (k\<lparr>kh_cache := (kh_cache k)[i := c]\<rparr>)"
      using line c(1) by (simp add: kheap_dealloc_def)
    ultimately show ?thesis using upd(1) unfolding k' [symmetric] by blast
  next
    case True
    obtain m1 h1 where a: "sm_free_obj tr ?m (kh_heap k) ptr = Some (m1, h1)"
      "mgr_step tr ?m (kh_heap k) m1 h1 (in_use (kh_heap k) - {(ptr, i)})"
      using sm_free_spec [OF inv'(1) ci(1)] ci(2) use by metis
    note st = mgr_stepD [OF a(2)]
    let ?n = "length (pc_list ?c) - pc_next_free ?c div 2"
    have sub: "tag i (pc_list ?c) \<subseteq> in_use h1" using ci(5) fresh st(4) by auto
    have half: "pc_next_free ?c div 2 \<le> length (pc_list ?c)" using length_pc_list [OF ci(3)] by simp
    obtain c m2 h2 where f: "drain_into tr ?c m1 h1 = Some (c, m2, h2)" "pc_ok c" "pc_list c = take ?n (pc_list ?c)"
      "mgr_step tr m1 h1 m2 h2 (in_use h1 - tag i (drop ?n (pc_list ?c)))"
      using drain_loop_spec [OF st(1,2) ci(3) _ half ci(4) sub] st(3) ci(2) unfolding drain_into_def by metis
    let ?k = "\<lparr>kh_heap = h2, kh_managers = (kh_managers k)[i := m2], kh_cache = (kh_cache k)[i := c]\<rparr>"
    let ?xs = "take ?n (pc_list ?c)" and ?ys = "drop ?n (pc_list ?c)"
    let ?U = "in_use (kh_heap k) - {(ptr, i)} - tag i ?ys"
    have split: "set (pc_list ?c) = set ?xs \<union> set ?ys" "set ?xs \<inter> set ?ys = {}"
      using ci(4) by (metis append_take_drop_id set_append) (metis append_take_drop_id ci(4) distinct_append)
    have step: "mgr_step tr ?m (kh_heap k) m2 h2 ?U" using mgr_step_trans [OF a(2) f(4)] st(4) by simp
    have "x \<in> set ?xs \<Longrightarrow> (x, i) \<in> ?U" for x using ci(5) fresh split by (auto simp: tag_def)
    then have sub': "tag i (pc_list c) \<subseteq> ?U" unfolding f(3) tag_def by blast
    have oth: "(x, j) \<in> ?U \<longleftrightarrow> (x, j) \<in> in_use (kh_heap k)" if "j \<noteq> i" for x j using that by auto
    note upd = kh_inv_upd [OF inv i(3) step f(2) _ sub' oth]
    have d: "distinct (pc_list c)" using f(3) ci(4) by simp
    have "(x, j) \<in> live ?k \<longleftrightarrow> (x, j) \<noteq> (ptr, i) \<and> (x, j) \<in> live k" for x j
      using i(3) inv'(3) split by (subst upd(2) [OF d]) (auto simp: live_def f(3))
    then have "live ?k = live k - {(ptr, i)}" by auto
    moreover have "kheap_dealloc tr k ptr l = Some ?k"
      using line a(1) f(1) pc_free_spec [OF ci(3), of ptr] True i(3) inv'(2) by (simp add: kheap_dealloc_def)
    ultimately show ?thesis using upd(1) [OF d] by blast
  qed
qed

section \<open>Objects do not overlap\<close>

lemma slot_end:
  assumes "slab_ok s" and "n < capacity s"
  shows "Suc n * 2 ^ obj_shift s \<le> 16384"
proof -
  have "Suc n * 2 ^ obj_shift s \<le> capacity s * 2 ^ obj_shift s" using assms(2) by (intro mult_le_mono1) simp
  then show ?thesis using capacity_bounds(1) [OF assms(1)] by simp
qed

lemma in_use_disjoint:
  assumes ok: "slabs_ok tr h" and a: "(a, i) \<in> in_use h" and b: "(b, j) \<in> in_use h" and ne: "(a, i) \<noteq> (b, j)"
  shows "{unat a..<unat a + 2 ^ i} \<inter> {unat b..<unat b + 2 ^ j} = {}"
proof -
  obtain p s n where s: "slab_at h p s" "n < capacity s" "a = slot s n" "i = obj_shift s"
    using a unfolding in_use_def by blast
  obtain q t m where t: "slab_at h q t" "m < capacity t" "b = slot t m" "j = obj_shift t"
    using b unfolding in_use_def by blast
  note oks = slabs_okD(5) [OF ok s(1)] slabs_okD(5) [OF ok t(1)]
  note off = slot_offset(2) [OF oks(1) s(2)] slot_offset(2) [OF oks(2) t(2)]
  have False if x: "x \<in> {unat a..<unat a + 2 ^ i}" "x \<in> {unat b..<unat b + 2 ^ j}" for x
  proof -
    obtain d where d: "x = unat (slab_base s) + d" "n * 2 ^ i \<le> d" "d < Suc n * 2 ^ i"
      using x(1) off(1) s(3,4) by (intro that [of "x - unat (slab_base s)"]) auto
    obtain e where e: "x = unat (slab_base t) + e" "m * 2 ^ j \<le> e" "e < Suc m * 2 ^ j"
      using x(2) off(2) t(3,4) by (intro that [of "x - unat (slab_base t)"]) auto
    have small: "d < 16384" "e < 16384" 
      using d(3) e(3) slot_end [OF oks(1) s(2)] slot_end [OF oks(2) t(2)] s(4) t(4) by simp_all
    show False
    proof (cases "p = q")
      case True
      then have st: "s = t" using s(1) t(1) slab_at_unique by blast
      then have "n \<noteq> m" using ne s t by auto
      moreover have "d = e" using d(1) e(1) st by simp
      moreover have "i = j" using s(4) t(4) st by simp
      ultimately have "m * 2 ^ i < Suc n * 2 ^ i" "n * 2 ^ i < Suc m * 2 ^ i" 
        using d(2,3) e(2,3) by (metis le_less_trans)+
      then show False using \<open>n \<noteq> m\<close> by (simp del: mult_Suc)
    next
      case False
      have word: "slab_base s + of_nat d = of_nat x" "slab_base t + of_nat e = of_nat x"
        unfolding d(1) by (simp, unfold d(1) [symmetric] e(1), simp)
      let ?f = "unat (to_pfn (virt_to_phys tr (of_nat x)))"
      have "?f \<in> blk p SLAB_FRAME_ALLOC_ORDER" "?f \<in> blk q SLAB_FRAME_ALLOC_ORDER"
        using byte_frame [OF slabs_okD(2,1) [OF ok] s(1) slabs_okD(4) [OF ok s(1)] small(1)]
          byte_frame [OF slabs_okD(2,1) [OF ok] t(1) slabs_okD(4) [OF ok t(1)] small(2)] unfolding word .
      moreover have "fa_ok (hp_fa h)" using slabs_okD(1) [OF ok] by (simp add: fa_inv_def)
      moreover have "head (table (hp_fa h)) p = Some SLAB_FRAME_ALLOC_ORDER" "head (table (hp_fa h)) q = Some SLAB_FRAME_ALLOC_ORDER"
        using s(1) t(1) by (simp_all add: slab_at_def head_def)
      ultimately show False using inv_disjoint False by (meson disjoint_iff)
    qed
  qed
  then show ?thesis by blast
qed

section \<open>A heap of four free frames\<close>

definition quad :: frame_alloc where
  "quad = \<lparr>frame_list = \<lparr>frames = \<lparr>state = Free 2, link = True\<rparr> # replicate 3 \<lparr>state = Uninitialized, link = False\<rparr>,
                         base_page = 4\<rparr>,
           free_pages = 4, free_lists = (\<lambda>k. if k = 2 then [4] else [])\<rparr>"

definition kheap0 :: kheap where
  "kheap0 = \<lparr>kh_heap = \<lparr>hp_fa = quad, hp_mem = (\<lambda>_. 0)\<rparr>, kh_managers = slab_allocator_new, kh_cache = slab_cache_new\<rparr>"

lemma quad_table: "table quad p = (if p = 4 then Some \<lparr>state = Free 2, link = True\<rparr>
    else if p \<in> {5, 6, 7} then Some \<lparr>state = Uninitialized, link = False\<rparr> else None)"
proof -
  consider "p < 4" | "p = 4" | "p = 5" | "p = 6" | "p = 7" | "p > 7" by linarith
  then show ?thesis
    by cases (auto simp: quad_def get_frame_def pfn_to_index_def total_pages_def numeral_eq_Suc)
qed

lemma quad_st: "st_of (table quad) p = (if p = 4 then Some (Free 2) else if p \<in> {5, 6, 7} then Some Uninitialized else None)"
  "head (table quad) p = (if p = 4 then Some 2 else None)"
  by (simp_all add: st_of_def head_def quad_table)

lemma quad_dom: "dom (table quad) = {4, 5, 6, 7}"
  unfolding table_dom by (auto simp: quad_def total_pages_def)

lemma blk_4_2: "blk 4 2 = {4, 5, 6, 7}"
  by (auto simp: blk_def)

lemma quad_st_iff:
  "st_of (table quad) p = Some (Free k) \<longleftrightarrow> p = 4 \<and> k = 2" "head (table quad) p = Some k \<longleftrightarrow> p = 4 \<and> k = 2"
  "Option.bind (st_of (table quad) p) owned_order = None" "st_of (table quad) p \<noteq> Some (AllocatedTail h)"
  by (auto simp: quad_st)

lemma quad_free: "free_set (table quad) = {4, 5, 6, 7}"
  unfolding set_eq_iff free_set_iff quad_st_iff by (simp add: blk_4_2)

lemma quad_inv: "fa_inv quad"
proof -
  have "pf_buddy 4 2 = 0" by (simp add: pf_buddy_def)
  moreover have "lists_ok (table quad) (free_lists quad)"
    unfolding lists_ok_def quad_st_iff by (simp add: quad_table) (simp add: quad_def)
  ultimately have "fa_ok quad"
    unfolding buddy_inv_def blocks_ok_def tails_ok_def coalesced_def quad_st_iff quad_dom
    by (auto simp: MAX_ORDER_def blk_4_2 quad_st_iff)
  moreover have "unat (free_pages quad) = card (free_set (table quad))"
    unfolding quad_free by (simp add: quad_def)
  ultimately show ?thesis
    by (simp add: fa_inv_def count_ok_def quad_def total_pages_def)
qed

lemma kheap0_no_slab: "\<not> slab_at (kh_heap kheap0) p s"
  by (simp add: slab_at_def kheap0_def quad_st)

lemma kheap0_slabs: "slabs_ok IdentityTranslator (kh_heap kheap0)"
proof -
  have "unat (pfn_pa (of_nat p) :: usize) + 16384 < 2 ^ 64" if "p \<in> dom (table quad)" for p
    using that unfolding quad_dom by (auto simp: pfn_pa_def PAGE_SHIFT_def push_bit_eq_mult)
  then show ?thesis
    using quad_inv kheap0_no_slab identity.address_translator_axioms
    by (simp add: slabs_ok_def kheap0_def IdentityTranslator_def)
qed

lemma kheap0_inv: "kh_inv IdentityTranslator kheap0"
  and kheap0_live: "live kheap0 = {}"
proof -
  have use: "in_use (kh_heap kheap0) = {}" by (simp add: in_use_def kheap0_no_slab)
  have agree: "lists_agree (slab_manager_new i) (kh_heap kheap0)" for i
    by (simp add: lists_agree_def slab_manager_new_def kheap0_no_slab MAX_FREE_SLABS_def)
  have len: "length slab_allocator_new = NUM_PTR_CACHES" "length slab_cache_new = NUM_PTR_CACHES"
    by (simp_all add: slab_allocator_new_def slab_cache_new_def NUM_PTR_CACHES_def del: upt_Suc replicate_Suc)
  have nth: "slab_allocator_new ! i = slab_manager_new i" "slab_cache_new ! i = ptr_cache_new" if "i < NUM_PTR_CACHES" for i
    using that by (simp_all add: slab_allocator_new_def slab_cache_new_def NUM_PTR_CACHES_def del: upt_Suc replicate_Suc)
  have m: "kh_managers kheap0 = slab_allocator_new" "kh_cache kheap0 = slab_cache_new" by (simp_all add: kheap0_def)
  show "kh_inv IdentityTranslator kheap0"
    using kheap0_slabs agree
    by (simp add: kh_inv_def m len nth) (simp add: slab_manager_new_def ptr_cache_new_def pc_ok_def pc_list_def)
  show "live kheap0 = {}" using use by (simp add: live_def)
qed

section \<open>What the heap promises\<close>

text \<open>
  Claim C5. While the cache line of the size class has an object or a slab's worth of aligned frames
  is free, allocating a small layout succeeds: from the cache, a partial or empty slab, or a new slab. The object was not live, it is the
  only one that becomes live, and the invariants of the frame allocator, of all slab
  managers and of all caches are kept.
\<close>

theorem kheap_alloc_live:
  assumes "kh_inv tr k" and "alloc_order l = Some (Some i)"
    and "pc_list (kh_cache k ! i) \<noteq> [] \<or>
      (\<exists>p. 2 ^ SLAB_FRAME_ALLOC_ORDER dvd p \<and> blk p SLAB_FRAME_ALLOC_ORDER \<subseteq> free_set (table (hp_fa (kh_heap k))))"
  shows "\<exists>ptr k'. kheap_alloc tr k l = Some (ptr, k') \<and> kh_inv tr k' \<and> (ptr, i) \<notin> live k \<and>
    live k' = insert (ptr, i) (live k)"
  by (rule kheap_alloc_spec [OF assms])

lemma kheap0_run: "\<exists>p. 2 ^ SLAB_FRAME_ALLOC_ORDER dvd p \<and>
    blk p SLAB_FRAME_ALLOC_ORDER \<subseteq> free_set (table (hp_fa (kh_heap kheap0)))"
  by (intro exI [of _ 4]) (simp add: SLAB_FRAME_ALLOC_ORDER_def kheap0_def quad_free blk_4_2)

lemma order_100: "alloc_order \<lparr>layout_size = 100, layout_align = 8\<rparr> = Some (Some 7)"
  by code_simp

theorem kheap_alloc_live_witness:
  "\<exists>ptr k'. kheap_alloc IdentityTranslator kheap0 \<lparr>layout_size = 100, layout_align = 8\<rparr> = Some (ptr, k') \<and>
     live k' = {(ptr, 7)}"
  using kheap_alloc_live [OF kheap0_inv order_100 disjI2 [OF kheap0_run]] by (auto simp: kheap0_live)

text \<open>
  Claim C6. Freeing a live object of a small layout does not panic and makes exactly that object
  dead, whether it goes to the cache or, with half of a full cache, back to the slab manager. The
  invariants are kept.
\<close>

theorem kheap_dealloc_live:
  assumes "kh_inv tr k" and "alloc_order l = Some (Some i)" and "(ptr, i) \<in> live k"
  shows "\<exists>k'. kheap_dealloc tr k ptr l = Some k' \<and> kh_inv tr k' \<and> live k' = live k - {(ptr, i)}"
  by (rule kheap_dealloc_spec [OF assms])

theorem kheap_dealloc_live_witness:
  "\<exists>ptr k1 k2. kheap_alloc IdentityTranslator kheap0 \<lparr>layout_size = 100, layout_align = 8\<rparr> = Some (ptr, k1) \<and>
     kheap_dealloc IdentityTranslator k1 ptr \<lparr>layout_size = 100, layout_align = 8\<rparr> = Some k2 \<and> live k2 = {}"
proof -
  obtain ptr k1 where a: "kheap_alloc IdentityTranslator kheap0 \<lparr>layout_size = 100, layout_align = 8\<rparr> = Some (ptr, k1)"
    "kh_inv IdentityTranslator k1" "live k1 = {(ptr, 7)}"
    using kheap_alloc_spec [OF kheap0_inv order_100 disjI2 [OF kheap0_run]] by (auto simp: kheap0_live)
  moreover have "(ptr, 7) \<in> live k1" using a(3) by simp
  ultimately show ?thesis using kheap_dealloc_live [OF a(2) order_100] by fastforce
qed

section \<open>Clients of the heap\<close>

text \<open>
  What the clients of the heap see: the small objects they were given and have not given back, each with
  the layout it was requested with. A client may request any small layout, and give back an
  object it holds with the layout of the request.
\<close>

inductive heap_step ::
  "translator \<Rightarrow> kheap \<times> (addr \<times> layout) list \<Rightarrow> kheap \<times> (addr \<times> layout) list \<Rightarrow> bool" for tr where
  heap_alloc: "alloc_order l = Some (Some i) \<Longrightarrow> kheap_alloc tr k l = Some (ptr, k') \<Longrightarrow>
    heap_step tr (k, held) (k', (ptr, l) # held)"
| heap_dealloc: "(ptr, l) \<in> set held \<Longrightarrow> kheap_dealloc tr k ptr l = Some k' \<Longrightarrow>
    heap_step tr (k, held) (k', remove1 (ptr, l) held)"

inductive_cases heap_stepE: "heap_step tr (k, held) s"

definition object_of :: "addr \<times> layout \<Rightarrow> addr \<times> nat option" where
  "object_of x = (fst x, Option.bind (alloc_order (snd x)) id)"

definition held_ok :: "translator \<Rightarrow> kheap \<times> (addr \<times> layout) list \<Rightarrow> bool" where
  "held_ok tr s \<longleftrightarrow> kh_inv tr (fst s) \<and> distinct (map object_of (snd s)) \<and>
     (\<forall>x \<in> set (snd s). \<exists>i. alloc_order (snd x) = Some (Some i) \<and> (fst x, i) \<in> live (fst s))"

lemma heap_step_held:
  assumes "heap_step tr s t" and "held_ok tr s"
  shows "held_ok tr t"
  using assms
proof (cases rule: heap_step.cases)
  case (heap_alloc l i k ptr k' held)
  have ok: "kh_inv tr k" "distinct (map object_of held)"
    "\<forall>x \<in> set held. \<exists>i. alloc_order (snd x) = Some (Some i) \<and> (fst x, i) \<in> live k"
    using assms(2) heap_alloc(1) by (simp_all add: held_ok_def)
  note a = kheap_alloc_Some [OF ok(1) heap_alloc(3,4)]
  have "object_of x \<noteq> object_of (ptr, l)" if "x \<in> set held" for x
    using ok(3) that a(2) heap_alloc(3) by (force simp: object_of_def)
  then have "distinct (map object_of ((ptr, l) # held))" using ok(2) by force
  then show ?thesis using a(1,3) ok(3) heap_alloc(2,3) unfolding held_ok_def by auto
next
  case (heap_dealloc ptr l held k k')
  have ok: "kh_inv tr k" "distinct (map object_of held)"
    "\<forall>x \<in> set held. \<exists>i. alloc_order (snd x) = Some (Some i) \<and> (fst x, i) \<in> live k"
    using assms(2) heap_dealloc(1) by (simp_all add: held_ok_def)
  obtain i where i: "alloc_order l = Some (Some i)" "(ptr, i) \<in> live k" using ok(3) heap_dealloc(3) by fastforce
  have d: "kh_inv tr k'" "live k' = live k - {(ptr, i)}"
    using kheap_dealloc_spec [OF ok(1) i] heap_dealloc(4) by auto
  have inj: "distinct held" "inj_on object_of (set held)" using ok(2) by (simp_all add: distinct_map)
  have keep: "\<exists>j. alloc_order (snd x) = Some (Some j) \<and> (fst x, j) \<in> live k'" if x: "x \<in> set held" "x \<noteq> (ptr, l)" for x
  proof -
    obtain j where j: "alloc_order (snd x) = Some (Some j)" "(fst x, j) \<in> live k" using ok(3) x(1) by blast
    have "object_of x \<noteq> object_of (ptr, l)" using inj_onD [OF inj(2) _ x(1) heap_dealloc(3)] x(2) by blast
    then have "(fst x, j) \<noteq> (ptr, i)" using j(1) i(1) by (auto simp: object_of_def)
    then show ?thesis using j d(2) by blast
  qed
  have "distinct (map object_of (remove1 (ptr, l) held))"
    using inj by (simp add: distinct_map distinct_remove1) (rule inj_on_diff)
  then show ?thesis using d(1) keep inj(1) heap_dealloc(2) unfolding held_ok_def by auto
qed

lemma heap_steps_held: "(heap_step tr)\<^sup>*\<^sup>* s t \<Longrightarrow> held_ok tr s \<Longrightarrow> held_ok tr t"
  by (induction rule: rtranclp_induct) (blast intro: heap_step_held)+

lemma alloc_order_size: "alloc_order l = Some (Some i) \<Longrightarrow> unat (layout_size l) \<le> 2 ^ i"
  using npt_log2_spec(1) by (fastforce simp: alloc_order_def unat_max_word split: if_splits)

definition object_bytes :: "addr \<times> layout \<Rightarrow> nat set" where
  "object_bytes x = {unat (fst x)..<unat (fst x) + unat (layout_size (snd x))}"

lemma held_disjoint:
  assumes ok: "held_ok tr (k, held)" and i: "i < length held" "j < length held" "i \<noteq> j"
  shows "object_bytes (held ! i) \<inter> object_bytes (held ! j) = {}"
proof -
  have inv: "kh_inv tr k" and dist: "distinct (map object_of held)"
    and all: "\<forall>x \<in> set held. \<exists>i. alloc_order (snd x) = Some (Some i) \<and> (fst x, i) \<in> live k"
    using ok by (simp_all add: held_ok_def)
  obtain n where n: "alloc_order (snd (held ! i)) = Some (Some n)" "(fst (held ! i), n) \<in> live k"
    using all nth_mem [OF i(1)] by blast
  obtain m where m: "alloc_order (snd (held ! j)) = Some (Some m)" "(fst (held ! j), m) \<in> live k"
    using all nth_mem [OF i(2)] by blast
  have "object_of (held ! i) \<noteq> object_of (held ! j)"
    using dist i nth_eq_iff_index_eq [of "map object_of held" i j] by simp
  then have ne: "(fst (held ! i), n) \<noteq> (fst (held ! j), m)" using n(1) m(1) by (auto simp: object_of_def)
  have "(fst (held ! i), n) \<in> in_use (kh_heap k)" "(fst (held ! j), m) \<in> in_use (kh_heap k)"
    using n(2) m(2) by (auto simp: live_def)
  note in_use_disjoint [OF kh_invD(1) [OF inv] this ne]
  moreover have "object_bytes (held ! i) \<subseteq> {unat (fst (held ! i))..<unat (fst (held ! i)) + 2 ^ n}"
    "object_bytes (held ! j) \<subseteq> {unat (fst (held ! j))..<unat (fst (held ! j)) + 2 ^ m}"
    using alloc_order_size [OF n(1)] alloc_order_size [OF m(1)] by (auto simp: object_bytes_def)
  ultimately show ?thesis by blast
qed

text \<open>
  Claim C14. Whatever small objects the clients of a well-formed heap allocate and free, in any order and
  with any mix of layouts, the objects they hold at any time occupy disjoint ranges of bytes,
  each as long as its layout asked for. The invariants of the heap hold, and giving
  back any held object does not panic.
\<close>

theorem held_objects_disjoint:
  assumes "kh_inv tr k0" and "(heap_step tr)\<^sup>*\<^sup>* (k0, []) (k, held)"
  shows "kh_inv tr k \<and> (\<forall>x \<in> set held. kheap_dealloc tr k (fst x) (snd x) \<noteq> None) \<and>
    (\<forall>i < length held. \<forall>j < length held. i \<noteq> j \<longrightarrow>
       object_bytes (held ! i) \<inter> object_bytes (held ! j) = {})"
proof -
  have "held_ok tr (k0, [])" using assms(1) by (simp add: held_ok_def)
  note ok = heap_steps_held [OF assms(2) this]
  then have inv: "kh_inv tr k" by (simp add: held_ok_def)
  have "kheap_dealloc tr k (fst x) (snd x) \<noteq> None" if "x \<in> set held" for x
    using that ok kheap_dealloc_spec [OF inv] unfolding held_ok_def by fastforce
  with inv held_disjoint [OF ok] show ?thesis by blast
qed

theorem held_objects_disjoint_witness:
  "\<exists>k. (heap_step IdentityTranslator)\<^sup>*\<^sup>* (kheap0, [])
       (k, [(0x6000, \<lparr>layout_size = 8192, layout_align = 8\<rparr>), (0x4000, \<lparr>layout_size = 8000, layout_align = 8\<rparr>)]) \<and>
     kh_inv IdentityTranslator k \<and>
     object_bytes (0x6000, \<lparr>layout_size = 8192, layout_align = 8\<rparr>) \<inter>
       object_bytes (0x4000, \<lparr>layout_size = 8000, layout_align = 8\<rparr>) = {}"
proof -
  let ?l = "\<lparr>layout_size = 8000, layout_align = 8\<rparr>" and ?m = "\<lparr>layout_size = 8192, layout_align = 8\<rparr>"
  have l: "alloc_order ?l = Some (Some 13)" "alloc_order ?m = Some (Some 13)" by code_simp+
  have run: "Option.bind (kheap_alloc IdentityTranslator kheap0 ?l) (\<lambda>(p, k). map_option (\<lambda>(q, _). (p, q))
      (kheap_alloc IdentityTranslator k ?m)) = Some (0x4000, 0x6000)" by code_simp
  then obtain k1 k2 where k: "kheap_alloc IdentityTranslator kheap0 ?l = Some (0x4000, k1)"
    "kheap_alloc IdentityTranslator k1 ?m = Some (0x6000, k2)"
    by (auto split: prod.splits simp: bind_eq_Some_conv)
  have steps: "(heap_step IdentityTranslator)\<^sup>*\<^sup>* (kheap0, []) (k2, [(0x6000, ?m), (0x4000, ?l)])"
    using heap_alloc [OF l(1) k(1), of "[]"] heap_alloc [OF l(2) k(2), of "[(0x4000, ?l)]"] by auto
  from held_objects_disjoint [OF kheap0_inv this]
  have "kh_inv IdentityTranslator k2 \<and> object_bytes (0x6000, ?m) \<inter> object_bytes (0x4000, ?l) = {}" by fastforce
  with steps show ?thesis by blast
qed

end
