(* ===== verification/Vm_Area.thy ===== *)
theory Vm_Area
  imports Region Kernel_Error
begin

text \<open>
  Page permissions (\<^verbatim>\<open>libkernel/src/memory/paging/permissions.rs\<close>) and virtual memory areas
  (\<^verbatim>\<open>libkernel/src/memory/proc_vm/vmarea.rs\<close>). A reference-counted inode or shared backing
  object is its identity, a natural number: the code only compares the pointers
  (\<open>Arc::ptr_eq\<close>) and passes them on.
\<close>

section \<open>Page permissions\<close>

record PtePermissions =
  pte_read :: bool
  pte_write :: bool
  pte_execute :: bool
  pte_user :: bool
  pte_cow :: bool

definition pte_from_raw_bits :: "bool \<Rightarrow> bool \<Rightarrow> bool \<Rightarrow> bool \<Rightarrow> bool \<Rightarrow> PtePermissions" where
  "pte_from_raw_bits r w x u c =
     \<lparr>pte_read = r, pte_write = w, pte_execute = x, pte_user = u, pte_cow = c\<rparr>"

definition pte_ro :: "bool \<Rightarrow> PtePermissions" where
  "pte_ro u = \<lparr>pte_read = True, pte_write = False, pte_execute = False, pte_user = u, pte_cow = False\<rparr>"

definition pte_rw :: "bool \<Rightarrow> PtePermissions" where
  "pte_rw u = \<lparr>pte_read = True, pte_write = True, pte_execute = False, pte_user = u, pte_cow = False\<rparr>"

definition pte_rx :: "bool \<Rightarrow> PtePermissions" where
  "pte_rx u = \<lparr>pte_read = True, pte_write = False, pte_execute = True, pte_user = u, pte_cow = False\<rparr>"

definition pte_rwx :: "bool \<Rightarrow> PtePermissions" where
  "pte_rwx u = \<lparr>pte_read = True, pte_write = True, pte_execute = True, pte_user = u, pte_cow = False\<rparr>"

definition into_cow :: "PtePermissions \<Rightarrow> PtePermissions" where
  "into_cow p = p\<lparr>pte_write := False, pte_cow := True\<rparr>"

definition from_cow :: "PtePermissions \<Rightarrow> PtePermissions" where
  "from_cow p = p\<lparr>pte_write := True, pte_cow := False\<rparr>"

section \<open>Virtual memory areas\<close>

datatype AccessKind = AccessRead | AccessWrite | AccessExecute

record VMAPermissions =
  vma_read :: bool
  vma_write :: bool
  vma_execute :: bool

definition vma_rw :: VMAPermissions where
  "vma_rw = \<lparr>vma_read = True, vma_write = True, vma_execute = False\<rparr>"

definition vma_rx :: VMAPermissions where
  "vma_rx = \<lparr>vma_read = True, vma_write = False, vma_execute = True\<rparr>"

definition vma_ro :: VMAPermissions where
  "vma_ro = \<lparr>vma_read = True, vma_write = False, vma_execute = False\<rparr>"

definition pte_of_vma :: "VMAPermissions \<Rightarrow> PtePermissions" where
  "pte_of_vma p = pte_from_raw_bits (vma_read p) (vma_write p) (vma_execute p) True False"

datatype FaultValidation = Valid | NotPresent | PermissionDenied

type_synonym inode = nat
type_synonym backing = nat

record VMAFileRead =
  file_offset :: u64
  read_page_offset :: usize
  read_len :: usize
  read_inode :: inode

record VMFileMapping =
  fm_file :: inode
  fm_offset :: u64
  fm_len :: u64

record VMSharedMapping =
  sh_backing :: backing
  sh_offset :: usize

definition vm_shared_mapping_new :: "backing \<Rightarrow> VMSharedMapping" where
  "vm_shared_mapping_new b = \<lparr>sh_backing = b, sh_offset = 0\<rparr>"

text \<open>
  The page of a backing object comes from \<open>claim\<close>, its \<open>SharedAnonBacking::claim_page\<close>, which may
  change the state \<open>'s\<close> of the backing objects and the page allocator.
\<close>

definition claim_page ::
  "(backing \<Rightarrow> usize \<Rightarrow> 's \<Rightarrow> ('p result \<times> 's) option) \<Rightarrow> VMSharedMapping \<Rightarrow> usize \<Rightarrow> 's \<Rightarrow>
    ('p result \<times> 's) option" where
  "claim_page claim s offset st =
     (case checked_add (sh_offset s) offset of
        None \<Rightarrow> Some (Inl InvalidValue, st)
      | Some offset \<Rightarrow> claim (sh_backing s) offset st)"

datatype VMAreaKind =
    FileKind VMFileMapping
  | Anon
  | SharedAnon VMSharedMapping

definition new_file :: "inode \<Rightarrow> u64 \<Rightarrow> u64 \<Rightarrow> VMAreaKind" where
  "new_file f offset len = FileKind \<lparr>fm_file = f, fm_offset = offset, fm_len = len\<rparr>"

record vmarea =
  vregion :: region
  vname :: string
  vkind :: VMAreaKind
  vperms :: VMAPermissions

definition vmarea_new :: "region \<Rightarrow> VMAreaKind \<Rightarrow> VMAPermissions \<Rightarrow> vmarea" where
  "vmarea_new r k p = \<lparr>vregion = r, vname = [], vkind = k, vperms = p\<rparr>"

definition set_name :: "vmarea \<Rightarrow> string \<Rightarrow> vmarea" where
  "set_name v s = v\<lparr>vname := s\<rparr>"

text \<open>The fields of an ELF program header that \<open>from_pheader\<close> reads.\<close>

record program_header =
  p_flags :: u32
  p_vaddr :: u64
  p_memsz :: u64
  p_offset :: u64
  p_filesz :: u64

definition PF_X :: u32 where "PF_X = 1"
definition PF_W :: u32 where "PF_W = 2"
definition PF_R :: u32 where "PF_R = 4"

definition from_pheader :: "inode \<Rightarrow> program_header \<Rightarrow> usize option \<Rightarrow> vmarea option" where
  "from_pheader f hdr address_bias =
     (let bias = (case address_bias of None \<Rightarrow> 0 | Some b \<Rightarrow> b);
          permissions = \<lparr>vma_read = p_flags hdr AND PF_R \<noteq> 0, vma_write = p_flags hdr AND PF_W \<noteq> 0,
                         vma_execute = p_flags hdr AND PF_X \<noteq> 0\<rparr>
      in map_option
           (\<lambda>m. \<lparr>vregion = mapped_region m, vname = [],
                 vkind = FileKind \<lparr>fm_file = f, fm_offset = p_offset hdr - offset_from_page_start m,
                                   fm_len = p_filesz hdr + offset_from_page_start m\<rparr>,
                 vperms = permissions\<rparr>)
           (to_mappable_region (rnew (p_vaddr hdr + bias) (p_memsz hdr))))"

definition vma_contains_address :: "vmarea \<Rightarrow> addr \<Rightarrow> bool" where
  "vma_contains_address v a = contains_address (vregion v) a"

definition validate_fault :: "vmarea \<Rightarrow> addr \<Rightarrow> AccessKind \<Rightarrow> FaultValidation" where
  "validate_fault v a kind =
     (if \<not> vma_contains_address v a then NotPresent
      else
        let permissions_ok =
              (case kind of
                 AccessRead \<Rightarrow> vma_read (vperms v)
               | AccessWrite \<Rightarrow> vma_write (vperms v)
               | AccessExecute \<Rightarrow> vma_execute (vperms v))
        in if permissions_ok then Valid else PermissionDenied)"

definition resolve_fault :: "vmarea \<Rightarrow> addr \<Rightarrow> VMAFileRead option" where
  "resolve_fault v faulting_addr =
     (case vkind v of
        Anon \<Rightarrow> None
      | SharedAnon _ \<Rightarrow> None
      | FileKind mapping \<Rightarrow>
          let vma_start_addr = start_address (vregion v);
              p_offset = fm_offset mapping;
              p_filesz = fm_len mapping;
              vaddr_page_offset = vma_start_addr AND PAGE_MASK;
              map_start_vaddr = page_aligned vma_start_addr;
              map_start_foffset = p_offset - vaddr_page_offset;
              fault_page_vaddr = page_aligned faulting_addr;
              fault_page_offset_in_map = saturating_sub fault_page_vaddr map_start_vaddr;
              file_offset_for_page_start = map_start_foffset + fault_page_offset_in_map;
              page_write_offset = (if fault_page_vaddr = map_start_vaddr then vaddr_page_offset else 0);
              read_start_file_offset = max file_offset_for_page_start p_offset;
              read_end_file_offset = p_offset + p_filesz;
              read_len = saturating_sub read_end_file_offset read_start_file_offset;
              final_read_len = min read_len (PAGE_SIZE - page_write_offset)
          in if final_read_len = 0 then None
             else Some \<lparr>file_offset = read_start_file_offset, read_page_offset = page_write_offset,
                        read_len = final_read_len, read_inode = fm_file mapping\<rparr>)"

definition can_merge_with :: "vmarea \<Rightarrow> vmarea \<Rightarrow> bool" where
  "can_merge_with v other =
     (if vperms v \<noteq> vperms other then False
      else
        case (vkind v, vkind other) of
          (Anon, Anon) \<Rightarrow> True
        | (SharedAnon left, SharedAnon right) \<Rightarrow>
            sh_backing left = sh_backing right \<and>
            checked_add (sh_offset left) (rsize (vregion v)) = Some (sh_offset right)
        | (FileKind self_map, FileKind other_map) \<Rightarrow>
            fm_file self_map = fm_file other_map \<and>
            fm_offset other_map = fm_offset self_map + rsize (vregion v)
        | _ \<Rightarrow> False)"

definition clone_with_new_region :: "vmarea \<Rightarrow> region \<Rightarrow> vmarea" where
  "clone_with_new_region v new_region =
     (let clone = (case vkind v of
                     SharedAnon s \<Rightarrow>
                       v\<lparr>vkind := SharedAnon (s\<lparr>sh_offset :=
                          sh_offset s + (start_address new_region - start_address (vregion v))\<rparr>)\<rparr>
                   | _ \<Rightarrow> v)
      in clone\<lparr>vregion := new_region\<rparr>)"

definition is_file_backed :: "vmarea \<Rightarrow> bool" where
  "is_file_backed v \<longleftrightarrow> (case vkind v of FileKind _ \<Rightarrow> True | _ \<Rightarrow> False)"

definition is_shared :: "vmarea \<Rightarrow> bool" where
  "is_shared v \<longleftrightarrow> (case vkind v of SharedAnon _ \<Rightarrow> True | _ \<Rightarrow> False)"

definition shrink_to :: "vmarea \<Rightarrow> region \<Rightarrow> vmarea" where
  "shrink_to v new_region =
     (let new_vma = clone_with_new_region v new_region
      in case vkind v of
           FileKind f \<Rightarrow>
             let start_offset = start_address new_region - start_address (vregion v);
                 new_sz = min (saturating_sub (fm_len f) start_offset) (rsize new_region)
             in if new_sz = 0 then new_vma\<lparr>vkind := Anon\<rparr>
                else new_vma\<lparr>vkind := FileKind \<lparr>fm_file = fm_file f, fm_offset = fm_offset f + start_offset, fm_len = new_sz\<rparr>\<rparr>
         | _ \<Rightarrow> new_vma)"

definition vma_file_offset :: "vmarea \<Rightarrow> u64 option" where
  "vma_file_offset v = (case vkind v of FileKind f \<Rightarrow> Some (fm_offset f) | _ \<Rightarrow> None)"

text \<open>The identity of an inode comes from \<open>Inode::id\<close>.\<close>

definition inode_id :: "(inode \<Rightarrow> 'i) \<Rightarrow> vmarea \<Rightarrow> 'i option" where
  "inode_id ident v = (case vkind v of FileKind f \<Rightarrow> Some (ident (fm_file f)) | _ \<Rightarrow> None)"

section \<open>Where the bytes of an area come from\<close>

text \<open>The byte at address \<open>x\<close> of an area: of a file, of a shared backing object, or zero.\<close>

datatype byte_source = ZeroFill | FileByte inode u64 | SharedByte backing usize

definition vma_byte :: "vmarea \<Rightarrow> nat \<Rightarrow> byte_source" where
  "vma_byte v x =
     (let d = x - lo (vregion v)
      in case vkind v of
           Anon \<Rightarrow> ZeroFill
         | FileKind f \<Rightarrow>
             if d < unat (fm_len f) then FileByte (fm_file f) (fm_offset f + of_nat d) else ZeroFill
         | SharedAnon s \<Rightarrow> SharedByte (sh_backing s) (sh_offset s + of_nat d))"

lemma unat_and_PAGE_MASK: "unat (a AND PAGE_MASK) = unat a mod 4096"
  unfolding PAGE_MASK_mask unat_and_mask by simp

lemma clone_with_new_region_sel [simp]:
  "vregion (clone_with_new_region v r) = r" "vperms (clone_with_new_region v r) = vperms v"
  "is_file_backed (clone_with_new_region v r) = is_file_backed v"
  by (simp_all add: clone_with_new_region_def Let_def is_file_backed_def split: VMAreaKind.split)

lemma shrink_to_sel [simp]: "vregion (shrink_to v r) = r" "vperms (shrink_to v r) = vperms v"
  by (simp_all add: shrink_to_def Let_def split: VMAreaKind.split)

lemma of_nat_lo_diff:
  assumes "lo r \<le> lo q" and "lo q \<le> x"
  shows "start_address q - start_address r + of_nat (x - lo q) = (of_nat (x - lo r) :: usize)"
proof -
  have "(of_nat (x - lo r) :: usize) = of_nat (lo q - lo r) + of_nat (x - lo q)"
    using assms by (simp flip: of_nat_add)
  moreover have "(of_nat (lo q - lo r) :: usize) = start_address q - start_address r"
    using assms(1) by (simp add: lo_def start_address_def of_nat_diff)
  ultimately show ?thesis by simp
qed

lemma shrink_to_byte:
  assumes "lo (vregion v) \<le> lo r" and x: "x \<in> span r"
  shows "vma_byte (shrink_to v r) x = vma_byte v x"
proof (cases "vkind v")
  case (FileKind f)
  let ?s = "start_address r - start_address (vregion v)"
  have x': "lo r \<le> x" "x < hi r" using x by (simp_all add: span_def)
  have s: "unat ?s = lo r - lo (vregion v)"
    using assms(1) by (simp add: unat_sub_usize start_address_def lo_def)
  have sz: "x - lo r < unat (rsize r)" using x' by (simp add: lo_def hi_def)
  have len: "unat (min (saturating_sub (fm_len f) ?s) (rsize r)) = min (unat (fm_len f) - (lo r - lo (vregion v))) (unat (rsize r))"
    by (simp add: unat_min_word s)
  have eq: "x - lo r < unat (fm_len f) - (lo r - lo (vregion v)) \<longleftrightarrow> x - lo (vregion v) < unat (fm_len f)"
    using assms(1) x'(1) by linarith
  note addr = of_nat_lo_diff [OF assms(1) x'(1)]
  show ?thesis
  proof (cases "min (saturating_sub (fm_len f) ?s) (rsize r) = 0")
    case True
    then have "unat (fm_len f) - (lo r - lo (vregion v)) = 0" using len sz by (simp add: min_def split: if_splits)
    with True FileKind eq show ?thesis by (simp add: shrink_to_def Let_def vma_byte_def)
  next
    case False
    then show ?thesis using FileKind sz eq addr len
      by (simp add: shrink_to_def Let_def vma_byte_def add.assoc)
  qed
next
  case (SharedAnon s)
  then show ?thesis
    using of_nat_lo_diff [OF assms(1), of x] x
    by (simp add: shrink_to_def Let_def vma_byte_def clone_with_new_region_def span_def add.assoc)
qed (simp add: shrink_to_def Let_def vma_byte_def clone_with_new_region_def)

text \<open>
  Claim C26. Shrinking an area to a part of its region keeps the permissions and the source of every
  byte that is left, for file-backed areas with their file offset and length adjusted.
\<close>

theorem shrink_to_bytes:
  assumes "lo (vregion v) \<le> lo r" and "hi r \<le> hi (vregion v)"
  shows "vregion (shrink_to v r) = r \<and> vperms (shrink_to v r) = vperms v \<and>
    (\<forall>x \<in> span r. vma_byte (shrink_to v r) x = vma_byte v x)"
  using shrink_to_byte [OF assms(1)] by simp

theorem shrink_to_bytes_witness:
  "vma_byte (shrink_to (vmarea_new (rnew 0x10000 0x3000) (new_file 7 0x8000 0x1800) vma_rw) (rnew 0x11000 0x1000)) 0x11004 =
     FileByte 7 0x9004"
proof -
  let ?v = "vmarea_new (rnew 0x10000 0x3000) (new_file 7 0x8000 0x1800) vma_rw"
  have "vma_byte (shrink_to ?v (rnew 0x11000 0x1000)) 0x11004 = vma_byte ?v 0x11004"
    using shrink_to_bytes [of ?v "rnew 0x11000 0x1000"] by (simp add: vmarea_new_def span_def lo_def hi_def)
  then show ?thesis by (simp add: vma_byte_def vmarea_new_def new_file_def lo_def)
qed

lemma resolve_fault_spec:
  assumes kind: "vkind v = FileKind f" and a: "contains_address (vregion v) a" and ok: "valid (vregion v)"
    and cong: "lo (vregion v) mod 4096 \<le> unat (fm_offset f)"
    and fit: "unat (fm_offset f) + unat (fm_len f) < 2 ^ 64" "unat (fm_offset f) + (hi (vregion v) - lo (vregion v)) < 2 ^ 64"
    and j: "j < 4096" "lo (vregion v) \<le> unat a div 4096 * 4096 + j"
  shows "case resolve_fault v a of
      None \<Rightarrow> vma_byte v (unat a div 4096 * 4096 + j) = ZeroFill
    | Some r \<Rightarrow> read_inode r = fm_file f \<and>
        (if unat (read_page_offset r) \<le> j \<and> j < unat (read_page_offset r) + unat (read_len r)
         then vma_byte v (unat a div 4096 * 4096 + j) =
                FileByte (fm_file f) (file_offset r + of_nat (j - unat (read_page_offset r)))
         else vma_byte v (unat a div 4096 * 4096 + j) = ZeroFill)"
proof -
  let ?l = "lo (vregion v)" and ?h = "hi (vregion v)" and ?off = "fm_offset f" and ?len = "fm_len f"
  define P where "P = unat a div 4096 * 4096"
  define M where "M = ?l div 4096 * 4096"
  define m where "m = ?l mod 4096"
  have in_r: "?l \<le> unat a" "unat a < ?h" using a ok by (simp_all add: contains_address_iff span_def)
  have lw: "?l = M + m" "m < 4096" "m \<le> unat ?off" using cong by (simp_all add: M_def m_def)
  have MP: "M \<le> P" using in_r(1) by (simp add: M_def P_def div_le_mono)
  have Pa: "P \<le> unat a" by (simp add: P_def)
  have jP: "?l \<le> P + j" using j(2) by (simp add: P_def)
  define start where "start = start_address (vregion v)"
  have start: "unat start = ?l" by (simp add: start_def unat_start_address)
  define fo where "fo = ?off - (start AND PAGE_MASK) + saturating_sub (page_aligned a) (page_aligned start)"
  have fo: "unat fo = unat ?off - m + (P - M)"
  proof -
    have "unat (?off - (start AND PAGE_MASK)) = unat ?off - m"
      using cong by (subst unat_sub_usize) (simp_all add: unat_and_PAGE_MASK start m_def)
    moreover have "unat (saturating_sub (page_aligned a) (page_aligned start)) = P - M"
      by (simp add: unat_page_aligned round_down_def start P_def M_def)
    moreover have "unat ?off - m + (P - M) < 2 ^ 64" using fit(2) in_r Pa lw MP by linarith
    ultimately show ?thesis unfolding fo_def by (subst unat_add_usize) simp_all
  qed
  define w where "w = (if page_aligned a = page_aligned start then start AND PAGE_MASK else 0)"
  have same: "page_aligned a = page_aligned start \<longleftrightarrow> P = M" by (simp add: unat_eq_usize unat_page_aligned round_down_def start P_def M_def)
  have w: "unat w = (if P = M then m else 0)" by (simp add: w_def same unat_and_PAGE_MASK start m_def)
  define rs where "rs = max fo ?off"
  define rl where "rl = min (saturating_sub (?off + ?len) rs) (PAGE_SIZE - w)"
  have rs: "unat rs = max (unat ?off - m + (P - M)) (unat ?off)" by (simp add: rs_def unat_max_word fo)
  have rl: "unat rl = min (unat ?off + unat ?len - unat rs) (4096 - unat w)"
  proof -
    have "unat (PAGE_SIZE - w) = 4096 - unat w" using w lw(2) by (subst unat_sub_usize) (simp_all add: PAGE_SIZE_def)
    moreover have "unat (?off + ?len) = unat ?off + unat ?len" using fit(1) by (simp add: unat_add_usize)
    ultimately show ?thesis by (simp add: rl_def unat_min_word)
  qed
  have res: "resolve_fault v a = (if rl = 0 then None
      else Some \<lparr>file_offset = rs, read_page_offset = w, read_len = rl, read_inode = fm_file f\<rparr>)"
    unfolding resolve_fault_def kind by (simp add: Let_def rl_def rs_def fo_def w_def start_def)
  have wj: "unat w \<le> j" using jP w lw by (cases "P = M") simp_all
  have "(j < unat w + unat rl \<longleftrightarrow> P + j - ?l < unat ?len) \<and> unat rs + (j - unat w) = unat ?off + (P + j - ?l)"
  proof (cases "P = M")
    case True
    have "unat w = m" "unat rs = unat ?off" using True w rs by simp_all
    moreover from this have "unat rl = min (unat ?len) (4096 - m)" using rl by simp
    moreover have "P + j - ?l = j - m" using lw(1) True by simp
    ultimately show ?thesis using j(1) wj by auto
  next
    case False
    then have "?l div 4096 < unat a div 4096" using MP by (simp add: M_def P_def)
    then have "Suc (?l div 4096) * 4096 \<le> unat a div 4096 * 4096" by (intro mult_le_mono1) simp
    then have far: "M + 4096 \<le> P" by (simp add: M_def P_def)
    then have "unat w = 0" "unat rs = unat ?off + (P - ?l)" using False w rs lw by simp_all
    moreover from this have "unat rl = min (unat ?len - (P - ?l)) 4096" using rl by simp
    moreover have "P + j - ?l = P - ?l + j" using far lw by simp
    ultimately show ?thesis using j(1) by auto
  qed
  then have read: "j < unat w + unat rl \<longleftrightarrow> P + j - ?l < unat ?len"
    and pos: "unat rs + (j - unat w) = unat ?off + (P + j - ?l)" by blast+
  have byte: "vma_byte v (P + j) = (if P + j - ?l < unat ?len then FileByte (fm_file f) (?off + of_nat (P + j - ?l)) else ZeroFill)"
    by (simp add: vma_byte_def kind)
  have "rs + of_nat (j - unat w) = ?off + of_nat (P + j - ?l)"
    using arg_cong [OF pos, of "of_nat :: nat \<Rightarrow> usize"] by simp
  then show ?thesis unfolding P_def [symmetric] using read wj byte res by (cases "rl = 0") auto
qed

text \<open>
  Claim C25. Take a file-backed area in which no file offset wraps around: the offset of the mapping plus the
  length of the file part, and plus the size of the area, are below \<open>2 ^ 64\<close>, and the offset is not below
  the offset of the area's start in its page. Resolving a page fault in it reads exactly the bytes of the faulting page
  that the area takes from its file: byte \<open>j\<close> of the page is written by the read if and only if the
  area maps it to the file, and then it is the byte at the mapped offset. When no byte of the page
  comes from the file there is no read.
\<close>

theorem resolve_fault_reads:
  assumes kind: "vkind v = FileKind f" and a: "contains_address (vregion v) a" and ok: "valid (vregion v)"
    and cong: "lo (vregion v) mod 4096 \<le> unat (fm_offset f)"
    and fit: "unat (fm_offset f) + unat (fm_len f) < 2 ^ 64" "unat (fm_offset f) + (hi (vregion v) - lo (vregion v)) < 2 ^ 64"
    and j: "j < 4096" "lo (vregion v) \<le> unat a div 4096 * 4096 + j"
  shows "case resolve_fault v a of
      None \<Rightarrow> vma_byte v (unat a div 4096 * 4096 + j) = ZeroFill
    | Some r \<Rightarrow> read_inode r = fm_file f \<and>
        (if unat (read_page_offset r) \<le> j \<and> j < unat (read_page_offset r) + unat (read_len r)
         then vma_byte v (unat a div 4096 * 4096 + j) =
                FileByte (fm_file f) (file_offset r + of_nat (j - unat (read_page_offset r)))
         else vma_byte v (unat a div 4096 * 4096 + j) = ZeroFill)"
  using assms by (rule resolve_fault_spec)

theorem resolve_fault_reads_witness:
  "resolve_fault (vmarea_new (rnew 0x30000 0x3000) (new_file 7 0x8000 0x1250) vma_rw) 0x31800 =
     Some \<lparr>file_offset = 0x9000, read_page_offset = 0, read_len = 0x250, read_inode = 7\<rparr> \<and>
   vma_byte (vmarea_new (rnew 0x30000 0x3000) (new_file 7 0x8000 0x1250) vma_rw) 0x31010 = FileByte 7 0x9010"
proof -
  let ?v = "vmarea_new (rnew 0x30000 0x3000) (new_file 7 0x8000 0x1250) vma_rw"
  have r: "resolve_fault ?v 0x31800 = Some \<lparr>file_offset = 0x9000, read_page_offset = 0, read_len = 0x250, read_inode = 7\<rparr>"
    by code_simp
  have "vkind ?v = FileKind \<lparr>fm_file = 7, fm_offset = 0x8000, fm_len = 0x1250\<rparr>"
    "contains_address (vregion ?v) 0x31800" "valid (vregion ?v)"
    by (simp_all add: vmarea_new_def new_file_def contains_address_def start_address_def end_address_def valid_def hi_def)
  from resolve_fault_reads [OF this, where j = 16] r show ?thesis
    by (simp add: vmarea_new_def lo_def hi_def)
qed

text \<open>
  Claim C27. Take an ELF program header whose segment, with the address bias applied, ends at least a page below
  \<open>2 ^ 64\<close>, and whose size in the file is also at least a page below. The area made from it maps every byte of the segment that the file
  provides to its place in the file and the rest of the segment,
  the BSS, to zero.
\<close>

theorem from_pheader_maps:
  assumes fits: "unat (p_vaddr hdr + bias) + unat (p_memsz hdr) + 4095 < 2 ^ 64"
    and len: "unat (p_filesz hdr) + 4095 < 2 ^ 64"
  shows "\<exists>v. from_pheader f hdr (Some bias) = Some v \<and> valid (vregion v) \<and>
    4096 dvd lo (vregion v) \<and> 4096 dvd hi (vregion v) \<and>
    (\<forall>d < unat (p_memsz hdr). unat (p_vaddr hdr + bias) + d \<in> span (vregion v) \<and>
       vma_byte v (unat (p_vaddr hdr + bias) + d) =
         (if d < unat (p_filesz hdr) then FileByte f (p_offset hdr + of_nat d) else ZeroFill))"
proof -
  let ?a = "p_vaddr hdr + bias" and ?r = "rnew (p_vaddr hdr + bias) (p_memsz hdr)"
  have "hi ?r + 4095 < 2 ^ 64" "lo ?r = unat ?a" using fits by (simp_all add: hi_def lo_def)
  then obtain q where q: "align_to_page_boundary ?r = Some q" "valid q" "4096 dvd lo q" "4096 dvd hi q" "hi ?r \<le> hi q"
    "lo q = unat ?a div 4096 * 4096"
    using align_to_page_boundary_eq [of ?r] by (auto simp: round_down_def)
  have m: "to_mappable_region ?r = Some \<lparr>mapped_region = q, offset_from_page_start = page_offset ?a\<rparr>"
    using q(1) by (simp add: to_mappable_region_def align_to_page_boundary_def start_address_def)
  have off: "unat (page_offset ?a) = unat ?a mod 4096" by (simp add: page_offset_def unat_and_PAGE_MASK)
  have mod: "unat ?a mod 4096 < 4096" by simp
  have len': "unat (p_filesz hdr + page_offset ?a) = unat (p_filesz hdr) + unat ?a mod 4096"
    using len off mod by (subst unat_add_usize) simp_all
  obtain v where v: "from_pheader f hdr (Some bias) = Some v" "vregion v = q"
    "vkind v = FileKind \<lparr>fm_file = f, fm_offset = p_offset hdr - page_offset ?a, fm_len = p_filesz hdr + page_offset ?a\<rparr>"
    using m by (simp add: from_pheader_def)
  have byte: "vma_byte v (unat ?a + d) = (if d < unat (p_filesz hdr) then FileByte f (p_offset hdr + of_nat d) else ZeroFill)" for d
  proof -
    have d: "unat ?a + d - lo q = unat ?a mod 4096 + d" using q(6) by (simp add: minus_div_mult_eq_mod [symmetric])
    have "p_offset hdr - page_offset ?a + of_nat (unat ?a mod 4096 + d) = p_offset hdr + of_nat d"
      unfolding off [symmetric] by simp
    then show ?thesis unfolding vma_byte_def Let_def v(2,3) d by (simp add: len')
  qed
  have "unat ?a + d \<in> span q" if "d < unat (p_memsz hdr)" for d
  proof -
    have "lo q \<le> unat ?a" unfolding q(6) by simp
    moreover have "hi ?r = unat ?a + unat (p_memsz hdr)" by (simp add: hi_def)
    ultimately show ?thesis using that q(5) by (simp add: span_def)
  qed
  then show ?thesis using v(1,2) q byte by blast
qed

theorem from_pheader_maps_witness:
  "\<exists>v. from_pheader 7 \<lparr>p_flags = 5, p_vaddr = 0x1100, p_memsz = 0x300, p_offset = 0x5100, p_filesz = 0x200\<rparr> (Some 0x400000) = Some v \<and>
     vma_byte v 0x401110 = FileByte 7 0x5110 \<and> vma_byte v 0x401300 = ZeroFill"
proof -
  let ?h = "\<lparr>p_flags = 5, p_vaddr = 0x1100, p_memsz = 0x300, p_offset = 0x5100, p_filesz = 0x200\<rparr>"
  obtain v where "from_pheader 7 ?h (Some 0x400000) = Some v"
    and v: "\<forall>d < unat (p_memsz ?h). vma_byte v (unat (p_vaddr ?h + 0x400000) + d) =
      (if d < unat (p_filesz ?h) then FileByte 7 (p_offset ?h + of_nat d) else ZeroFill)"
    using from_pheader_maps [of ?h "0x400000" 7] by auto
  moreover from v have "vma_byte v 0x401110 = FileByte 7 0x5110"
    by (elim allE [of _ 16]) simp
  moreover from v have "vma_byte v 0x401300 = ZeroFill"
    by (elim allE [of _ 512]) simp
  ultimately show ?thesis by blast
qed

end
