(* ===== verification/Sorted_Map.thy ===== *)
theory Sorted_Map
  imports Prelude
begin

text \<open>
  The ordered map of Rust's standard library (\<open>BTreeMap\<close>), as the sources use it: an association
  list with strictly ascending keys. \<open>range(..k).next_back()\<close> is \<open>bt_before\<close>,
  \<open>range(..=k).next_back()\<close> is \<open>bt_upto\<close>, and \<open>range(k..)\<close> is \<open>bt_from\<close>.
\<close>

type_synonym ('k, 'v) btree = "('k \<times> 'v) list"

definition bt_get :: "'k \<Rightarrow> ('k, 'v) btree \<Rightarrow> 'v option" where
  "bt_get k m = map_of m k"

fun bt_insert :: "'k::linorder \<Rightarrow> 'v \<Rightarrow> ('k, 'v) btree \<Rightarrow> ('k, 'v) btree" where
  "bt_insert k v [] = [(k, v)]"
| "bt_insert k v ((a, w) # m) =
     (if k < a then (k, v) # (a, w) # m else if k = a then (k, v) # m else (a, w) # bt_insert k v m)"

definition bt_remove :: "'k \<Rightarrow> ('k, 'v) btree \<Rightarrow> ('k, 'v) btree" where
  "bt_remove k m = filter (\<lambda>x. fst x \<noteq> k) m"

definition last_option :: "'a list \<Rightarrow> 'a option" where
  "last_option xs = (if xs = [] then None else Some (last xs))"

definition bt_before :: "'k::linorder \<Rightarrow> ('k, 'v) btree \<Rightarrow> ('k \<times> 'v) option" where
  "bt_before k m = last_option (filter (\<lambda>x. fst x < k) m)"

definition bt_upto :: "'k::linorder \<Rightarrow> ('k, 'v) btree \<Rightarrow> ('k \<times> 'v) option" where
  "bt_upto k m = last_option (filter (\<lambda>x. fst x \<le> k) m)"

definition bt_from :: "'k::linorder \<Rightarrow> ('k, 'v) btree \<Rightarrow> ('k, 'v) btree" where
  "bt_from k m = filter (\<lambda>x. k \<le> fst x) m"

definition bt_ok :: "('k::linorder, 'v) btree \<Rightarrow> bool" where
  "bt_ok m \<longleftrightarrow> sorted_wrt (\<lambda>x y. fst x < fst y) m"

section \<open>The interface\<close>

text \<open>What a client of an ordered map relies on, over the set of its entries.\<close>

locale ordered_map =
  fixes ok :: "'m \<Rightarrow> bool" and entries :: "'m \<Rightarrow> ('k::linorder \<times> 'v) set"
    and get :: "'k \<Rightarrow> 'm \<Rightarrow> 'v option" and ins :: "'k \<Rightarrow> 'v \<Rightarrow> 'm \<Rightarrow> 'm" and del :: "'k \<Rightarrow> 'm \<Rightarrow> 'm"
    and before :: "'k \<Rightarrow> 'm \<Rightarrow> ('k \<times> 'v) option" and upto :: "'k \<Rightarrow> 'm \<Rightarrow> ('k \<times> 'v) option"
  assumes get_iff: "ok m \<Longrightarrow> get k m = Some v \<longleftrightarrow> (k, v) \<in> entries m"
    and entries_ins: "ok m \<Longrightarrow> ok (ins k v m) \<and> entries (ins k v m) = insert (k, v) {x \<in> entries m. fst x \<noteq> k}"
    and entries_del: "ok m \<Longrightarrow> ok (del k m) \<and> entries (del k m) = {x \<in> entries m. fst x \<noteq> k}"
    and before_iff: "ok m \<Longrightarrow> before k m = Some (a, v) \<longleftrightarrow>
          (a, v) \<in> entries m \<and> a < k \<and> (\<forall>(b, w) \<in> entries m. b < k \<longrightarrow> b \<le> a)"
    and upto_iff: "ok m \<Longrightarrow> upto k m = Some (a, v) \<longleftrightarrow>
          (a, v) \<in> entries m \<and> a \<le> k \<and> (\<forall>(b, w) \<in> entries m. b \<le> k \<longrightarrow> b \<le> a)"
    and before_None: "ok m \<Longrightarrow> before k m = None \<longleftrightarrow> (\<forall>(b, w) \<in> entries m. k \<le> b)"
    and upto_None: "ok m \<Longrightarrow> upto k m = None \<longleftrightarrow> (\<forall>(b, w) \<in> entries m. k < b)"
begin

lemma key_unique: "ok m \<Longrightarrow> (k, v) \<in> entries m \<Longrightarrow> (k, w) \<in> entries m \<Longrightarrow> v = w"
  using get_iff by (metis option.inject)

lemma get_after_ins: "ok m \<Longrightarrow> get j (ins k v m) = (if j = k then Some v else get j m)"
proof -
  assume ok: "ok m"
  then have "get j (ins k v m) = Some w \<longleftrightarrow> (if j = k then Some v else get j m) = Some w" for w
    using entries_ins [OF ok, of k v] get_iff [of "ins k v m" j w] get_iff [OF ok, of j w] by auto
  then show ?thesis by (metis not_Some_eq)
qed

lemma get_after_del: "ok m \<Longrightarrow> get j (del k m) = (if j = k then None else get j m)"
proof -
  assume ok: "ok m"
  then have "get j (del k m) = Some w \<longleftrightarrow> (if j = k then None else get j m) = Some w" for w
    using entries_del [OF ok, of k] get_iff [of "del k m" j w] get_iff [OF ok, of j w] by auto
  then show ?thesis by (metis not_Some_eq)
qed

end

section \<open>Association lists with ascending keys\<close>

lemma bt_ok_simps [simp]: "bt_ok []" "bt_ok (x # m) \<longleftrightarrow> (\<forall>y \<in> set m. fst x < fst y) \<and> bt_ok m"
  by (simp_all add: bt_ok_def)

lemma bt_ok_distinct: "bt_ok m \<Longrightarrow> distinct (map fst m)"
  by (induction m) auto

lemma set_bt_insert:
  "bt_ok m \<Longrightarrow> set (bt_insert k v m) = insert (k, v) {x \<in> set m. fst x \<noteq> k}"
  by (induction k v m rule: bt_insert.induct) (auto simp: not_less le_less)

lemma bt_ok_insert: "bt_ok m \<Longrightarrow> bt_ok (bt_insert k v m)"
  by (induction k v m rule: bt_insert.induct) (auto simp: set_bt_insert)

lemma bt_ok_filter: "bt_ok m \<Longrightarrow> bt_ok (filter P m)"
  by (simp add: bt_ok_def sorted_wrt_filter)

lemma last_sorted:
  assumes "bt_ok m" and "m \<noteq> []"
  shows "x \<in> set m \<Longrightarrow> fst x \<le> fst (last m)"
  using assms
proof (induction m)
  case (Cons y m)
  then show ?case using last_in_set [of m] by (cases "m = []") (auto intro: less_imp_le)
qed simp

lemma last_option_filter:
  assumes "bt_ok m"
  shows "last_option (filter P m) = Some (a, v) \<longleftrightarrow> (a, v) \<in> set m \<and> P (a, v) \<and> (\<forall>(b, w) \<in> set m. P (b, w) \<longrightarrow> b \<le> a)"
    (is "?l \<longleftrightarrow> ?r")
proof
  let ?f = "filter P m"
  have ok: "bt_ok ?f" using assms by (rule bt_ok_filter)
  assume ?l
  then have ne: "?f \<noteq> []" and l: "last ?f = (a, v)" by (auto simp: last_option_def split: if_splits)
  then have "(a, v) \<in> set ?f" by (metis last_in_set)
  then show ?r using last_sorted [OF ok ne] l by auto
next
  let ?f = "filter P m"
  have ok: "bt_ok ?f" using assms by (rule bt_ok_filter)
  assume r: ?r
  then have av: "(a, v) \<in> set ?f" by simp
  then have ne: "?f \<noteq> []" by (metis empty_iff list.set(1))
  obtain b w where l: "last ?f = (b, w)" by fastforce
  then have bw: "(b, w) \<in> set ?f" using ne by (metis last_in_set)
  then have "b \<le> a" using r by auto
  moreover have "a \<le> b" using last_sorted [OF ok ne av] l by simp
  ultimately have "a = b" by simp
  moreover have "distinct (map fst m)" by (rule bt_ok_distinct [OF assms])
  ultimately have "v = w" using av bw by (auto dest: eq_key_imp_eq_value)
  with \<open>a = b\<close> l ne show ?l by (simp add: last_option_def)
qed

lemma last_option_None: "last_option (filter P m) = None \<longleftrightarrow> (\<forall>x \<in> set m. \<not> P x)"
  by (simp add: last_option_def filter_empty_conv)

interpretation bt: ordered_map bt_ok set bt_get bt_insert bt_remove bt_before bt_upto
proof unfold_locales
  fix m :: "('k::linorder \<times> 'v) list" and k a :: 'k and v :: 'v
  assume ok: "bt_ok m"
  show "bt_get k m = Some v \<longleftrightarrow> (k, v) \<in> set m"
    using bt_ok_distinct [OF ok] by (simp add: bt_get_def)
  show "bt_ok (bt_insert k v m) \<and> set (bt_insert k v m) = insert (k, v) {x \<in> set m. fst x \<noteq> k}"
    using ok by (simp add: bt_ok_insert set_bt_insert)
  show "bt_ok (bt_remove k m) \<and> set (bt_remove k m) = {x \<in> set m. fst x \<noteq> k}"
    using ok by (simp add: bt_remove_def bt_ok_filter)
  show "bt_before k m = Some (a, v) \<longleftrightarrow> (a, v) \<in> set m \<and> a < k \<and> (\<forall>(b, w) \<in> set m. b < k \<longrightarrow> b \<le> a)"
    using last_option_filter [OF ok, of "\<lambda>x. fst x < k"] by (simp add: bt_before_def)
  show "bt_upto k m = Some (a, v) \<longleftrightarrow> (a, v) \<in> set m \<and> a \<le> k \<and> (\<forall>(b, w) \<in> set m. b \<le> k \<longrightarrow> b \<le> a)"
    using last_option_filter [OF ok, of "\<lambda>x. fst x \<le> k"] by (simp add: bt_upto_def)
  show "bt_before k m = None \<longleftrightarrow> (\<forall>(b, w) \<in> set m. k \<le> b)"
    using last_option_None [of "\<lambda>x. fst x < k" m] by (auto simp: bt_before_def not_less)
  show "bt_upto k m = None \<longleftrightarrow> (\<forall>(b, w) \<in> set m. k < b)"
    using last_option_None [of "\<lambda>x. fst x \<le> k" m] by (auto simp: bt_upto_def not_le)
qed

end
