(* ===== verification/Memory_Map.thy ===== *)
theory Memory_Map
  imports Vm_Area Sorted_Map
begin

text \<open>
  The memory map of a process (\<^verbatim>\<open>libkernel/src/memory/proc_vm/memory_map/mod.rs\<close>). The page tables are the parameter \<open>ops\<close>, the dictionary of the
  trait \<open>UserAddressSpace\<close> (\<^verbatim>\<open>memory/address_space.rs\<close>) over an address-space state \<open>'a\<close>; \<open>unmap\<close> may
  panic (the one of \<^verbatim>\<open>src/arch/arm64/memory/address_space.rs\<close> is a \<open>todo!()\<close>), the other operations are taken to return. A call
  returns its \<open>Result\<close> with the new map, also on an error, because the code changes the map before
  it can fail; a panic is \<open>None\<close>.
\<close>

section \<open>The interface of an address space\<close>

record PageInfo =
  info_pfn :: nat
  info_perms :: PtePermissions

record 'a address_space_ops =
  as_new :: "'a result"
  as_map_page :: "'a \<Rightarrow> nat \<Rightarrow> addr \<Rightarrow> PtePermissions \<Rightarrow> unit result \<times> 'a"
  as_unmap :: "'a \<Rightarrow> addr \<Rightarrow> (nat result \<times> 'a) option"
  as_remap :: "'a \<Rightarrow> addr \<Rightarrow> nat \<Rightarrow> PtePermissions \<Rightarrow> nat result \<times> 'a"
  as_protect_range :: "'a \<Rightarrow> region \<Rightarrow> PtePermissions \<Rightarrow> unit result \<times> 'a"
  as_unmap_range :: "'a \<Rightarrow> region \<Rightarrow> nat list result \<times> 'a"
  as_translate :: "'a \<Rightarrow> addr \<Rightarrow> PageInfo option"
  as_protect_and_clone_region :: "'a \<Rightarrow> region \<Rightarrow> 'a \<Rightarrow> PtePermissions \<Rightarrow> unit result \<times> 'a \<times> 'a"

section \<open>Memory maps\<close>

definition MMAP_BASE :: usize where
  "MMAP_BASE = 0x400000000000"

type_synonym vmas = "(addr, vmarea) btree"

record 'a memory_map =
  vmas :: vmas
  address_space :: 'a

datatype AddressRequest =
    AnyAddress
  | Hint addr
  | Fixed addr bool

datatype RemapDestination =
    InPlaceOnly
  | MayMove
  | FixedAt addr

definition mm_new :: "'a address_space_ops \<Rightarrow> 'a memory_map result" where
  "mm_new ops = map_sum id (\<lambda>as. \<lparr>vmas = [], address_space = as\<rparr>) (as_new ops)"

definition with_addr_spc :: "'a \<Rightarrow> 'a memory_map" where
  "with_addr_spc as = \<lparr>vmas = [], address_space = as\<rparr>"

definition from_vmas :: "'a address_space_ops \<Rightarrow> vmarea list \<Rightarrow> 'a memory_map result" where
  "from_vmas ops vs =
     (let m = fold (\<lambda>v m. bt_insert (start_address (vregion v)) v m) vs []
      in map_sum id (\<lambda>as. \<lparr>vmas = m, address_space = as\<rparr>) (as_new ops))"

definition find_vma :: "vmas \<Rightarrow> addr \<Rightarrow> vmarea option" where
  "find_vma m a =
     (case bt_upto a m of
        Some (_, v) \<Rightarrow> if vma_contains_address v a then Some v else None
      | None \<Rightarrow> None)"

definition is_region_free :: "vmas \<Rightarrow> region \<Rightarrow> bool" where
  "is_region_free m r =
     (if (case bt_upto (start_address r) m of
            Some (_, prev_vma) \<Rightarrow> end_address (vregion prev_vma) > start_address r
          | None \<Rightarrow> False)
      then False
      else case bt_from (start_address r) m of
             (next_vma_start, _) # _ \<Rightarrow> \<not> next_vma_start < end_address r
           | [] \<Rightarrow> True)"

text \<open>The loop of \<open>find_free_region\<close> over the areas from the highest to the lowest.\<close>

fun find_gap :: "usize \<Rightarrow> addr \<Rightarrow> vmarea list \<Rightarrow> region option" where
  "find_gap len last_vma_end [] =
     (if last_vma_end \<ge> len then Some (rnew (last_vma_end - len) len) else None)"
| "find_gap len last_vma_end (v # vs) =
     (if last_vma_end \<ge> end_address (vregion v) \<and> last_vma_end - end_address (vregion v) \<ge> len
      then Some (rnew (last_vma_end - len) len)
      else find_gap len (start_address (vregion v)) vs)"

definition find_free_region :: "vmas \<Rightarrow> usize \<Rightarrow> region option" where
  "find_free_region m len = find_gap len MMAP_BASE (map snd (rev m))"

text \<open>
  \<open>merge_vma\<close>, with its first step, the merge with the area that follows, on its own. The assertion of
  \<open>expand_by\<close> is the only panic.
\<close>

definition merge_next :: "vmas \<Rightarrow> vmarea \<Rightarrow> (vmas \<times> vmarea) option" where
  "merge_next m v =
     (case bt_get (end_address (vregion v)) m of
        Some next_vma \<Rightarrow>
          if can_merge_with v next_vma
          then map_option (\<lambda>r. (bt_remove (start_address (vregion next_vma)) m, v\<lparr>vregion := r\<rparr>))
                 (expand_by (vregion v) (rsize (vregion next_vma)))
          else Some (m, v)
      | None \<Rightarrow> Some (m, v))"

definition merge_vma :: "vmas \<Rightarrow> vmarea \<Rightarrow> vmas option" where
  "merge_vma m v =
     do {
       (m, v) \<leftarrow> merge_next m v;
       (case bt_before (start_address (vregion v)) m of
          Some (key, prev_vma) \<Rightarrow>
            if end_address (vregion prev_vma) = start_address (vregion v) \<and> can_merge_with prev_vma v
            then map_option (\<lambda>r. bt_insert key (prev_vma\<lparr>vregion := r\<rparr>) m)
                   (expand_by (vregion prev_vma) (rsize (vregion v)))
            else Some (bt_insert (start_address (vregion v)) v m)
        | None \<Rightarrow> Some (bt_insert (start_address (vregion v)) v m))
     }"

definition fixup_pg_tables ::
  "'a address_space_ops \<Rightarrow> 'a \<Rightarrow> region \<Rightarrow> vmarea \<Rightarrow> vmarea option \<Rightarrow> nat list result \<times> 'a" where
  "fixup_pg_tables ops as fixup_region old_vma new_vma =
     (case intersection fixup_region (vregion old_vma) of
        None \<Rightarrow> (Inr [], as)
      | Some i \<Rightarrow>
          (case new_vma of
             Some new_vma \<Rightarrow>
               if is_file_backed old_vma \<or> is_file_backed new_vma then as_unmap_range ops as i
               else if vperms new_vma \<noteq> vperms old_vma
               then apfst (map_sum id (\<lambda>_. [])) (as_protect_range ops as i (pte_of_vma (vperms new_vma)))
               else (Inr [], as)
           | None \<Rightarrow> as_unmap_range ops as i))"

text \<open>The areas that \<open>unmap_region\<close> touches: one that reaches into the region, then those that start in it.\<close>

definition affected_vmas :: "vmas \<Rightarrow> region \<Rightarrow> vmarea list" where
  "affected_vmas m r =
     (case bt_before (start_address r) m of
        Some (_, v) \<Rightarrow> if end_address (vregion v) > start_address r then [v] else []
      | None \<Rightarrow> []) @
     map snd (takeWhile (\<lambda>(_, v). start_address (vregion v) < end_address r) (bt_from (start_address r) m))"

text \<open>What is left of an area, and inserted again: the parts below and above the region.\<close>

definition remainders :: "region \<Rightarrow> vmarea \<Rightarrow> vmas \<Rightarrow> vmas" where
  "remainders r v m =
     (let unmap_start = start_address r; unmap_end = end_address r;
          vma_start = start_address (vregion v); vma_end = end_address (vregion v);
          left = clone_with_new_region v (rnew vma_start (unmap_start - vma_start));
          right = clone_with_new_region v (rnew unmap_end (vma_end - unmap_end))
      in if vma_start < unmap_start \<and> vma_end > unmap_end
         then bt_insert (start_address (vregion right)) right
                (bt_insert (start_address (vregion left)) left m)
         else
           let m = (if vma_start < unmap_start then bt_insert (start_address (vregion left)) left m else m);
               new_vma = (case vkind right of
                            FileKind f \<Rightarrow> right\<lparr>vkind := FileKind (f\<lparr>fm_offset := fm_offset f + (unmap_end - vma_start)\<rparr>)\<rparr>
                          | _ \<Rightarrow> right)
           in if vma_end > unmap_end then bt_insert (start_address (vregion new_vma)) new_vma m else m)"

fun unmap_vmas ::
  "'a address_space_ops \<Rightarrow> region \<Rightarrow> vmarea option \<Rightarrow> vmarea list \<Rightarrow> nat list \<Rightarrow> 'a memory_map \<Rightarrow>
    (nat list result \<times> 'a memory_map) option" where
  "unmap_vmas ops r new_vma [] pages mm = Some (Inr pages, mm)"
| "unmap_vmas ops r new_vma (v # vs) pages mm =
     (case bt_get (start_address (vregion v)) (vmas mm) of
        None \<Rightarrow> None
      | Some _ \<Rightarrow>
          let m = bt_remove (start_address (vregion v)) (vmas mm);
              (res, as) = fixup_pg_tables ops (address_space mm) r v new_vma
          in case res of
               Inl e \<Rightarrow> Some (Inl e, \<lparr>vmas = m, address_space = as\<rparr>)
             | Inr ps \<Rightarrow>
                 unmap_vmas ops r new_vma vs (pages @ ps) \<lparr>vmas = remainders r v m, address_space = as\<rparr>)"

definition unmap_region ::
  "'a address_space_ops \<Rightarrow> region \<Rightarrow> vmarea option \<Rightarrow> 'a memory_map \<Rightarrow> (nat list result \<times> 'a memory_map) option" where
  "unmap_region ops r replace_with mm = unmap_vmas ops r replace_with (affected_vmas (vmas mm) r) [] mm"

text \<open>\<open>insert_and_merge\<close> drops the result of \<open>unmap_region\<close>, and with it an error.\<close>

definition insert_and_merge :: "'a address_space_ops \<Rightarrow> vmarea \<Rightarrow> 'a memory_map \<Rightarrow> 'a memory_map option" where
  "insert_and_merge ops v mm =
     do {
       (_, mm) \<leftarrow> unmap_region ops (vregion v) (Some v) mm;
       m \<leftarrow> merge_vma (vmas mm) v;
       Some (mm\<lparr>vmas := m\<rparr>)
     }"

definition choose_region :: "vmas \<Rightarrow> AddressRequest \<Rightarrow> usize \<Rightarrow> region result" where
  "choose_region m requested_address len =
     (case requested_address of
        AnyAddress \<Rightarrow> (case find_free_region m len of None \<Rightarrow> Inl NoMemory | Some r \<Rightarrow> Inr r)
      | Hint a \<Rightarrow>
          let a = (if \<not> is_page_aligned a then page_aligned a else a);
              r = rnew a len
          in if is_region_free m r then Inr r
             else (case find_free_region m len of None \<Rightarrow> Inl NoMemory | Some r \<Rightarrow> Inr r)
      | Fixed a permit_overlap \<Rightarrow>
          if \<not> is_page_aligned a then Inl InvalidValue
          else
            let r = rnew a len
            in if \<not> permit_overlap \<and> \<not> is_region_free m r then Inl InvalidValue else Inr r)"

definition mmap_impl ::
  "'a address_space_ops \<Rightarrow> AddressRequest \<Rightarrow> usize \<Rightarrow> VMAPermissions \<Rightarrow> VMAreaKind \<Rightarrow> string \<Rightarrow> bool \<Rightarrow>
    'a memory_map \<Rightarrow> ((addr \<times> nat list) result \<times> 'a memory_map) option" where
  "mmap_impl ops requested_address len perms kind name replace mm =
     (if len = 0 then Some (Inl InvalidValue, mm)
      else
        case checked_add len PAGE_MASK of
          None \<Rightarrow> Some (Inl NoMemory, mm)
        | Some n \<Rightarrow>
            let len = n AND NOT PAGE_MASK
            in case choose_region (vmas mm) requested_address len of
                 Inl e \<Rightarrow> Some (Inl e, mm)
               | Inr r \<Rightarrow>
                   do {
                     (res, mm) \<leftarrow> (if replace then unmap_region ops r None mm else Some (Inr [], mm));
                     (case res of
                        Inl e \<Rightarrow> Some (Inl e, mm)
                      | Inr pages \<Rightarrow>
                          map_option (\<lambda>mm. (Inr (start_address r, pages), mm))
                            (insert_and_merge ops (set_name (vmarea_new r kind perms) name) mm))
                   })"

definition mmap ::
  "'a address_space_ops \<Rightarrow> AddressRequest \<Rightarrow> usize \<Rightarrow> VMAPermissions \<Rightarrow> VMAreaKind \<Rightarrow> string \<Rightarrow>
    'a memory_map \<Rightarrow> (addr result \<times> 'a memory_map) option" where
  "mmap ops requested_address len perms kind name mm =
     map_option (apfst (map_sum id fst)) (mmap_impl ops requested_address len perms kind name False mm)"

definition mmap_replacing ::
  "'a address_space_ops \<Rightarrow> AddressRequest \<Rightarrow> usize \<Rightarrow> VMAPermissions \<Rightarrow> VMAreaKind \<Rightarrow> string \<Rightarrow>
    'a memory_map \<Rightarrow> ((addr \<times> nat list) result \<times> 'a memory_map) option" where
  "mmap_replacing ops requested_address len perms kind name mm =
     mmap_impl ops requested_address len perms kind name True mm"

definition munmap :: "'a address_space_ops \<Rightarrow> region \<Rightarrow> 'a memory_map \<Rightarrow> (nat list result \<times> 'a memory_map) option" where
  "munmap ops rng mm =
     (if \<not> region_is_page_aligned rng then Some (Inl InvalidValue, mm)
      else if rsize rng = 0 then Some (Inl InvalidValue, mm)
      else Option.bind (align_to_page_boundary rng) (\<lambda>r. unmap_region ops r None mm))"

definition mprotect ::
  "'a address_space_ops \<Rightarrow> region \<Rightarrow> VMAPermissions \<Rightarrow> 'a memory_map \<Rightarrow> (unit result \<times> 'a memory_map) option" where
  "mprotect ops protect_region new_perms mm =
     (if \<not> region_is_page_aligned protect_region then Some (Inl InvalidValue, mm)
      else if rsize protect_region = 0 then Some (Inl InvalidValue, mm)
      else
        case find_vma (vmas mm) (start_address protect_region) of
          None \<Rightarrow> Some (Inl NoMemory, mm)
        | Some found \<Rightarrow>
            let affected_addr = start_address (vregion found)
            in case bt_get affected_addr (vmas mm) of
                 None \<Rightarrow> None
               | Some affected \<Rightarrow>
                   if \<not> contains (vregion affected) protect_region then Some (Inl NoMemory, mm)
                   else
                     let (res, as) = as_protect_range ops (address_space mm) protect_region (pte_of_vma new_perms)
                     in case res of
                          Inl e \<Rightarrow> Some (Inl e, mm\<lparr>address_space := as\<rparr>)
                        | Inr _ \<Rightarrow>
                            let mm = \<lparr>vmas = bt_remove affected_addr (vmas mm), address_space = as\<rparr>
                            in if vregion affected = protect_region
                               then map_option (Pair (Inr ())) (insert_and_merge ops (affected\<lparr>vperms := new_perms\<rparr>) mm)
                               else
                                 let (left, right) = punch_hole (vregion affected) protect_region;
                                     new_vma = (shrink_to affected protect_region)\<lparr>vperms := new_perms\<rparr>
                                 in do {
                                      mm \<leftarrow> (case left of
                                               Some l \<Rightarrow> insert_and_merge ops (shrink_to affected l) mm
                                             | None \<Rightarrow> Some mm);
                                      mm \<leftarrow> insert_and_merge ops new_vma mm;
                                      mm \<leftarrow> (case right of
                                               Some r \<Rightarrow> insert_and_merge ops (shrink_to affected r) mm
                                             | None \<Rightarrow> Some mm);
                                      Some (Inr (), mm)
                                    })"

section \<open>Remapping\<close>

definition align_len :: "usize \<Rightarrow> usize" where
  "align_len len = (if len AND PAGE_MASK \<noteq> 0 then (len AND NOT PAGE_MASK) + PAGE_SIZE else len)"

definition can_expand_in_place :: "vmas \<Rightarrow> vmarea \<Rightarrow> region \<Rightarrow> usize \<Rightarrow> bool option" where
  "can_expand_in_place m source_vma old_region new_len =
     (let new_end = add_bytes (start_address old_region) new_len
      in if new_end \<le> end_address (vregion source_vma) then Some True
         else map_option (is_region_free m) (from_start_end_address (end_address (vregion source_vma)) new_end))"

definition expand_in_place ::
  "vmarea \<Rightarrow> region \<Rightarrow> usize \<Rightarrow> 'a memory_map \<Rightarrow> ((addr \<times> nat list) result \<times> 'a memory_map) option" where
  "expand_in_place source_vma old_region new_len mm =
     (let new_end = add_bytes (start_address old_region) new_len;
          source_start = start_address (vregion source_vma)
      in if new_end \<le> end_address (vregion source_vma) then Some (Inr (start_address old_region, []), mm)
         else
           case bt_get source_start (vmas mm) of
             None \<Rightarrow> None
           | Some _ \<Rightarrow>
               do {
                 r \<leftarrow> from_start_end_address source_start new_end;
                 m \<leftarrow> merge_vma (bt_remove source_start (vmas mm)) (source_vma\<lparr>vregion := r\<rparr>);
                 Some (Inr (start_address old_region, []), mm\<lparr>vmas := m\<rparr>)
               })"

text \<open>Putting back the parts of the area below and above the remapped region.\<close>

definition merge_left :: "vmarea \<Rightarrow> region \<Rightarrow> vmas \<Rightarrow> vmas option" where
  "merge_left source_vma old_region m =
     (if start_address (vregion source_vma) < start_address old_region
      then Option.bind (from_start_end_address (start_address (vregion source_vma)) (start_address old_region))
             (\<lambda>r. merge_vma m (shrink_to source_vma r))
      else Some m)"

definition merge_right :: "vmarea \<Rightarrow> region \<Rightarrow> vmas \<Rightarrow> vmas option" where
  "merge_right source_vma old_region m =
     (if end_address old_region < end_address (vregion source_vma)
      then Option.bind (from_start_end_address (end_address old_region) (end_address (vregion source_vma)))
             (\<lambda>r. merge_vma m (shrink_to source_vma r))
      else Some m)"

definition shrink_in_place ::
  "'a address_space_ops \<Rightarrow> vmarea \<Rightarrow> region \<Rightarrow> usize \<Rightarrow> 'a memory_map \<Rightarrow>
    ((addr \<times> nat list) result \<times> 'a memory_map) option" where
  "shrink_in_place ops source_vma old_region new_len mm =
     (let new_region = rnew (start_address old_region) new_len
      in do {
           removed_region \<leftarrow> from_start_end_address (end_address new_region) (end_address old_region);
           let (res, as) = as_unmap_range ops (address_space mm) removed_region;
           (case res of
              Inl e \<Rightarrow> Some (Inl e, mm\<lparr>address_space := as\<rparr>)
            | Inr freed_pages \<Rightarrow>
                do {
                  _ \<leftarrow> bt_get (start_address (vregion source_vma)) (vmas mm);
                  let m = bt_remove (start_address (vregion source_vma)) (vmas mm);
                  m \<leftarrow> merge_left source_vma old_region m;
                  m \<leftarrow> merge_vma m (shrink_to source_vma new_region);
                  m \<leftarrow> merge_right source_vma old_region m;
                  Some (Inr (start_address old_region, freed_pages), \<lparr>vmas = m, address_space = as\<rparr>)
                })
         })"

definition relocate_vma :: "vmarea \<Rightarrow> region \<Rightarrow> vmarea" where
  "relocate_vma v new_region =
     (let moved = v\<lparr>vregion := new_region\<rparr>
      in case vkind moved of
           FileKind f \<Rightarrow> moved\<lparr>vkind := FileKind (f\<lparr>fm_len := min (fm_len f) (rsize new_region)\<rparr>)\<rparr>
         | _ \<Rightarrow> moved)"

text \<open>Copying the page-table entries; \<open>Inl (e, pages)\<close> also gives the new pages to take back.\<close>

fun move_pages ::
  "'a address_space_ops \<Rightarrow> (addr \<times> addr) list \<Rightarrow> addr list \<Rightarrow> 'a \<Rightarrow> ((KernelError \<times> addr list) + unit) \<times> 'a" where
  "move_pages ops [] newly_mapped as = (Inr (), as)"
| "move_pages ops ((old_page, new_page) # ps) newly_mapped as =
     (case as_translate ops as old_page of
        None \<Rightarrow> move_pages ops ps newly_mapped as
      | Some info \<Rightarrow>
          (case as_map_page ops as (info_pfn info) new_page (info_perms info) of
             (Inl e, as) \<Rightarrow> (Inl (e, newly_mapped), as)
           | (Inr _, as) \<Rightarrow> move_pages ops ps (newly_mapped @ [new_page]) as))"

fun unmap_pages :: "'a address_space_ops \<Rightarrow> addr list \<Rightarrow> 'a \<Rightarrow> 'a option" where
  "unmap_pages ops [] as = Some as"
| "unmap_pages ops (page # pages) as =
     do { (_, as) \<leftarrow> as_unmap ops as page; unmap_pages ops pages as }"

text \<open>
  The two page-table steps of \<open>move_selected_mapping\<close>: moving the pages that are kept, with the new
  ones taken back on an error, and unmapping the tail of a region that shrinks.
\<close>

definition move_frames :: "'a address_space_ops \<Rightarrow> region \<Rightarrow> region \<Rightarrow> usize \<Rightarrow> 'a \<Rightarrow> (unit result \<times> 'a) option" where
  "move_frames ops old_region new_region preserved_len as =
     (if preserved_len \<noteq> 0
      then
        let preserved_old = rnew (start_address old_region) preserved_len;
            preserved_new = rnew (start_address new_region) preserved_len
        in case move_pages ops (zip (iter_pages preserved_old) (iter_pages preserved_new)) [] as of
             (Inl (e, pages), as) \<Rightarrow> map_option (Pair (Inl e)) (unmap_pages ops pages as)
           | (Inr _, as) \<Rightarrow> Some (apfst (map_sum id (\<lambda>_. ())) (as_unmap_range ops as preserved_old))
      else Some (Inr (), as))"

definition unmap_tail :: "'a address_space_ops \<Rightarrow> region \<Rightarrow> usize \<Rightarrow> 'a \<Rightarrow> (nat list result \<times> 'a) option" where
  "unmap_tail ops old_region preserved_len as =
     (if rsize old_region > preserved_len
      then map_option (as_unmap_range ops as)
             (from_start_end_address (add_bytes (start_address old_region) preserved_len) (end_address old_region))
      else Some (Inr [], as))"

definition move_selected_mapping ::
  "'a address_space_ops \<Rightarrow> vmarea \<Rightarrow> region \<Rightarrow> region \<Rightarrow> bool \<Rightarrow> 'a memory_map \<Rightarrow>
    ((addr \<times> nat list) result \<times> 'a memory_map) option" where
  "move_selected_mapping ops source_vma old_region new_region clobber_target mm =
     do {
       (res, mm) \<leftarrow> (if clobber_target then unmap_region ops new_region None mm else Some (Inr [], mm));
       (case res of
          Inl e \<Rightarrow> Some (Inl e, mm)
        | Inr freed \<Rightarrow>
            let preserved_len = min (rsize old_region) (rsize new_region)
            in do {
                 (res, as) \<leftarrow> move_frames ops old_region new_region preserved_len (address_space mm);
                 (case res of
                    Inl e \<Rightarrow> Some (Inl e, mm\<lparr>address_space := as\<rparr>)
                  | Inr _ \<Rightarrow>
                      do {
                        (res, as) \<leftarrow> unmap_tail ops old_region preserved_len as;
                        (case res of
                           Inl e \<Rightarrow> Some (Inl e, mm\<lparr>address_space := as\<rparr>)
                         | Inr tail_pages \<Rightarrow>
                             do {
                               _ \<leftarrow> bt_get (start_address (vregion source_vma)) (vmas mm);
                               let m = bt_remove (start_address (vregion source_vma)) (vmas mm);
                               m \<leftarrow> merge_left source_vma old_region m;
                               m \<leftarrow> merge_right source_vma old_region m;
                               m \<leftarrow> merge_vma m (relocate_vma (shrink_to source_vma old_region) new_region);
                               Some (Inr (start_address new_region, freed @ tail_pages), \<lparr>vmas = m, address_space = as\<rparr>)
                             })
                      })
               })
     }"

definition mremap ::
  "'a address_space_ops \<Rightarrow> addr \<Rightarrow> usize \<Rightarrow> usize \<Rightarrow> RemapDestination \<Rightarrow> 'a memory_map \<Rightarrow>
    ((addr \<times> nat list) result \<times> 'a memory_map) option" where
  "mremap ops old_addr old_len new_len destination mm =
     (if \<not> is_page_aligned old_addr \<or> old_len = 0 \<or> new_len = 0 then Some (Inl InvalidValue, mm)
      else
        let old_len = align_len old_len; new_len = align_len new_len; old_region = rnew old_addr old_len
        in case find_vma (vmas mm) old_addr of
             None \<Rightarrow> Some (Inl Fault, mm)
           | Some source_vma \<Rightarrow>
               if end_address old_region > end_address (vregion source_vma) then Some (Inl Fault, mm)
               else
                 case destination of
                   FixedAt new_addr \<Rightarrow>
                     let new_region = rnew new_addr new_len
                     in if \<not> is_page_aligned new_addr then Some (Inl InvalidValue, mm)
                        else if overlaps new_region old_region \<or> overlaps new_region (vregion source_vma)
                        then Some (Inl InvalidValue, mm)
                        else move_selected_mapping ops source_vma old_region new_region True mm
                 | _ \<Rightarrow>
                     if old_len = new_len then Some (Inr (old_addr, []), mm)
                     else if new_len \<le> old_len then shrink_in_place ops source_vma old_region new_len mm
                     else
                       do {
                         can \<leftarrow> can_expand_in_place (vmas mm) source_vma old_region new_len;
                         if can then expand_in_place source_vma old_region new_len mm
                         else
                           case destination of
                             InPlaceOnly \<Rightarrow> Some (Inl NoMemory, mm)
                           | _ \<Rightarrow>
                               (case find_free_region (vmas mm) new_len of
                                  None \<Rightarrow> Some (Inl NoMemory, mm)
                                | Some new_region \<Rightarrow> move_selected_mapping ops source_vma old_region new_region False mm)
                       })"

section \<open>Copy on write\<close>

fun clone_regions :: "'a address_space_ops \<Rightarrow> vmarea list \<Rightarrow> 'a \<Rightarrow> 'a \<Rightarrow> (unit result \<times> 'a \<times> 'a) option" where
  "clone_regions ops [] as new_as = Some (Inr (), as, new_as)"
| "clone_regions ops (v # vs) as new_as =
     (let pte_perms = pte_of_vma (vperms v);
          pte_perms = (if \<not> is_shared v \<and> pte_write pte_perms then into_cow pte_perms else pte_perms)
      in do {
           r \<leftarrow> align_to_page_boundary (vregion v);
           (case as_protect_and_clone_region ops as r new_as pte_perms of
              (Inl e, as, new_as) \<Rightarrow> Some (Inl e, as, new_as)
            | (Inr _, as, new_as) \<Rightarrow> clone_regions ops vs as new_as)
         })"

definition mm_clone_as_cow ::
  "'a address_space_ops \<Rightarrow> 'a memory_map \<Rightarrow> ('a memory_map result \<times> 'a memory_map) option" where
  "mm_clone_as_cow ops mm =
     (case as_new ops of
        Inl e \<Rightarrow> Some (Inl e, mm)
      | Inr new_as \<Rightarrow>
          map_option
            (\<lambda>(res, as, new_as).
               (map_sum id (\<lambda>_. \<lparr>vmas = vmas mm, address_space = new_as\<rparr>) res, mm\<lparr>address_space := as\<rparr>))
            (clone_regions ops (map snd (vmas mm)) (address_space mm) new_as))"

definition vma_count :: "'a memory_map \<Rightarrow> nat" where
  "vma_count mm = length (vmas mm)"

end
