(* ===== verification/Memory_Map_Proofs.thy ===== *)
theory Memory_Map_Proofs
  imports Memory_Map
begin

text \<open>
  What the operations of a memory map do. The invariant \<open>vmas_ok\<close> says that the areas are page
  aligned, not empty and pairwise disjoint, each under its start address. The abstract view of a map
  is per address: \<open>vma_at\<close> is the area that covers it, \<open>perms_at\<close> and \<open>byte_at\<close> are its permissions
  and the source of its byte.
\<close>

section \<open>Well-formed maps\<close>

definition vma_ok :: "vmarea \<Rightarrow> bool" where
  "vma_ok v \<longleftrightarrow> valid (vregion v) \<and> lo (vregion v) < hi (vregion v) \<and>
     4096 dvd lo (vregion v) \<and> 4096 dvd hi (vregion v)"

definition areas :: "vmas \<Rightarrow> vmarea set" where
  "areas m = snd ` set m"

definition vmas_ok :: "vmas \<Rightarrow> bool" where
  "vmas_ok m \<longleftrightarrow> bt_ok m \<and> (\<forall>x \<in> set m. fst x = start_address (vregion (snd x)) \<and> vma_ok (snd x)) \<and>
     (\<forall>x \<in> set m. \<forall>y \<in> set m. x \<noteq> y \<longrightarrow> hi (vregion (snd x)) \<le> lo (vregion (snd y)) \<or> hi (vregion (snd y)) \<le> lo (vregion (snd x)))"

definition vma_at :: "vmas \<Rightarrow> nat \<Rightarrow> vmarea option" where
  "vma_at m x = find (\<lambda>v. lo (vregion v) \<le> x \<and> x < hi (vregion v)) (map snd m)"

definition perms_at :: "vmas \<Rightarrow> nat \<Rightarrow> VMAPermissions option" where
  "perms_at m x = map_option vperms (vma_at m x)"

definition byte_at :: "vmas \<Rightarrow> nat \<Rightarrow> byte_source option" where
  "byte_at m x = map_option (\<lambda>v. vma_byte v x) (vma_at m x)"

text \<open>Two areas that share no address.\<close>

definition apart :: "vmarea \<Rightarrow> vmarea \<Rightarrow> bool" where
  "apart v w \<longleftrightarrow> hi (vregion v) \<le> lo (vregion w) \<or> hi (vregion w) \<le> lo (vregion v)"

lemma apart_sym: "apart v w \<Longrightarrow> apart w v"
  by (auto simp: apart_def)

lemma vma_okD:
  assumes "vma_ok v"
  shows "valid (vregion v)" and "lo (vregion v) < hi (vregion v)"
    and "4096 dvd lo (vregion v)" and "4096 dvd hi (vregion v)"
  using assms by (simp_all add: vma_ok_def)

lemma vmas_okD:
  assumes "vmas_ok m"
  shows "bt_ok m" and "(k, v) \<in> set m \<longleftrightarrow> v \<in> areas m \<and> k = start_address (vregion v)"
    and "v \<in> areas m \<Longrightarrow> vma_ok v"
    and "v \<in> areas m \<Longrightarrow> w \<in> areas m \<Longrightarrow> v \<noteq> w \<Longrightarrow> apart v w"
proof -
  have keys: "\<And>x. x \<in> set m \<Longrightarrow> fst x = start_address (vregion (snd x)) \<and> vma_ok (snd x)"
    and dis: "\<And>x y. x \<in> set m \<Longrightarrow> y \<in> set m \<Longrightarrow> x \<noteq> y \<Longrightarrow> apart (snd x) (snd y)"
    using assms by (auto simp: vmas_ok_def apart_def)
  show "bt_ok m" using assms by (simp add: vmas_ok_def)
  show "(k, v) \<in> set m \<longleftrightarrow> v \<in> areas m \<and> k = start_address (vregion v)"
    using keys by (force simp: areas_def)
  show "v \<in> areas m \<Longrightarrow> vma_ok v" using keys by (auto simp: areas_def)
  show "v \<in> areas m \<Longrightarrow> w \<in> areas m \<Longrightarrow> v \<noteq> w \<Longrightarrow> apart v w"
    using dis by (fastforce simp: areas_def)
qed

lemma areas_unique:
  assumes "vmas_ok m" and "v \<in> areas m" "w \<in> areas m"
    and "lo (vregion v) \<le> x" "x < hi (vregion v)" "lo (vregion w) \<le> x" "x < hi (vregion w)"
  shows "v = w"
  using vmas_okD(4) [OF assms(1-3)] assms(4-) by (auto simp: apart_def)

lemma start_unique:
  assumes "vmas_ok m" and "v \<in> areas m" "w \<in> areas m" and "lo (vregion v) = lo (vregion w)"
  shows "v = w"
proof -
  have "lo (vregion v) < hi (vregion v)" "lo (vregion w) < hi (vregion w)"
    using vmas_okD(3) [OF assms(1)] assms(2,3) by (simp_all add: vma_ok_def)
  then show ?thesis using areas_unique [OF assms(1-3), of "lo (vregion v)"] assms(4) by simp
qed

lemma vma_at_iff:
  assumes "vmas_ok m"
  shows "vma_at m x = Some v \<longleftrightarrow> v \<in> areas m \<and> lo (vregion v) \<le> x \<and> x < hi (vregion v)"
proof
  assume "vma_at m x = Some v"
  then show "v \<in> areas m \<and> lo (vregion v) \<le> x \<and> x < hi (vregion v)"
    unfolding vma_at_def find_Some_iff areas_def by auto
next
  assume v: "v \<in> areas m \<and> lo (vregion v) \<le> x \<and> x < hi (vregion v)"
  then have "vma_at m x \<noteq> None" by (auto simp: vma_at_def find_None_iff areas_def simp flip: set_map)
  then obtain w where w: "vma_at m x = Some w" by blast
  then have "w \<in> areas m \<and> lo (vregion w) \<le> x \<and> x < hi (vregion w)"
    unfolding vma_at_def find_Some_iff areas_def by auto
  with v have "v = w" using areas_unique [OF assms] by blast
  with w show "vma_at m x = Some v" by simp
qed

lemma vma_at_None: "vma_at m x = None \<longleftrightarrow> (\<forall>v \<in> areas m. \<not> (lo (vregion v) \<le> x \<and> x < hi (vregion v)))"
  by (simp add: vma_at_def find_None_iff areas_def)

lemma start_less: "start_address r < start_address q \<longleftrightarrow> lo r < lo q"
  "start_address r \<le> start_address q \<longleftrightarrow> lo r \<le> lo q"
  "start_address r = start_address q \<longleftrightarrow> lo r = lo q"
  by (simp_all add: usize_arith region_defs unat_eq_usize)

section \<open>Looking up addresses\<close>

text \<open>The lookups of the ordered map, in terms of the areas.\<close>

lemma upto_area:
  assumes ok: "vmas_ok m"
  shows "bt_upto a m = None \<Longrightarrow> v \<in> areas m \<Longrightarrow> unat a < lo (vregion v)"
    and "bt_upto a m = Some (k, p) \<Longrightarrow> p \<in> areas m \<and> k = start_address (vregion p) \<and> lo (vregion p) \<le> unat a"
    and "bt_upto a m = Some (k, p) \<Longrightarrow> v \<in> areas m \<Longrightarrow> lo (vregion v) \<le> unat a \<Longrightarrow> lo (vregion v) \<le> lo (vregion p)"
proof -
  note bt = vmas_okD(1) [OF ok]
  have key: "v \<in> areas m \<Longrightarrow> (start_address (vregion v), v) \<in> set m" for v using vmas_okD(2) [OF ok] by blast
  show "bt_upto a m = None \<Longrightarrow> v \<in> areas m \<Longrightarrow> unat a < lo (vregion v)"
    using bt.upto_None [OF bt, of a] key [of v] by (auto simp: usize_arith region_defs)
  assume s: "bt_upto a m = Some (k, p)"
  then have p: "(k, p) \<in> set m" "k \<le> a" "\<forall>(b, w) \<in> set m. b \<le> a \<longrightarrow> b \<le> k"
    using bt.upto_iff [OF bt, of a k p] by auto
  then show q: "p \<in> areas m \<and> k = start_address (vregion p) \<and> lo (vregion p) \<le> unat a"
    using vmas_okD(2) [OF ok, of k p] by (simp add: usize_arith region_defs)
  show "v \<in> areas m \<Longrightarrow> lo (vregion v) \<le> unat a \<Longrightarrow> lo (vregion v) \<le> lo (vregion p)"
    using bspec [OF p(3) key, of v] q by (simp add: usize_arith region_defs)
qed

lemma before_area:
  assumes ok: "vmas_ok m"
  shows "bt_before a m = None \<Longrightarrow> v \<in> areas m \<Longrightarrow> unat a \<le> lo (vregion v)"
    and "bt_before a m = Some (k, p) \<Longrightarrow> p \<in> areas m \<and> k = start_address (vregion p) \<and> lo (vregion p) < unat a"
    and "bt_before a m = Some (k, p) \<Longrightarrow> v \<in> areas m \<Longrightarrow> lo (vregion v) < unat a \<Longrightarrow> lo (vregion v) \<le> lo (vregion p)"
proof -
  note bt = vmas_okD(1) [OF ok]
  have key: "v \<in> areas m \<Longrightarrow> (start_address (vregion v), v) \<in> set m" for v using vmas_okD(2) [OF ok] by blast
  show "bt_before a m = None \<Longrightarrow> v \<in> areas m \<Longrightarrow> unat a \<le> lo (vregion v)"
    using bt.before_None [OF bt, of a] key [of v] by (auto simp: usize_arith region_defs)
  assume s: "bt_before a m = Some (k, p)"
  then have p: "(k, p) \<in> set m" "k < a" "\<forall>(b, w) \<in> set m. b < a \<longrightarrow> b \<le> k"
    using bt.before_iff [OF bt, of a k p] by auto
  then show q: "p \<in> areas m \<and> k = start_address (vregion p) \<and> lo (vregion p) < unat a"
    using vmas_okD(2) [OF ok, of k p] by (simp add: usize_arith region_defs)
  show "v \<in> areas m \<Longrightarrow> lo (vregion v) < unat a \<Longrightarrow> lo (vregion v) \<le> lo (vregion p)"
    using bspec [OF p(3) key, of v] q by (simp add: usize_arith region_defs)
qed

lemma get_area:
  assumes ok: "vmas_ok m"
  shows "bt_get a m = Some v \<longleftrightarrow> v \<in> areas m \<and> a = start_address (vregion v)"
  using bt.get_iff [OF vmas_okD(1) [OF ok]] vmas_okD(2) [OF ok] by blast

text \<open>Of the areas, only the last one that starts at or below an address can reach past it.\<close>

lemma last_covers:
  assumes ok: "vmas_ok m" and p: "p \<in> areas m" and v: "v \<in> areas m"
    and "lo (vregion v) \<le> lo (vregion p)" "lo (vregion p) \<le> x" "x < hi (vregion v)"
  shows "v = p"
proof (rule ccontr)
  assume "v \<noteq> p"
  then have "apart v p" by (rule vmas_okD(4) [OF ok v p])
  then show False using assms(4-) vma_okD(2) [OF vmas_okD(3) [OF ok p]] vma_okD(2) [OF vmas_okD(3) [OF ok v]]
    by (auto simp: apart_def)
qed

lemma find_vma_eq:
  assumes ok: "vmas_ok m"
  shows "find_vma m a = vma_at m (unat a)"
proof (cases "bt_upto a m")
  case None
  then have "vma_at m (unat a) = None" using upto_area(1) [OF ok None] by (auto simp: vma_at_None not_le)
  with None show ?thesis by (simp add: find_vma_def)
next
  case (Some kv)
  then obtain k v where kv: "bt_upto a m = Some (k, v)" by (cases kv) simp
  note v = upto_area(2) [OF ok kv] and last = upto_area(3) [OF ok kv]
  have c: "vma_contains_address v a \<longleftrightarrow> unat a < hi (vregion v)"
    using v vma_okD(1) [OF vmas_okD(3) [OF ok]] by (simp add: vma_contains_address_def contains_address_iff span_def)
  show ?thesis
  proof (cases "unat a < hi (vregion v)")
    case True
    then have "vma_at m (unat a) = Some v" using v vma_at_iff [OF ok] by blast
    then show ?thesis using kv c True by (simp add: find_vma_def)
  next
    case False
    have "\<not> (lo (vregion w) \<le> unat a \<and> unat a < hi (vregion w))" if "w \<in> areas m" for w
      using last [OF that] last_covers [OF ok _ that, of v "unat a"] v False by blast
    then have "vma_at m (unat a) = None" by (simp add: vma_at_None)
    then show ?thesis using kv c False by (simp add: find_vma_def)
  qed
qed

text \<open>A region that no area of the map meets.\<close>

definition region_free :: "vmas \<Rightarrow> region \<Rightarrow> bool" where
  "region_free m r \<longleftrightarrow> (\<forall>v \<in> areas m. hi (vregion v) \<le> lo r \<or> hi r \<le> lo (vregion v))"

lemma bt_from_hd:
  assumes "bt_ok m"
  shows "case bt_from k m of [] \<Rightarrow> \<forall>x \<in> set m. fst x < k
    | x # _ \<Rightarrow> x \<in> set m \<and> k \<le> fst x \<and> (\<forall>y \<in> set m. k \<le> fst y \<longrightarrow> fst x \<le> fst y)"
proof (cases "bt_from k m")
  case Nil
  then show ?thesis by (auto simp: bt_from_def filter_empty_conv not_le)
next
  case (Cons x xs)
  then have "bt_ok (x # xs)" using bt_ok_filter [OF assms, of "\<lambda>y. k \<le> fst y"] by (simp add: bt_from_def)
  have set: "set (x # xs) = {y \<in> set m. k \<le> fst y}"
    unfolding Cons [symmetric] by (simp add: bt_from_def)
  have le: "\<forall>y \<in> set (x # xs). fst x \<le> fst y" using \<open>bt_ok (x # xs)\<close> by (auto simp: less_imp_le)
  have "x \<in> {y \<in> set m. k \<le> fst y}" unfolding set [symmetric] by simp
  moreover have "\<forall>y \<in> set m. k \<le> fst y \<longrightarrow> fst x \<le> fst y" using le unfolding set by blast
  ultimately show ?thesis using Cons by simp
qed

lemma from_area:
  assumes ok: "vmas_ok m"
  shows "bt_from a m = [] \<Longrightarrow> v \<in> areas m \<Longrightarrow> lo (vregion v) < unat a"
    and "bt_from a m = (k, p) # xs \<Longrightarrow> p \<in> areas m \<and> k = start_address (vregion p) \<and> unat a \<le> lo (vregion p)"
    and "bt_from a m = (k, p) # xs \<Longrightarrow> v \<in> areas m \<Longrightarrow> unat a \<le> lo (vregion v) \<Longrightarrow> lo (vregion p) \<le> lo (vregion v)"
proof -
  note hd = bt_from_hd [OF vmas_okD(1) [OF ok], of a]
  have key: "v \<in> areas m \<Longrightarrow> (start_address (vregion v), v) \<in> set m" for v using vmas_okD(2) [OF ok] by blast
  show "bt_from a m = [] \<Longrightarrow> v \<in> areas m \<Longrightarrow> lo (vregion v) < unat a"
    using hd key [of v] by (auto simp: usize_arith region_defs)
  assume s: "bt_from a m = (k, p) # xs"
  then have p: "(k, p) \<in> set m" "a \<le> k" "\<forall>y \<in> set m. a \<le> fst y \<longrightarrow> k \<le> fst y" using hd by auto
  then show q: "p \<in> areas m \<and> k = start_address (vregion p) \<and> unat a \<le> lo (vregion p)"
    using vmas_okD(2) [OF ok, of k p] by (simp add: usize_arith region_defs)
  show "v \<in> areas m \<Longrightarrow> unat a \<le> lo (vregion v) \<Longrightarrow> lo (vregion p) \<le> lo (vregion v)"
    using bspec [OF p(3) key, of v] q by (simp add: usize_arith region_defs)
qed

lemma is_region_free_eq:
  assumes ok: "vmas_ok m" and r: "valid r" "lo r < hi r"
  shows "is_region_free m r \<longleftrightarrow> region_free m r"
proof -
  let ?s = "start_address r"
  have s: "unat ?s = lo r" by (rule unat_start_address)
  have prev: "(case bt_upto ?s m of Some (_, p) \<Rightarrow> end_address (vregion p) > ?s | None \<Rightarrow> False) \<longleftrightarrow>
      (\<exists>v \<in> areas m. lo (vregion v) \<le> lo r \<and> lo r < hi (vregion v))"
  proof (cases "bt_upto ?s m")
    case None
    then show ?thesis using upto_area(1) [OF ok None] by (fastforce simp: s)
  next
    case (Some kp)
    then obtain k p where kp: "bt_upto ?s m = Some (k, p)" by (cases kp) simp
    note p = upto_area(2) [OF ok kp, unfolded s] and last = upto_area(3) [OF ok kp, unfolded s]
    have e: "end_address (vregion p) > ?s \<longleftrightarrow> lo r < hi (vregion p)"
      using p vma_okD(1) [OF vmas_okD(3) [OF ok]] by (simp add: usize_arith region_defs)
    have "v = p" if "v \<in> areas m" "lo (vregion v) \<le> lo r" "lo r < hi (vregion v)" for v
      using last_covers [OF ok _ that(1), of p "lo r"] last [OF that(1,2)] p that by blast
    then show ?thesis using kp e p by auto
  qed
  have nxt: "(case bt_from ?s m of (n, _) # _ \<Rightarrow> \<not> n < end_address r | [] \<Rightarrow> True) \<longleftrightarrow>
      (\<forall>v \<in> areas m. lo r \<le> lo (vregion v) \<longrightarrow> hi r \<le> lo (vregion v))"
  proof (cases "bt_from ?s m")
    case Nil
    then show ?thesis using from_area(1) [OF ok Nil] by (fastforce simp: s)
  next
    case (Cons x xs)
    then obtain k p where kp: "bt_from ?s m = (k, p) # xs" by (cases x) simp
    note p = from_area(2) [OF ok kp, unfolded s] and least = from_area(3) [OF ok kp, unfolded s]
    have "\<not> k < end_address r \<longleftrightarrow> hi r \<le> lo (vregion p)" using p r by (simp add: usize_arith region_defs not_less)
    then show ?thesis using kp p least by (auto intro: order_trans)
  qed
  have "(hi (vregion v) \<le> lo r \<or> hi r \<le> lo (vregion v)) \<longleftrightarrow>
      \<not> (lo (vregion v) \<le> lo r \<and> lo r < hi (vregion v)) \<and> (lo r \<le> lo (vregion v) \<longrightarrow> hi r \<le> lo (vregion v))"
    if "v \<in> areas m" for v using vma_okD(2) [OF vmas_okD(3) [OF ok that]] r(2) by linarith
  then show ?thesis unfolding is_region_free_def prev nxt region_free_def by (simp; blast)
qed

section \<open>Finding a free region\<close>

text \<open>\<open>A\<close> are the areas the loop has passed, all at or above the end of the gap it looks at.\<close>

lemma find_gap_free:
  assumes "find_gap len l vs = Some r" and "0 < unat len" "4096 dvd unat len" "4096 dvd unat l"
    and "sorted_wrt (\<lambda>v w. hi (vregion w) \<le> lo (vregion v)) vs" "\<forall>v \<in> set vs. vma_ok v"
    and "\<forall>w \<in> A. unat l \<le> lo (vregion w)" "\<forall>v \<in> set vs. \<forall>w \<in> A. hi (vregion v) \<le> lo (vregion w)"
  shows "valid r \<and> lo r < hi r \<and> 4096 dvd lo r \<and> 4096 dvd hi r \<and> rsize r = len \<and>
    (\<forall>v \<in> set vs \<union> A. hi (vregion v) \<le> lo r \<or> hi r \<le> lo (vregion v))"
  using assms
proof (induction len l vs arbitrary: A rule: find_gap.induct)
  case (1 len l)
  then have le: "unat len \<le> unat l" and r: "r = rnew (l - len) len" by (simp_all add: usize_arith split: if_splits)
  then have "lo r = unat l - unat len" "hi r = unat l" by (simp_all add: lo_def hi_def unat_sub_usize)
  then show ?case using 1 le r by (auto simp: valid_def)
next
  case (2 len l v vs)
  have ok: "vma_ok v" and below: "\<forall>w \<in> set vs. hi (vregion w) \<le> lo (vregion v)" using 2 by simp_all
  note vD = vma_okD [OF ok]
  show ?case
  proof (cases "unat l \<ge> hi (vregion v) \<and> unat l - hi (vregion v) \<ge> unat len")
    case True
    then have r: "r = rnew (l - len) len"
      using 2(2) vD(1) by (simp add: usize_arith region_defs unat_sub_usize)
    have le: "unat len \<le> unat l" using True by linarith
    have "lo r = unat l - unat len" "hi r = unat l" using r le by (simp_all add: lo_def hi_def unat_sub_usize)
    then show ?thesis using 2 True r vD(2) below by (fastforce simp: valid_def)
  next
    case False
    then have c: "\<not> (end_address (vregion v) \<le> l \<and> len \<le> l - end_address (vregion v))"
      using vD(1) by (auto simp: usize_arith region_defs unat_sub_usize)
    then have g: "find_gap len (start_address (vregion v)) vs = Some r" using 2(2) by (simp split: if_splits)
    have al: "4096 dvd unat (start_address (vregion v))" using vD(3) by (simp add: unat_start_address)
    have up: "\<forall>w \<in> insert v A. unat (start_address (vregion v)) \<le> lo (vregion w)"
      using 2(9) vD(2) by (fastforce simp: unat_start_address)
    have dn: "\<forall>u \<in> set vs. \<forall>w \<in> insert v A. hi (vregion u) \<le> lo (vregion w)" using below 2(9) by simp
    show ?thesis using 2(1) [OF c g 2(3,4) al _ _ up dn] 2(6,7) by simp
  qed
qed

lemma rev_areas_sorted:
  assumes ok: "vmas_ok m"
  shows "sorted_wrt (\<lambda>v w. hi (vregion w) \<le> lo (vregion v)) (map snd (rev m))"
proof -
  have "sorted_wrt (\<lambda>x y. fst x < fst y) m" using vmas_okD(1) [OF ok] by (simp add: bt_ok_def)
  then have "sorted_wrt (\<lambda>x y. hi (vregion (snd x)) \<le> lo (vregion (snd y))) m"
  proof (rule sorted_wrt_mono_rel [rotated])
    fix x y assume xy: "x \<in> set m" "y \<in> set m" "fst x < fst y"
    have "(fst x, snd x) \<in> set m" "(fst y, snd y) \<in> set m" using xy by simp_all
    then have x: "snd x \<in> areas m" "fst x = start_address (vregion (snd x))"
      and y: "snd y \<in> areas m" "fst y = start_address (vregion (snd y))"
      using vmas_okD(2) [OF ok] by blast+
    then have less: "lo (vregion (snd x)) < lo (vregion (snd y))" using xy(3) by (simp add: start_less)
    then have "snd x \<noteq> snd y" by auto
    then have "apart (snd x) (snd y)" by (rule vmas_okD(4) [OF ok x(1) y(1)])
    then show "hi (vregion (snd x)) \<le> lo (vregion (snd y))"
      using less vma_okD(2) [OF vmas_okD(3) [OF ok y(1)]] by (auto simp: apart_def)
  qed
  then show ?thesis by (simp add: sorted_wrt_map sorted_wrt_rev)
qed

lemma find_free_region_spec:
  assumes ok: "vmas_ok m" and "find_free_region m len = Some r" and "0 < unat len" "4096 dvd unat len"
  shows "valid r" "lo r < hi r" "4096 dvd lo r" "4096 dvd hi r" "rsize r = len" "region_free m r"
proof -
  have "\<forall>v \<in> set (map snd (rev m)). vma_ok v" using vmas_okD(3) [OF ok] by (simp add: areas_def)
  then have "valid r \<and> lo r < hi r \<and> 4096 dvd lo r \<and> 4096 dvd hi r \<and> rsize r = len \<and>
      (\<forall>v \<in> set (map snd (rev m)) \<union> {}. hi (vregion v) \<le> lo r \<or> hi r \<le> lo (vregion v))"
    using assms by (intro find_gap_free [of len MMAP_BASE] rev_areas_sorted)
      (simp_all add: find_free_region_def MMAP_BASE_def)
  then show "valid r" "lo r < hi r" "4096 dvd lo r" "4096 dvd hi r" "rsize r = len" "region_free m r"
    by (auto simp: region_free_def areas_def)
qed

section \<open>Inserting and removing areas\<close>

lemma vmas_okI:
  assumes "bt_ok m" and "\<forall>x \<in> set m. fst x = start_address (vregion (snd x))"
    and "\<forall>v \<in> areas m. vma_ok v" and "\<forall>v \<in> areas m. \<forall>w \<in> areas m. v \<noteq> w \<longrightarrow> apart v w"
  shows "vmas_ok m"
  unfolding vmas_ok_def
proof (intro conjI ballI impI)
  fix x y assume xy: "x \<in> set m" "y \<in> set m" "x \<noteq> y"
  then have "snd x \<noteq> snd y" using assms(2) by (metis prod_eq_iff)
  then have "apart (snd x) (snd y)" using xy assms(4) by (auto simp: areas_def)
  then show "hi (vregion (snd x)) \<le> lo (vregion (snd y)) \<or> hi (vregion (snd y)) \<le> lo (vregion (snd x))"
    by (simp add: apart_def)
qed (use assms in \<open>auto simp: areas_def\<close>)

lemma insert_area:
  assumes ok: "vmas_ok m" and v: "vma_ok v" and free: "region_free m (vregion v)"
  shows "vmas_ok (bt_insert (start_address (vregion v)) v m)"
    and "areas (bt_insert (start_address (vregion v)) v m) = insert v (areas m)"
proof -
  let ?k = "start_address (vregion v)"
  have ap: "apart v w" if "w \<in> areas m" for w using that free by (auto simp: region_free_def apart_def)
  have "start_address (vregion w) \<noteq> ?k" if "w \<in> areas m" for w
    using ap [OF that] vma_okD(2) [OF vmas_okD(3) [OF ok that]] vma_okD(2) [OF v] by (auto simp: start_less apart_def)
  then have nk: "{x \<in> set m. fst x \<noteq> ?k} = set m" using vmas_okD(2) [OF ok] by fastforce
  have set: "set (bt_insert ?k v m) = insert (?k, v) (set m)"
    using bt.entries_ins [OF vmas_okD(1) [OF ok], of ?k v] nk by simp
  then show ar: "areas (bt_insert ?k v m) = insert v (areas m)" by (simp add: areas_def)
  show "vmas_ok (bt_insert ?k v m)"
  proof (rule vmas_okI)
    show "bt_ok (bt_insert ?k v m)" using bt.entries_ins [OF vmas_okD(1) [OF ok], of ?k v] by simp
    show "\<forall>x \<in> set (bt_insert ?k v m). fst x = start_address (vregion (snd x))"
      unfolding set using vmas_okD(2) [OF ok] by force
    show "\<forall>w \<in> areas (bt_insert ?k v m). vma_ok w" unfolding ar using v vmas_okD(3) [OF ok] by blast
    show "\<forall>u \<in> areas (bt_insert ?k v m). \<forall>w \<in> areas (bt_insert ?k v m). u \<noteq> w \<longrightarrow> apart u w"
      unfolding ar using ap apart_sym vmas_okD(4) [OF ok] by blast
  qed
qed

lemma remove_area:
  assumes ok: "vmas_ok m" and v: "v \<in> areas m"
  shows "vmas_ok (bt_remove (start_address (vregion v)) m)"
    and "areas (bt_remove (start_address (vregion v)) m) = areas m - {v}"
proof -
  let ?k = "start_address (vregion v)"
  have set: "set (bt_remove ?k m) = {x \<in> set m. fst x \<noteq> ?k}" and bt: "bt_ok (bt_remove ?k m)"
    using bt.entries_del [OF vmas_okD(1) [OF ok], of ?k] by simp_all
  have iff: "start_address (vregion w) = ?k \<longleftrightarrow> w = v" if "w \<in> areas m" for w
    using start_unique [OF ok that v] by (auto simp: start_less)
  show "areas (bt_remove ?k m) = areas m - {v}"
  proof (intro set_eqI)
    fix w
    have "w \<in> areas (bt_remove ?k m) \<longleftrightarrow> (\<exists>k. (k, w) \<in> set m \<and> k \<noteq> ?k)" by (force simp: areas_def set)
    then show "w \<in> areas (bt_remove ?k m) \<longleftrightarrow> w \<in> areas m - {v}" using vmas_okD(2) [OF ok] iff by auto
  qed
  show "vmas_ok (bt_remove ?k m)" using ok bt unfolding vmas_ok_def set by auto
qed

section \<open>Views\<close>

definition look :: "(vmarea \<Rightarrow> nat \<Rightarrow> 'b) \<Rightarrow> vmas \<Rightarrow> nat \<Rightarrow> 'b option" where
  "look f m x = map_option (\<lambda>v. f v x) (vma_at m x)"

lemma perms_at_look: "perms_at = look (\<lambda>v x. vperms v)"
  by (intro ext) (simp add: perms_at_def look_def)

lemma byte_at_look: "byte_at = look vma_byte"
  by (intro ext) (simp add: byte_at_def look_def)

lemma look_area:
  assumes "vmas_ok m" and "v \<in> areas m" "lo (vregion v) \<le> x" "x < hi (vregion v)"
  shows "look f m x = Some (f v x)"
  using vma_at_iff [OF assms(1), of x v] assms(2-) by (simp add: look_def)

lemma look_None:
  assumes "\<And>v. v \<in> areas m \<Longrightarrow> \<not> (lo (vregion v) \<le> x \<and> x < hi (vregion v))"
  shows "look f m x = None"
  using assms vma_at_None [of m x] by (simp add: look_def)

text \<open>Replacing an area by pieces of it, or adding areas, changes the view only there.\<close>

lemma look_same:
  assumes ok: "vmas_ok m" "vmas_ok m'"
    and same: "\<And>v. lo (vregion v) \<le> x \<Longrightarrow> x < hi (vregion v) \<Longrightarrow> v \<in> areas m \<longleftrightarrow> v \<in> areas m'"
  shows "look f m' x = look f m x"
proof (cases "vma_at m x")
  case None
  then have "vma_at m' x = None" using same by (auto simp: vma_at_None)
  with None show ?thesis by (simp add: look_def)
next
  case (Some v)
  then have "vma_at m' x = Some v" using same vma_at_iff [OF ok(1)] vma_at_iff [OF ok(2)] by blast
  with Some show ?thesis by (simp add: look_def)
qed

lemma look_pieces:
  assumes ok: "vmas_ok m" "vmas_ok m'" and v: "v \<in> areas m" and ar: "areas m' = (areas m - {v}) \<union> P"
    and sub: "\<And>p. p \<in> P \<Longrightarrow> lo (vregion v) \<le> lo (vregion p) \<and> hi (vregion p) \<le> hi (vregion v)"
    and f: "\<And>p. p \<in> P \<Longrightarrow> lo (vregion p) \<le> x \<Longrightarrow> x < hi (vregion p) \<Longrightarrow> f p x = f v x"
  shows "look f m' x =
    (if lo (vregion v) \<le> x \<and> x < hi (vregion v) \<and> \<not> (\<exists>p \<in> P. lo (vregion p) \<le> x \<and> x < hi (vregion p))
     then None else look f m x)"
proof (cases "lo (vregion v) \<le> x \<and> x < hi (vregion v)")
  case out: False
  have "look f m' x = look f m x"
  proof (rule look_same [OF ok])
    fix w :: vmarea assume w: "lo (vregion w) \<le> x" "x < hi (vregion w)"
    then have "w \<notin> P" "w \<noteq> v" using out sub by fastforce+
    then show "w \<in> areas m \<longleftrightarrow> w \<in> areas m'" by (simp add: ar)
  qed
  with out show ?thesis by auto
next
  case inside: True
  then have old: "look f m x = Some (f v x)" using look_area [OF ok(1) v] by blast
  show ?thesis
  proof (cases "\<exists>p \<in> P. lo (vregion p) \<le> x \<and> x < hi (vregion p)")
    case True
    then obtain p where p: "p \<in> P" "lo (vregion p) \<le> x" "x < hi (vregion p)" by blast
    then have "look f m' x = Some (f p x)" using look_area [OF ok(2), of p x] ar by blast
    with old f [OF p] True show ?thesis by auto
  next
    case False
    have "look f m' x = None"
    proof (rule look_None)
      fix w assume w: "w \<in> areas m'"
      show "\<not> (lo (vregion w) \<le> x \<and> x < hi (vregion w))"
        using w False inside areas_unique [OF ok(1) v, of w x] unfolding ar by blast
    qed
    with False inside show ?thesis by simp
  qed
qed

lemma look_insert:
  assumes ok: "vmas_ok m" "vmas_ok m'" and ar: "areas m' = insert v (areas m)"
  shows "look f m' x = (if lo (vregion v) \<le> x \<and> x < hi (vregion v) then Some (f v x) else look f m x)"
proof (cases "lo (vregion v) \<le> x \<and> x < hi (vregion v)")
  case True
  then show ?thesis using look_area [OF ok(2), of v x f] ar by simp
next
  case False
  have "look f m' x = look f m x"
  proof (rule look_same [OF ok])
    fix w :: vmarea assume "lo (vregion w) \<le> x" "x < hi (vregion w)"
    then show "w \<in> areas m \<longleftrightarrow> w \<in> areas m'" using False unfolding ar by blast
  qed
  with False show ?thesis by auto
qed

section \<open>Unmapping\<close>

text \<open>A page-aligned region, as the callers pass it.\<close>

definition page_region :: "region \<Rightarrow> bool" where
  "page_region r \<longleftrightarrow> valid r \<and> lo r < hi r \<and> 4096 dvd lo r \<and> 4096 dvd hi r"

lemma page_regionD:
  assumes "page_region r"
  shows "valid r" "lo r < hi r" "4096 dvd lo r" "4096 dvd hi r"
  using assms by (simp_all add: page_region_def)

lemma vma_ok_iff: "vma_ok v \<longleftrightarrow> page_region (vregion v)"
  by (simp add: vma_ok_def page_region_def)

definition left_region :: "region \<Rightarrow> region \<Rightarrow> region" where
  "left_region r q = rnew (start_address q) (start_address r - start_address q)"

definition right_region :: "region \<Rightarrow> region \<Rightarrow> region" where
  "right_region r q = rnew (end_address r) (end_address q - end_address r)"

lemma left_region_sel:
  assumes "lo q \<le> lo r"
  shows "lo (left_region r q) = lo q" and "hi (left_region r q) = lo r"
proof -
  have "unat (start_address r - start_address q) = lo r - lo q"
    using assms by (subst unat_sub_usize) (simp_all add: unat_start_address)
  then show "lo (left_region r q) = lo q" and "hi (left_region r q) = lo r"
    using assms by (simp_all add: left_region_def lo_def [of "rnew _ _"] hi_def [of "rnew _ _"] unat_start_address)
qed

lemma right_region_sel:
  assumes "valid r" "valid q" and "hi r \<le> hi q"
  shows "lo (right_region r q) = hi r" and "hi (right_region r q) = hi q"
proof -
  have "unat (end_address q - end_address r) = hi q - hi r"
    using assms by (subst unat_sub_usize) (simp_all add: unat_end_address)
  then show "lo (right_region r q) = hi r" and "hi (right_region r q) = hi q"
    using assms by (simp_all add: right_region_def lo_def [of "rnew _ _"] hi_def [of "rnew _ _"] unat_end_address)
qed

definition left_vma :: "region \<Rightarrow> vmarea \<Rightarrow> vmarea" where
  "left_vma r v = clone_with_new_region v (left_region r (vregion v))"

definition right_vma :: "region \<Rightarrow> vmarea \<Rightarrow> vmarea" where
  "right_vma r v =
     (let w = clone_with_new_region v (right_region r (vregion v))
      in if start_address (vregion v) < start_address r then w
         else case vkind w of
                FileKind f \<Rightarrow> w\<lparr>vkind := FileKind (f\<lparr>fm_offset := fm_offset f + (end_address r - start_address (vregion v))\<rparr>)\<rparr>
              | _ \<Rightarrow> w)"

lemma left_vma_sel [simp]:
  "vregion (left_vma r v) = left_region r (vregion v)" "vperms (left_vma r v) = vperms v"
  by (simp_all add: left_vma_def)

lemma right_vma_sel [simp]:
  "vregion (right_vma r v) = right_region r (vregion v)" "vperms (right_vma r v) = vperms v"
  by (simp_all add: right_vma_def Let_def split: VMAreaKind.split)

lemma remainders_eq:
  assumes "valid r" "valid (vregion v)"
  shows "remainders r v m =
    (let m = (if lo (vregion v) < lo r then bt_insert (start_address (vregion (left_vma r v))) (left_vma r v) m else m)
     in if hi r < hi (vregion v) then bt_insert (start_address (vregion (right_vma r v))) (right_vma r v) m else m)"
proof -
  have s: "start_address (vregion v) < start_address r \<longleftrightarrow> lo (vregion v) < lo r" by (rule start_less(1))
  have e: "end_address r < end_address (vregion v) \<longleftrightarrow> hi r < hi (vregion v)"
    using assms by (simp add: usize_arith region_defs)
  show ?thesis
    unfolding remainders_def Let_def s e right_vma_def left_vma_def left_region_def right_region_def
    by (cases "lo (vregion v) < lo r"; cases "hi r < hi (vregion v)") (auto split: VMAreaKind.split)
qed

lemma clone_byte:
  assumes "\<not> is_file_backed v" and "lo (vregion v) \<le> lo q" and "lo q \<le> x"
  shows "vma_byte (clone_with_new_region v q) x = vma_byte v x"
  using assms of_nat_lo_diff [OF assms(2,3)]
  by (auto simp: vma_byte_def clone_with_new_region_def is_file_backed_def Let_def add.assoc split: VMAreaKind.split)

lemma left_byte:
  assumes "lo (vregion v) < lo r" "lo (vregion v) \<le> x"
  shows "vma_byte (left_vma r v) x = vma_byte v x"
proof (cases "is_file_backed v")
  case True
  then obtain f where "vkind v = FileKind f" by (auto simp: is_file_backed_def split: VMAreaKind.splits)
  then show ?thesis using left_region_sel(1) [of "vregion v" r] assms
    by (simp add: vma_byte_def left_vma_def clone_with_new_region_def Let_def)
next
  case False
  then show ?thesis using assms left_region_sel(1) [of "vregion v" r] by (simp add: left_vma_def clone_byte)
qed

lemma right_byte:
  assumes "\<not> is_file_backed v" "valid r" "valid (vregion v)" "lo (vregion v) \<le> hi r" "hi r < hi (vregion v)" "hi r \<le> x"
  shows "vma_byte (right_vma r v) x = vma_byte v x"
proof -
  have "right_vma r v = clone_with_new_region v (right_region r (vregion v))"
    using assms(1) by (auto simp: right_vma_def Let_def clone_with_new_region_def is_file_backed_def split: VMAreaKind.split)
  then show ?thesis using assms right_region_sel(1) [of r "vregion v"] by (simp add: clone_byte)
qed

definition meets :: "region \<Rightarrow> vmarea \<Rightarrow> bool" where
  "meets r v \<longleftrightarrow> lo (vregion v) < hi r \<and> lo r < hi (vregion v)"

lemma region_free_meets: "region_free m r \<longleftrightarrow> (\<forall>v \<in> areas m. \<not> meets r v)"
  by (auto simp: region_free_def meets_def not_less)

text \<open>What is left of an area outside the region.\<close>

definition left_over :: "region \<Rightarrow> vmarea \<Rightarrow> vmarea set" where
  "left_over r v =
     (if lo (vregion v) < lo r then {left_vma r v} else {}) \<union> (if hi r < hi (vregion v) then {right_vma r v} else {})"

lemma left_over_cover:
  assumes r: "page_region r" and v: "vma_ok v" and "meets r v"
  shows "p \<in> left_over r v \<Longrightarrow> vma_ok p \<and> lo (vregion v) \<le> lo (vregion p) \<and> hi (vregion p) \<le> hi (vregion v) \<and> \<not> meets r p"
    and "(\<exists>p \<in> left_over r v. lo (vregion p) \<le> x \<and> x < hi (vregion p)) \<longleftrightarrow>
      lo (vregion v) \<le> x \<and> x < hi (vregion v) \<and> \<not> (lo r \<le> x \<and> x < hi r)"
proof -
  note rD = page_regionD [OF r] and vD = vma_okD [OF v]
  have L: "lo (vregion v) < lo r \<Longrightarrow> lo (left_region r (vregion v)) = lo (vregion v) \<and> hi (left_region r (vregion v)) = lo r"
    using left_region_sel [of "vregion v" r] by simp
  have R: "hi r < hi (vregion v) \<Longrightarrow> lo (right_region r (vregion v)) = hi r \<and> hi (right_region r (vregion v)) = hi (vregion v)"
    using right_region_sel [OF rD(1) vD(1)] by simp
  show "p \<in> left_over r v \<Longrightarrow> vma_ok p \<and> lo (vregion v) \<le> lo (vregion p) \<and> hi (vregion p) \<le> hi (vregion v) \<and> \<not> meets r p"
    using L R rD vD assms(3) by (auto simp: left_over_def meets_def vma_ok_def valid_def split: if_splits)
  show "(\<exists>p \<in> left_over r v. lo (vregion p) \<le> x \<and> x < hi (vregion p)) \<longleftrightarrow>
      lo (vregion v) \<le> x \<and> x < hi (vregion v) \<and> \<not> (lo r \<le> x \<and> x < hi r)"
    using L R rD vD assms(3) by (auto simp: left_over_def meets_def)
qed

lemma cut_area:
  assumes ok: "vmas_ok m" and r: "page_region r" and v: "v \<in> areas m" "meets r v"
  shows "vmas_ok (remainders r v (bt_remove (start_address (vregion v)) m))"
    and "areas (remainders r v (bt_remove (start_address (vregion v)) m)) = (areas m - {v}) \<union> left_over r v"
proof -
  let ?m = "bt_remove (start_address (vregion v)) m"
  let ?l = "left_vma r v" and ?q = "right_vma r v"
  let ?m1 = "if lo (vregion v) < lo r then bt_insert (start_address (vregion ?l)) ?l ?m else ?m"
  have vok: "vma_ok v" by (rule vmas_okD(3) [OF ok v(1)])
  note piece = left_over_cover(1) [OF r vok v(2)]
  note m = remove_area [OF ok v(1)]
  have free: "region_free ?m (vregion p)" if "p \<in> left_over r v" for p
    unfolding region_free_def
  proof
    fix w assume "w \<in> areas ?m"
    then have "w \<in> areas m" "w \<noteq> v" using m(2) by auto
    then have "apart v w" using vmas_okD(4) [OF ok v(1)] by blast
    then show "hi (vregion w) \<le> lo (vregion p) \<or> hi (vregion p) \<le> lo (vregion w)"
      using piece [OF that] by (auto simp: apart_def)
  qed
  have m1: "vmas_ok ?m1 \<and> areas ?m1 = (areas m - {v}) \<union> (if lo (vregion v) < lo r then {?l} else {})"
  proof (cases "lo (vregion v) < lo r")
    case True
    then have l: "?l \<in> left_over r v" by (simp add: left_over_def)
    then have "vma_ok ?l" using piece by blast
    from insert_area [OF m(1) this free [OF l]] show ?thesis using True m(2) by simp
  qed (use m in simp)
  have "vmas_ok (remainders r v ?m) \<and> areas (remainders r v ?m) = (areas m - {v}) \<union> left_over r v"
  proof (cases "hi r < hi (vregion v)")
    case True
    then have q: "?q \<in> left_over r v" by (simp add: left_over_def)
    then have qok: "vma_ok ?q" using piece by blast
    have "region_free ?m1 (vregion ?q)"
      unfolding region_free_def
    proof
      fix w assume "w \<in> areas ?m1"
      then consider "w \<in> areas ?m" | "w = ?l" "lo (vregion v) < lo r" using m1 m(2) by (auto split: if_splits)
      then show "hi (vregion w) \<le> lo (vregion ?q) \<or> hi (vregion ?q) \<le> lo (vregion w)"
      proof cases
        case 1
        then show ?thesis using free [OF q] by (simp add: region_free_def)
      next
        case 2
        then have "hi (vregion w) = lo r" using left_region_sel(2) [of "vregion v" r] by simp
        moreover have "lo (vregion ?q) = hi r"
          using right_region_sel(1) [OF page_regionD(1) [OF r] vma_okD(1) [OF vok]] True by simp
        ultimately show ?thesis using page_regionD(2) [OF r] by simp
      qed
    qed
    from insert_area [OF m1 [THEN conjunct1] qok this] show ?thesis
      using True m1 unfolding remainders_eq [OF page_regionD(1) [OF r] vma_okD(1) [OF vok]] Let_def
      by (auto simp: left_over_def)
  next
    case False
    then show ?thesis
      using m1 unfolding remainders_eq [OF page_regionD(1) [OF r] vma_okD(1) [OF vok]] Let_def
      by (auto simp: left_over_def)
  qed
  then show "vmas_ok (remainders r v ?m)" "areas (remainders r v ?m) = (areas m - {v}) \<union> left_over r v" by simp_all
qed

text \<open>The attribute \<open>f\<close> of the byte at \<open>x\<close> is the same in the pieces of \<open>v\<close>.\<close>

definition keeps :: "(vmarea \<Rightarrow> nat \<Rightarrow> 'b) \<Rightarrow> region \<Rightarrow> nat \<Rightarrow> vmarea \<Rightarrow> bool" where
  "keeps f r x v \<longleftrightarrow> (\<forall>p \<in> left_over r v. lo (vregion p) \<le> x \<and> x < hi (vregion p) \<longrightarrow> f p x = f v x)"

lemma keeps_perms: "keeps (\<lambda>v x. vperms v) r x v"
  by (simp add: keeps_def left_over_def)

lemma keeps_byte:
  assumes "page_region r" "vma_ok v" "meets r v" and "is_file_backed v \<Longrightarrow> hi r \<le> x \<Longrightarrow> hi (vregion v) \<le> x"
  shows "keeps vma_byte r x v"
proof -
  note rD = page_regionD [OF assms(1)] and vD = vma_okD [OF assms(2)]
  have "vma_byte (left_vma r v) x = vma_byte v x"
    if "lo (vregion v) < lo r" "lo (vregion (left_vma r v)) \<le> x"
    using that left_region_sel(1) [of "vregion v" r] by (intro left_byte) simp_all
  moreover have "vma_byte (right_vma r v) x = vma_byte v x"
    if "hi r < hi (vregion v)" "lo (vregion (right_vma r v)) \<le> x" "x < hi (vregion (right_vma r v))"
    using that right_region_sel [OF rD(1) vD(1)] assms(3,4) rD(1,2) vD
    by (intro right_byte) (auto simp: meets_def)
  ultimately show ?thesis by (auto simp: keeps_def left_over_def split: if_splits)
qed

lemma cut_look:
  assumes ok: "vmas_ok m" and r: "page_region r" and v: "v \<in> areas m" "meets r v" and k: "keeps f r x v"
  shows "look f (remainders r v (bt_remove (start_address (vregion v)) m)) x =
    (if lo (vregion v) \<le> x \<and> x < hi (vregion v) \<and> lo r \<le> x \<and> x < hi r then None else look f m x)"
proof -
  note cut = cut_area [OF ok r v] and cover = left_over_cover [OF r vmas_okD(3) [OF ok v(1)] v(2)]
  have "look f (remainders r v (bt_remove (start_address (vregion v)) m)) x =
    (if lo (vregion v) \<le> x \<and> x < hi (vregion v) \<and> \<not> (\<exists>p \<in> left_over r v. lo (vregion p) \<le> x \<and> x < hi (vregion p))
     then None else look f m x)"
    using cover(1) k unfolding keeps_def by (intro look_pieces [OF ok cut(1) v(1) cut(2)]) blast+
  then show ?thesis unfolding cover(2) by auto
qed

lemma sorted_takeWhile:
  assumes "sorted_wrt R xs" and "\<And>x y. R x y \<Longrightarrow> P y \<Longrightarrow> P x"
  shows "takeWhile P xs = filter P xs"
  using assms(1)
proof (induction xs)
  case (Cons x xs)
  have "\<not> P x \<Longrightarrow> filter P xs = []" using Cons.prems assms(2) by (auto simp: filter_empty_conv)
  with Cons show ?case by simp
qed simp

lemma affected_vmas:
  assumes ok: "vmas_ok m" and r: "page_region r"
  shows "set (affected_vmas m r) = {v \<in> areas m. meets r v}" and "distinct (affected_vmas m r)"
proof -
  let ?s = "start_address r"
  let ?A = "case bt_before ?s m of Some (_, v) \<Rightarrow> if end_address (vregion v) > ?s then [v] else [] | None \<Rightarrow> []"
  let ?B = "map snd (takeWhile (\<lambda>(_, v). start_address (vregion v) < end_address r) (bt_from ?s m))"
  note rD = page_regionD [OF r] and bt = vmas_okD(1) [OF ok]
  have s: "unat ?s = lo r" by (rule unat_start_address)
  have keys: "\<And>x. x \<in> set m \<Longrightarrow> fst x = start_address (vregion (snd x)) \<and> snd x \<in> areas m"
    using ok by (auto simp: vmas_ok_def areas_def)
  have A: "set ?A = {v \<in> areas m. lo (vregion v) < lo r \<and> lo r < hi (vregion v)}" and dA: "distinct ?A"
  proof -
    have "set ?A = {v \<in> areas m. lo (vregion v) < lo r \<and> lo r < hi (vregion v)} \<and> distinct ?A"
    proof (cases "bt_before ?s m")
      case None
      then show ?thesis using before_area(1) [OF ok None] by (auto simp: s not_less)
    next
      case (Some kp)
      then obtain k p where kp: "bt_before ?s m = Some (k, p)" by (cases kp) simp
      note p = before_area(2) [OF ok kp, unfolded s] and last = before_area(3) [OF ok kp, unfolded s]
      have e: "end_address (vregion p) > ?s \<longleftrightarrow> lo r < hi (vregion p)"
        using p vma_okD(1) [OF vmas_okD(3) [OF ok]] by (simp add: usize_arith region_defs)
      have "v = p" if "v \<in> areas m" "lo (vregion v) < lo r" "lo r < hi (vregion v)" for v
        using last_covers [OF ok _ that(1), of p "lo r"] last [OF that(1,2)] p that by simp
      then show ?thesis using kp e p by auto
    qed
    then show "set ?A = {v \<in> areas m. lo (vregion v) < lo r \<and> lo r < hi (vregion v)}" "distinct ?A" by simp_all
  qed
  have sorted: "sorted_wrt (\<lambda>x y. fst x < fst y) (bt_from ?s m)"
    using bt_ok_filter [OF bt] by (simp add: bt_ok_def bt_from_def)
  have key': "\<And>x. x \<in> set (bt_from ?s m) \<Longrightarrow> fst x = start_address (vregion (snd x))" using keys by (simp add: bt_from_def)
  have tw: "takeWhile (\<lambda>(_, v). start_address (vregion v) < end_address r) (bt_from ?s m) =
      filter (\<lambda>x. fst x < end_address r) (bt_from ?s m)"
  proof -
    have "takeWhile (\<lambda>(_, v). start_address (vregion v) < end_address r) (bt_from ?s m) =
        takeWhile (\<lambda>x. fst x < end_address r) (bt_from ?s m)"
      using key' by (intro takeWhile_cong) (auto simp: case_prod_beta)
    also have "\<dots> = filter (\<lambda>x. fst x < end_address r) (bt_from ?s m)"
      by (rule sorted_takeWhile [OF sorted]) auto
    finally show ?thesis .
  qed
  have B: "set ?B = {v \<in> areas m. lo r \<le> lo (vregion v) \<and> lo (vregion v) < hi r}"
  proof (intro set_eqI)
    fix v
    have "v \<in> set ?B \<longleftrightarrow> (\<exists>k. (k, v) \<in> set m \<and> ?s \<le> k \<and> k < end_address r)"
      unfolding tw by (force simp: bt_from_def)
    also have "\<dots> \<longleftrightarrow> v \<in> areas m \<and> lo r \<le> lo (vregion v) \<and> lo (vregion v) < hi r"
      using vmas_okD(2) [OF ok] rD(1) by (auto simp: usize_arith region_defs)
    finally show "v \<in> set ?B \<longleftrightarrow> v \<in> {v \<in> areas m. lo r \<le> lo (vregion v) \<and> lo (vregion v) < hi r}" by simp
  qed
  have inj: "inj_on snd (set m)"
    using keys by (intro inj_onI) (metis prod_eq_iff)
  have "distinct m" using bt_ok_distinct [OF bt] by (simp add: distinct_map)
  moreover have "inj_on snd (set (filter (\<lambda>x. fst x < end_address r) (bt_from ?s m)))"
    by (rule inj_on_subset [OF inj]) (auto simp: bt_from_def)
  ultimately have dB: "distinct ?B" unfolding tw by (simp add: distinct_map bt_from_def)
  have whole: "affected_vmas m r = ?A @ ?B" by (simp add: affected_vmas_def)
  have ne: "v \<in> areas m \<Longrightarrow> lo (vregion v) < hi (vregion v)" for v using vma_okD(2) [OF vmas_okD(3) [OF ok]] .
  show "set (affected_vmas m r) = {v \<in> areas m. meets r v}"
    unfolding whole set_append A B using ne rD(2) by (auto simp: meets_def) (meson le_less_trans less_le_trans not_le)+
  have "set ?A \<inter> set ?B = {}" unfolding A B by auto
  then show "distinct (affected_vmas m r)" unfolding whole using dA dB by simp
qed

lemma unmap_vmas_spec:
  assumes r: "page_region r" and "vmas_ok (vmas mm)" and "distinct vs"
    and "\<forall>v \<in> set vs. v \<in> areas (vmas mm) \<and> meets r v"
  shows "\<exists>res mm'. unmap_vmas ops r new_vma vs pages mm = Some (res, mm') \<and> vmas_ok (vmas mm') \<and>
    (\<forall>ps. res = Inr ps \<longrightarrow> (\<forall>(f :: vmarea \<Rightarrow> nat \<Rightarrow> 'b) x. (\<forall>v \<in> set vs. keeps f r x v) \<longrightarrow>
      look f (vmas mm') x =
        (if (\<exists>v \<in> set vs. lo (vregion v) \<le> x \<and> x < hi (vregion v)) \<and> lo r \<le> x \<and> x < hi r then None
         else look f (vmas mm) x)))"
  using assms(2-)
proof (induction vs arbitrary: pages mm)
  case Nil
  then show ?case by simp
next
  case (Cons v vs)
  let ?k = "start_address (vregion v)"
  let ?m = "bt_remove ?k (vmas mm)"
  have v: "v \<in> areas (vmas mm)" "meets r v" using Cons by simp_all
  have get: "bt_get ?k (vmas mm) = Some v" using get_area [OF Cons.prems(1)] v by blast
  obtain res as where fu: "fixup_pg_tables ops (address_space mm) r v new_vma = (res, as)" by fastforce
  show ?case
  proof (cases res)
    case (Inl e)
    then show ?thesis using get fu remove_area(1) [OF Cons.prems(1) v(1)] by (simp add: Let_def)
  next
    case (Inr ps)
    let ?mm = "\<lparr>vmas = remainders r v ?m, address_space = as\<rparr>"
    note cut = cut_area [OF Cons.prems(1) r v] and cl = cut_look [OF Cons.prems(1) r v]
    have step: "unmap_vmas ops r new_vma (v # vs) pages mm = unmap_vmas ops r new_vma vs (pages @ ps) ?mm"
      using get fu Inr by (simp add: Let_def)
    have "\<forall>w \<in> set vs. w \<in> areas (vmas ?mm) \<and> meets r w" using Cons.prems(2,3) cut(2) by auto
    then obtain res' mm' where rec: "unmap_vmas ops r new_vma vs (pages @ ps) ?mm = Some (res', mm')" "vmas_ok (vmas mm')"
      and look: "\<And>qs (f :: vmarea \<Rightarrow> nat \<Rightarrow> 'b) x. res' = Inr qs \<Longrightarrow> \<forall>v \<in> set vs. keeps f r x v \<Longrightarrow> look f (vmas mm') x =
        (if (\<exists>v \<in> set vs. lo (vregion v) \<le> x \<and> x < hi (vregion v)) \<and> lo r \<le> x \<and> x < hi r then None
         else look f (vmas ?mm) x)"
      using Cons.IH [of ?mm "pages @ ps"] cut(1) Cons.prems(2) by fastforce
    show ?thesis
    proof (intro exI [of _ res'] exI [of _ mm'] conjI allI impI)
      fix qs and f :: "vmarea \<Rightarrow> nat \<Rightarrow> 'b" and x
      assume "res' = Inr qs" and k: "\<forall>w \<in> set (v # vs). keeps f r x w"
      then show "look f (vmas mm') x =
        (if (\<exists>w \<in> set (v # vs). lo (vregion w) \<le> x \<and> x < hi (vregion w)) \<and> lo r \<le> x \<and> x < hi r then None
         else look f (vmas mm) x)"
        using look [of qs f x] cl [of f x] by auto
    qed (use step rec in simp_all)
  qed
qed

lemma unmap_region_spec:
  assumes ok: "vmas_ok (vmas mm)" and r: "page_region r"
  obtains res mm' where "unmap_region ops r new_vma mm = Some (res, mm')" "vmas_ok (vmas mm')"
    "\<And>ps x. res = Inr ps \<Longrightarrow> perms_at (vmas mm') x = (if lo r \<le> x \<and> x < hi r then None else perms_at (vmas mm) x)"
    "\<And>ps x. res = Inr ps \<Longrightarrow>
       (\<And>v. v \<in> areas (vmas mm) \<Longrightarrow> meets r v \<Longrightarrow> is_file_backed v \<Longrightarrow> hi r \<le> x \<Longrightarrow> hi (vregion v) \<le> x) \<Longrightarrow>
       byte_at (vmas mm') x = (if lo r \<le> x \<and> x < hi r then None else byte_at (vmas mm) x)"
proof -
  let ?vs = "affected_vmas (vmas mm) r"
  note aff = affected_vmas [OF ok r]
  have pre: "\<forall>v \<in> set ?vs. v \<in> areas (vmas mm) \<and> meets r v" using aff(1) by blast
  obtain res mm' where run: "unmap_region ops r new_vma mm = Some (res, mm')" "vmas_ok (vmas mm')"
    and perms: "\<And>ps (f :: vmarea \<Rightarrow> nat \<Rightarrow> VMAPermissions) x. res = Inr ps \<Longrightarrow> \<forall>v \<in> set ?vs. keeps f r x v \<Longrightarrow> look f (vmas mm') x =
        (if (\<exists>v \<in> set ?vs. lo (vregion v) \<le> x \<and> x < hi (vregion v)) \<and> lo r \<le> x \<and> x < hi r then None else look f (vmas mm) x)"
    using unmap_vmas_spec [OF r ok aff(2) pre, of ops new_vma "[]"] unfolding unmap_region_def by fastforce
  have byte: "look f (vmas mm') x =
        (if (\<exists>v \<in> set ?vs. lo (vregion v) \<le> x \<and> x < hi (vregion v)) \<and> lo r \<le> x \<and> x < hi r then None else look f (vmas mm) x)"
    if "res = Inr ps" "\<forall>v \<in> set ?vs. keeps f r x v" for ps x and f :: "vmarea \<Rightarrow> nat \<Rightarrow> byte_source"
    using unmap_vmas_spec [OF r ok aff(2) pre, of ops new_vma "[]"] run that unfolding unmap_region_def by fastforce
  have none: "look f (vmas mm) x = None"
    if "lo r \<le> x" "x < hi r" "\<not> (\<exists>v \<in> set ?vs. lo (vregion v) \<le> x \<and> x < hi (vregion v))"
    for f :: "vmarea \<Rightarrow> nat \<Rightarrow> 'b" and x
    using that unfolding aff(1) by (intro look_None) (auto simp: meets_def)
  show thesis
  proof (rule that [OF run])
    fix ps x assume res: "res = Inr ps"
    show "perms_at (vmas mm') x = (if lo r \<le> x \<and> x < hi r then None else perms_at (vmas mm) x)"
      using perms [OF res, of "\<lambda>v x. vperms v" x] none [of x "\<lambda>v x. vperms v"] by (auto simp: keeps_perms perms_at_look)
    assume "\<And>v. v \<in> areas (vmas mm) \<Longrightarrow> meets r v \<Longrightarrow> is_file_backed v \<Longrightarrow> hi r \<le> x \<Longrightarrow> hi (vregion v) \<le> x"
    then have "\<forall>v \<in> set ?vs. keeps vma_byte r x v" unfolding aff(1) using keeps_byte [OF r] vmas_okD(3) [OF ok] by blast
    then show "byte_at (vmas mm') x = (if lo r \<le> x \<and> x < hi r then None else byte_at (vmas mm) x)"
      using byte [OF res, where f = vma_byte and x = x] none [of x vma_byte] by (auto simp: byte_at_look)
  qed
qed

lemma perms_at_None: "perms_at m x = None \<longleftrightarrow> vma_at m x = None"
  by (simp add: perms_at_def)

lemma region_free_perms:
  assumes ok: "vmas_ok m" and "lo r < hi r"
  shows "region_free m r \<longleftrightarrow> (\<forall>x. lo r \<le> x \<and> x < hi r \<longrightarrow> perms_at m x = None)"
proof
  assume "region_free m r"
  then show "\<forall>x. lo r \<le> x \<and> x < hi r \<longrightarrow> perms_at m x = None"
    by (auto simp: perms_at_None vma_at_None region_free_meets meets_def)
next
  assume none: "\<forall>x. lo r \<le> x \<and> x < hi r \<longrightarrow> perms_at m x = None"
  have "\<not> meets r v" if v: "v \<in> areas m" for v
  proof
    assume "meets r v"
    then have "lo r \<le> max (lo r) (lo (vregion v)) \<and> max (lo r) (lo (vregion v)) < hi r"
      "lo (vregion v) \<le> max (lo r) (lo (vregion v)) \<and> max (lo r) (lo (vregion v)) < hi (vregion v)"
      using assms(2) vma_okD(2) [OF vmas_okD(3) [OF ok v]] by (auto simp: meets_def)
    then show False using none v unfolding perms_at_None vma_at_None by blast
  qed
  then show "region_free m r" by (simp add: region_free_meets)
qed

lemma unmap_region_free:
  assumes ok: "vmas_ok (vmas mm)" and r: "page_region r" and "region_free (vmas mm) r"
  shows "unmap_region ops r new_vma mm = Some (Inr [], mm)"
proof -
  have "affected_vmas (vmas mm) r = []" using affected_vmas(1) [OF ok r] assms(3) by (simp add: region_free_meets flip: set_empty)
  then show ?thesis by (simp add: unmap_region_def)
qed

section \<open>Merging neighbours\<close>

definition joined :: "vmarea \<Rightarrow> vmarea \<Rightarrow> vmarea" where
  "joined a b = a\<lparr>vregion := (vregion a)\<lparr>rsize := rsize (vregion a) + rsize (vregion b)\<rparr>\<rparr>"

lemma can_merge_withD:
  assumes "can_merge_with a b"
  shows "vperms b = vperms a" and "is_file_backed a = is_file_backed b"
  using assms by (auto simp: can_merge_with_def is_file_backed_def split: if_splits VMAreaKind.splits)

lemma joined_sel:
  assumes a: "vma_ok a" and b: "vma_ok b" and adj: "hi (vregion a) = lo (vregion b)"
  shows "lo (vregion (joined a b)) = lo (vregion a)" and "hi (vregion (joined a b)) = hi (vregion b)"
    and "vma_ok (joined a b)" and "vperms (joined a b) = vperms a" and "is_file_backed (joined a b) = is_file_backed a"
    and "expand_by (vregion a) (rsize (vregion b)) = Some (vregion (joined a b))"
proof -
  note aD = vma_okD [OF a] and bD = vma_okD [OF b]
  let ?s = "rsize (vregion a) + rsize (vregion b)"
  have s: "unat ?s = unat (rsize (vregion a)) + unat (rsize (vregion b))"
    using adj bD(1) by (subst unat_add_usize) (auto simp: lo_def hi_def valid_def)
  show l: "lo (vregion (joined a b)) = lo (vregion a)" by (simp add: joined_def lo_def)
  show h: "hi (vregion (joined a b)) = hi (vregion b)" using s adj by (simp add: joined_def hi_def lo_def)
  show "vma_ok (joined a b)" using l h aD bD adj by (simp add: vma_ok_def valid_def)
  show "vperms (joined a b) = vperms a" "is_file_backed (joined a b) = is_file_backed a"
    by (simp_all add: joined_def is_file_backed_def)
  have "4096 dvd unat (rsize (vregion b))" using bD(3,4) by (simp add: lo_def hi_def dvd_add_right_iff)
  then have "unat (rsize (vregion b) AND PAGE_MASK) = 0" by (simp add: unat_and_PAGE_MASK)
  then have "rsize (vregion b) AND PAGE_MASK = 0" by (simp only: unat_eq_0)
  then show "expand_by (vregion a) (rsize (vregion b)) = Some (vregion (joined a b))"
    by (simp add: expand_by_def joined_def)
qed

text \<open>The attribute \<open>f\<close> of every byte survives a merge of areas of the kind of \<open>v\<close>.\<close>

definition joins :: "(vmarea \<Rightarrow> nat \<Rightarrow> 'b) \<Rightarrow> bool \<Rightarrow> bool" where
  "joins f file \<longleftrightarrow> (\<forall>a b x. vma_ok a \<longrightarrow> vma_ok b \<longrightarrow> hi (vregion a) = lo (vregion b) \<longrightarrow> can_merge_with a b \<longrightarrow>
     is_file_backed a = file \<longrightarrow> lo (vregion a) \<le> x \<longrightarrow> x < hi (vregion b) \<longrightarrow>
     f (joined a b) x = (if x < hi (vregion a) then f a x else f b x))"

lemma joins_perms: "joins (\<lambda>v x. vperms v) file"
  using joined_sel(4) can_merge_withD(1) by (fastforce simp: joins_def)

lemma joins_byte: "joins vma_byte False"
  unfolding joins_def
proof (intro allI impI)
  fix a b x assume a: "vma_ok a" and b: "vma_ok b" and adj: "hi (vregion a) = lo (vregion b)" and m: "can_merge_with a b"
    and nf: "is_file_backed a = False" and x: "lo (vregion a) \<le> x" "x < hi (vregion b)"
  have l: "lo (vregion (joined a b)) = lo (vregion a)" and k: "vkind (joined a b) = vkind a"
    using joined_sel [OF a b adj] by (simp_all add: joined_def)
  show "vma_byte (joined a b) x = (if x < hi (vregion a) then vma_byte a x else vma_byte b x)"
  proof (cases "vkind a")
    case (FileKind f) then show ?thesis using nf by (simp add: is_file_backed_def)
  next
    case Anon
    moreover from this have "vkind b = Anon" using m by (auto simp: can_merge_with_def split: if_splits VMAreaKind.splits)
    ultimately show ?thesis using k by (simp add: vma_byte_def)
  next
    case (SharedAnon s)
    then obtain t where t: "vkind b = SharedAnon t" "sh_backing s = sh_backing t" "checked_add (sh_offset s) (rsize (vregion a)) = Some (sh_offset t)"
      using m by (auto simp: can_merge_with_def split: if_splits VMAreaKind.splits)
    then have off: "sh_offset t = sh_offset s + rsize (vregion a)" by (simp add: checked_add_def split: if_splits)
    have "(of_nat (x - lo (vregion a)) :: usize) = rsize (vregion a) + of_nat (x - lo (vregion b))" if "hi (vregion a) \<le> x"
    proof -
      have "x - lo (vregion a) = unat (rsize (vregion a)) + (x - lo (vregion b))"
        using that adj by (simp add: hi_def lo_def)
      then show ?thesis by simp
    qed
    then show ?thesis using SharedAnon t off k l by (simp add: vma_byte_def add.assoc not_less)
  qed
qed

text \<open>The view of a map with one more area on top of it.\<close>

definition overlay :: "(vmarea \<Rightarrow> nat \<Rightarrow> 'b) \<Rightarrow> vmarea \<Rightarrow> vmas \<Rightarrow> nat \<Rightarrow> 'b option" where
  "overlay f v m x = (if lo (vregion v) \<le> x \<and> x < hi (vregion v) then Some (f v x) else look f m x)"

lemma region_free_sub:
  assumes "areas m' \<subseteq> areas m" and "region_free m r"
  shows "region_free m' r"
  using assms by (auto simp: region_free_def)

lemma joined_free:
  assumes ok: "vmas_ok m" and a: "vma_ok a" and b: "vma_ok b" and adj: "hi (vregion a) = lo (vregion b)"
    and "region_free m (vregion a)" "region_free m (vregion b)"
  shows "region_free m (vregion (joined a b))"
  unfolding region_free_def
proof
  fix w assume w: "w \<in> areas m"
  have "hi (vregion w) \<le> lo (vregion a) \<or> hi (vregion a) \<le> lo (vregion w)"
    "hi (vregion w) \<le> lo (vregion b) \<or> hi (vregion b) \<le> lo (vregion w)" using assms w by (auto simp: region_free_def)
  then show "hi (vregion w) \<le> lo (vregion (joined a b)) \<or> hi (vregion (joined a b)) \<le> lo (vregion w)"
    using joined_sel(1,2) [OF a b adj] adj vma_okD(2) [OF vmas_okD(3) [OF ok w]] by linarith
qed

lemma remove_free:
  assumes ok: "vmas_ok m" and v: "v \<in> areas m"
  shows "region_free (bt_remove (start_address (vregion v)) m) (vregion v)"
  using vmas_okD(4) [OF ok v] remove_area(2) [OF ok v] by (auto simp: region_free_def apart_def)

lemma remove_look:
  assumes ok: "vmas_ok m" and v: "v \<in> areas m"
  shows "look f (bt_remove (start_address (vregion v)) m) x =
    (if lo (vregion v) \<le> x \<and> x < hi (vregion v) then None else look f m x)"
  using look_pieces [OF ok remove_area(1) [OF ok v] v, of "{}" x f] remove_area(2) [OF ok v] by simp

text \<open>The first half of \<open>merge_vma\<close>: the new area takes in the one that follows it.\<close>

lemma absorb_next:
  assumes ok: "vmas_ok m" and v: "vma_ok v" and free: "region_free m (vregion v)"
    and n: "bt_get (end_address (vregion v)) m = Some n" and c: "can_merge_with v n"
  defines "m' \<equiv> bt_remove (start_address (vregion n)) m"
  shows "hi (vregion v) = lo (vregion n)" and "n \<in> areas m" and "vma_ok n" and "vmas_ok m'" and "region_free m' (vregion (joined v n))"
    and "joins f (is_file_backed v) \<Longrightarrow> overlay f (joined v n) m' x = overlay f v m x"
proof -
  have n': "n \<in> areas m" and "end_address (vregion v) = start_address (vregion n)" using get_area [OF ok] n by blast+
  then show adj: "hi (vregion v) = lo (vregion n)" using unat_end_address [OF vma_okD(1) [OF v]] by (simp add: unat_start_address)
  show nok: "vma_ok n" by (rule vmas_okD(3) [OF ok n'])
  show "n \<in> areas m" by (rule n')
  note m' = remove_area [OF ok n', folded m'_def]
  show "vmas_ok m'" by (rule m'(1))
  have "region_free m' (vregion v)" by (rule region_free_sub [OF _ free]) (use m'(2) in blast)
  then show "region_free m' (vregion (joined v n))"
    using joined_free [OF m'(1) v nok adj] remove_free [OF ok n'] by (simp add: m'_def)
  assume j: "joins f (is_file_backed v)"
  note sel = joined_sel [OF v nok adj]
  have old: "look f m x = Some (f n x)" if "lo (vregion n) \<le> x" "x < hi (vregion n)" using look_area [OF ok n'] that .
  have join: "f (joined v n) x = (if x < hi (vregion v) then f v x else f n x)" if "lo (vregion v) \<le> x" "x < hi (vregion n)"
    using j v nok adj c that unfolding joins_def by blast
  show "overlay f (joined v n) m' x = overlay f v m x"
    using old join remove_look [OF ok n', of f x, folded m'_def] vma_okD(2) [OF v] vma_okD(2) [OF nok]
    unfolding overlay_def sel(1,2) by (auto simp: adj)
qed

lemma bt_insert_remove: "bt_ok m \<Longrightarrow> bt_insert k v (bt_remove k m) = bt_insert k v m"
proof (induction m)
  case (Cons x m)
  obtain a w where x: "x = (a, w)" by fastforce
  have "a = k \<Longrightarrow> bt_remove k m = m" using Cons.prems x by (auto simp: bt_remove_def filter_id_conv)
  moreover have "k < a \<Longrightarrow> bt_remove k m = m" using Cons.prems x by (auto simp: bt_remove_def filter_id_conv)
  moreover have "a = k \<Longrightarrow> bt_insert k v m = (k, v) # m"
    using Cons.prems x by (cases m) (auto simp: bt_remove_def)
  ultimately show ?case using Cons x by (auto simp: bt_remove_def)
qed (simp add: bt_remove_def)

text \<open>The second half: the area that ends where the new one starts takes it in.\<close>

lemma absorb_prev:
  assumes ok: "vmas_ok m" and v: "vma_ok v" and free: "region_free m (vregion v)"
    and p: "bt_before (start_address (vregion v)) m = Some (k, p)"
    and e: "end_address (vregion p) = start_address (vregion v)" and c: "can_merge_with p v"
  defines "m' \<equiv> bt_insert k (joined p v) m"
  shows "expand_by (vregion p) (rsize (vregion v)) = Some (vregion (joined p v))" and "vmas_ok m'"
    and "joins f (is_file_backed v) \<Longrightarrow> look f m' x = overlay f v m x"
proof -
  have p': "p \<in> areas m" "k = start_address (vregion p)" using before_area(2) [OF ok p] by blast+
  have pok: "vma_ok p" by (rule vmas_okD(3) [OF ok p'(1)])
  have adj: "hi (vregion p) = lo (vregion v)"
    using e unat_end_address [OF vma_okD(1) [OF pok]] by (simp add: unat_start_address)
  note sel = joined_sel [OF pok v adj]
  show "expand_by (vregion p) (rsize (vregion v)) = Some (vregion (joined p v))" by (rule sel(6))
  let ?m = "bt_remove k m"
  note rm = remove_area [OF ok p'(1), folded p'(2)]
  have "region_free ?m (vregion v)" by (rule region_free_sub [OF _ free]) (use rm(2) in blast)
  then have fr: "region_free ?m (vregion (joined p v))"
    using joined_free [OF rm(1) pok v adj] remove_free [OF ok p'(1), folded p'(2)] by blast
  have "k = start_address (vregion (joined p v))" using sel(1) by (simp add: p'(2) start_less(3))
  then have m': "m' = bt_insert (start_address (vregion (joined p v))) (joined p v) ?m"
    using bt_insert_remove [OF vmas_okD(1) [OF ok]] by (simp add: m'_def)
  note ins = insert_area [OF rm(1) sel(3) fr, folded m']
  show "vmas_ok m'" by (rule ins(1))
  assume j: "joins f (is_file_backed v)"
  have join: "f (joined p v) x = (if x < hi (vregion p) then f p x else f v x)" if "lo (vregion p) \<le> x" "x < hi (vregion v)"
    using j v pok adj c can_merge_withD(2) [OF c] that unfolding joins_def by blast
  have old: "look f m x = Some (f p x)" if "lo (vregion p) \<le> x" "x < hi (vregion p)" using look_area [OF ok p'(1)] that .
  have "look f m' x = overlay f (joined p v) ?m x"
    unfolding overlay_def by (rule look_insert [OF rm(1) ins])
  then show "look f m' x = overlay f v m x"
    using old join remove_look [OF ok p'(1), of f x, folded p'(2)] vma_okD(2) [OF v] vma_okD(2) [OF pok]
    unfolding overlay_def sel(1,2) by (auto simp: adj)
qed

lemma joined_expand: "v\<lparr>vregion := vregion (joined v n)\<rparr> = joined v n"
  by (simp add: joined_def)

lemma merge_next_spec:
  assumes ok: "vmas_ok m" and v: "vma_ok v" and free: "region_free m (vregion v)"
  shows "\<exists>m1 v1. merge_next m v = Some (m1, v1)"
    and "merge_next m v = Some (m1, v1) \<Longrightarrow>
      vmas_ok m1 \<and> vma_ok v1 \<and> region_free m1 (vregion v1) \<and> is_file_backed v1 = is_file_backed v"
    and "merge_next m v = Some (m1, v1) \<Longrightarrow> joins f (is_file_backed v) \<Longrightarrow> overlay f v1 m1 x = overlay f v m x"
proof -
  have "(\<exists>n. bt_get (end_address (vregion v)) m = Some n \<and> can_merge_with v n \<and>
      merge_next m v = Some (bt_remove (start_address (vregion n)) m, joined v n)) \<or> merge_next m v = Some (m, v)"
  proof (cases "bt_get (end_address (vregion v)) m")
    case (Some n)
    show ?thesis
    proof (cases "can_merge_with v n")
      case True
      note a = absorb_next [OF ok v free Some True]
      show ?thesis using Some True joined_sel(6) [OF v a(3,1)] by (simp add: merge_next_def joined_expand)
    qed (simp add: merge_next_def Some)
  qed (simp add: merge_next_def)
  then consider n where "bt_get (end_address (vregion v)) m = Some n" "can_merge_with v n"
      "merge_next m v = Some (bt_remove (start_address (vregion n)) m, joined v n)"
    | "merge_next m v = Some (m, v)" by blast
  note cases = this
  from cases show "\<exists>m1 v1. merge_next m v = Some (m1, v1)" by cases blast+
  assume run: "merge_next m v = Some (m1, v1)"
  from cases show "vmas_ok m1 \<and> vma_ok v1 \<and> region_free m1 (vregion v1) \<and> is_file_backed v1 = is_file_backed v"
  proof cases
    case (1 n)
    note a = absorb_next [OF ok v free 1(1,2)]
    show ?thesis using a joined_sel [OF v a(3,1)] 1(3) run by simp
  qed (use run assms in simp)
  assume j: "joins f (is_file_backed v)"
  from cases show "overlay f v1 m1 x = overlay f v m x"
  proof cases
    case (1 n)
    show ?thesis using absorb_next(6) [OF ok v free 1(1,2) j] 1(3) run by simp
  qed (use run in simp)
qed

lemma merge_vma_run:
  assumes ok: "vmas_ok m" and v: "vma_ok v" and free: "region_free m (vregion v)"
  shows "\<exists>m'. merge_vma m v = Some m'"
    and "merge_vma m v = Some m' \<Longrightarrow> vmas_ok m'"
    and "merge_vma m v = Some m' \<Longrightarrow> joins f (is_file_backed v) \<Longrightarrow> look f m' x = overlay f v m x"
proof -
  obtain m1 v1 where run: "merge_next m v = Some (m1, v1)" using merge_next_spec(1) [OF assms] by blast
  have m1: "vmas_ok m1" "vma_ok v1" "region_free m1 (vregion v1)" "is_file_backed v1 = is_file_backed v"
    using merge_next_spec(2) [OF assms run] by blast+
  note ov = merge_next_spec(3) [OF assms run]
  let ?ins = "bt_insert (start_address (vregion v1)) v1 m1"
  have "(\<exists>k p. bt_before (start_address (vregion v1)) m1 = Some (k, p) \<and> end_address (vregion p) = start_address (vregion v1) \<and>
      can_merge_with p v1 \<and> merge_vma m v = Some (bt_insert k (joined p v1) m1)) \<or> merge_vma m v = Some ?ins"
  proof (cases "bt_before (start_address (vregion v1)) m1")
    case (Some kp)
    then obtain k p where kp: "bt_before (start_address (vregion v1)) m1 = Some (k, p)" by (cases kp) simp
    show ?thesis
    proof (cases "end_address (vregion p) = start_address (vregion v1) \<and> can_merge_with p v1")
      case True
      then show ?thesis using absorb_prev(1) [OF m1(1-3) kp] run kp by (simp add: merge_vma_def joined_expand)
    qed (use run kp in \<open>auto simp: merge_vma_def\<close>)
  qed (simp add: merge_vma_def run)
  then consider k p where "bt_before (start_address (vregion v1)) m1 = Some (k, p)" "end_address (vregion p) = start_address (vregion v1)"
      "can_merge_with p v1" "merge_vma m v = Some (bt_insert k (joined p v1) m1)"
    | "merge_vma m v = Some ?ins" by blast
  note cases = this
  from cases show "\<exists>m'. merge_vma m v = Some m'" by cases blast+
  assume r: "merge_vma m v = Some m'"
  note ins = insert_area [OF m1(1-3)]
  from cases show "vmas_ok m'"
    by cases (use r ins(1) absorb_prev(2) [OF m1(1-3)] in \<open>simp_all\<close>)
  assume j: "joins f (is_file_backed v)"
  from cases have "look f m' x = overlay f v1 m1 x"
  proof cases
    case (1 k p)
    then show ?thesis using absorb_prev(3) [OF m1(1-3) 1(1-3), of f x] r j m1(4) by simp
  next
    case 2
    then show ?thesis using look_insert [OF m1(1) ins, of f x] r by (simp add: overlay_def)
  qed
  then show "look f m' x = overlay f v m x" using ov [OF j] by simp
qed

text \<open>
  \<open>merge_vma\<close> on a free region never panics, keeps the map well formed and adds exactly the bytes of the area.
\<close>

lemma merge_vma_spec:
  assumes "vmas_ok m" and "vma_ok v" and "region_free m (vregion v)"
  obtains m' where "merge_vma m v = Some m'" "vmas_ok m'"
    "\<And>x. perms_at m' x = overlay (\<lambda>v x. vperms v) v m x"
    "\<And>x. \<not> is_file_backed v \<Longrightarrow> byte_at m' x = overlay vma_byte v m x"
proof -
  obtain m' where m': "merge_vma m v = Some m'" using merge_vma_run(1) [OF assms] by blast
  show thesis
    using that [OF m' merge_vma_run(2) [OF assms m']] merge_vma_run(3) [OF assms m'] joins_perms joins_byte
    unfolding perms_at_look byte_at_look by metis
qed

end
