(* ===== verification/Memory_Map_Props.thy ===== *)
theory Memory_Map_Props
  imports Memory_Map_Proofs
begin

text \<open>
  The correctness of the calls of a memory map, on the per-address view of \<open>Memory_Map_Proofs\<close>. No
  theorem assumes anything of the page tables \<open>ops\<close>: a call that succeeds has the stated effect
  on the areas whatever they did.
\<close>

section \<open>Page tables for examples\<close>

text \<open>Page tables that log the ranges they are asked to change, and hold no page.\<close>

datatype page_op = UnmapRange region | ProtectRange region PtePermissions

definition mock_ops :: "page_op list address_space_ops" where
  "mock_ops = \<lparr>
     as_new = Inr [],
     as_map_page = (\<lambda>as p a c. (Inr (), as)),
     as_unmap = (\<lambda>as a. Some (Inr 0, as @ [UnmapRange (rnew a PAGE_SIZE)])),
     as_remap = (\<lambda>as a p c. (Inr 0, as)),
     as_protect_range = (\<lambda>as r c. (Inr (), as @ [ProtectRange r c])),
     as_unmap_range = (\<lambda>as r. (Inr [], as @ [UnmapRange r])),
     as_translate = (\<lambda>as a. None),
     as_protect_and_clone_region = (\<lambda>as r other c. (Inr (), as, other))\<rparr>"

section \<open>Mapping\<close>

lemma insert_free:
  assumes ok: "vmas_ok (vmas mm)" and v: "vma_ok v" and free: "region_free (vmas mm) (vregion v)"
  obtains m' where "insert_and_merge ops v mm = Some (mm\<lparr>vmas := m'\<rparr>)" "vmas_ok m'"
    "\<And>x. perms_at m' x = overlay (\<lambda>v x. vperms v) v (vmas mm) x"
    "\<And>x. \<not> is_file_backed v \<Longrightarrow> byte_at m' x = overlay vma_byte v (vmas mm) x"
proof -
  have "unmap_region ops (vregion v) (Some v) mm = Some (Inr [], mm)"
    by (rule unmap_region_free [OF ok _ free]) (use v vma_ok_iff in blast)
  moreover obtain m' where "merge_vma (vmas mm) v = Some m'" "vmas_ok m'"
    "\<And>x. perms_at m' x = overlay (\<lambda>v x. vperms v) v (vmas mm) x"
    "\<And>x. \<not> is_file_backed v \<Longrightarrow> byte_at m' x = overlay vma_byte v (vmas mm) x"
    using merge_vma_spec [OF ok v free] by metis
  ultimately show thesis using that by (simp add: insert_and_merge_def)
qed

text \<open>The length of a mapping, rounded up to pages.\<close>

lemma page_len:
  assumes "checked_add len PAGE_MASK = Some n"
  shows "unat (n AND NOT PAGE_MASK) = round_up 4096 (unat len)"
proof -
  have le: "unat len + 4095 < 18446744073709551616" and n: "n = len + PAGE_MASK"
    using assms by (simp_all add: checked_add_usize PAGE_MASK_def PAGE_SIZE_def split: if_splits)
  have "n AND NOT PAGE_MASK = align_up_bits len PAGE_SIZE" by (simp add: n align_up_bits_def PAGE_MASK_def)
  then show ?thesis using le by (simp add: unat_align_up_bits)
qed

lemma page_region_rnew:
  assumes "4096 dvd unat a" "4096 dvd unat n" "0 < unat n" "unat a + unat n < 2 ^ 64"
  shows "page_region (rnew a n)"
  using assms by (simp add: page_region_def valid_def lo_def hi_def)

lemma find_vma_region_Some:
  assumes ok: "vmas_ok m" and "0 < unat n" "4096 dvd unat n"
    and "(case find_free_region m n of None \<Rightarrow> Inl NoMemory | Some r \<Rightarrow> Inr r) = Inr r"
  shows "page_region r \<and> rsize r = n \<and> region_free m r"
  using find_free_region_spec [OF ok _ assms(2,3)] assms(4) by (simp add: page_region_def split: option.splits)

text \<open>Where a request places its region; a region that wraps around is excluded.\<close>

definition request_fits :: "AddressRequest \<Rightarrow> nat \<Rightarrow> bool" where
  "request_fits req n =
     (case req of AnyAddress \<Rightarrow> True | Hint a \<Rightarrow> unat a + n < 2 ^ 64 | Fixed a _ \<Rightarrow> unat a + n < 2 ^ 64)"

definition request_replaces :: "AddressRequest \<Rightarrow> bool" where
  "request_replaces req = (case req of Fixed _ permit_overlap \<Rightarrow> permit_overlap | _ \<Rightarrow> False)"

lemma choose_region_spec:
  assumes ok: "vmas_ok m" and n: "0 < unat n" "4096 dvd unat n" and fits: "request_fits req (unat n)"
    and run: "choose_region m req n = Inr r"
  shows "page_region r" "rsize r = n" "\<not> request_replaces req \<Longrightarrow> region_free m r"
    "req = Fixed a b \<Longrightarrow> start_address r = a"
proof -
  have "page_region r \<and> rsize r = n \<and> (\<not> request_replaces req \<longrightarrow> region_free m r) \<and> (\<forall>a b. req = Fixed a b \<longrightarrow> start_address r = a)"
  proof (cases req)
    case AnyAddress
    then show ?thesis using find_vma_region_Some [OF ok n] run by (simp add: choose_region_def)
  next
    case (Hint a)
    let ?a = "if \<not> is_page_aligned a then page_aligned a else a"
    have "unat ?a \<le> unat a" "4096 dvd unat ?a" by (auto simp: is_page_aligned_dvd unat_page_aligned)
    then have pr: "page_region (rnew ?a n)" using n fits Hint by (intro page_region_rnew) (auto simp: request_fits_def)
    show ?thesis
    proof (cases "is_region_free m (rnew ?a n)")
      case True
      then have "r = rnew ?a n" using run Hint by (simp add: choose_region_def Let_def split: if_splits)
      moreover have "region_free m (rnew ?a n)"
        using True is_region_free_eq [OF ok page_regionD(1,2) [OF pr]] by blast
      ultimately show ?thesis using pr Hint by simp
    next
      case False
      then show ?thesis using find_vma_region_Some [OF ok n] run Hint by (simp add: choose_region_def Let_def split: if_splits)
    qed
  next
    case (Fixed a b)
    then have r: "r = rnew a n" "is_page_aligned a" "b \<or> is_region_free m r"
      using run by (auto simp: choose_region_def Let_def split: if_splits)
    have pr: "page_region r" unfolding r(1) using n fits Fixed r(2) by (intro page_region_rnew) (simp_all add: request_fits_def is_page_aligned_dvd)
    then show ?thesis using r is_region_free_eq [OF ok page_regionD(1,2) [OF pr]] Fixed
      by (auto simp: request_replaces_def start_address_def)
  qed
  then show "page_region r" "rsize r = n" "\<not> request_replaces req \<Longrightarrow> region_free m r"
    "req = Fixed a b \<Longrightarrow> start_address r = a" by blast+
qed

text \<open>The state of a map after an area was placed at \<open>a\<close>.\<close>

definition mapped :: "'a memory_map \<Rightarrow> addr \<Rightarrow> nat \<Rightarrow> VMAreaKind \<Rightarrow> VMAPermissions \<Rightarrow> 'a memory_map \<Rightarrow> bool" where
  "mapped mm a n kind perms mm' \<longleftrightarrow>
     (\<forall>x. perms_at (vmas mm') x = (if unat a \<le> x \<and> x < unat a + n then Some perms else perms_at (vmas mm) x)) \<and>
     ((\<forall>f. kind \<noteq> FileKind f) \<longrightarrow>
        (\<forall>x. byte_at (vmas mm') x =
          (if unat a \<le> x \<and> x < unat a + n then Some (vma_byte (vmarea_new (rnew a (of_nat n)) kind perms) x)
           else byte_at (vmas mm) x)))"

lemma place_area:
  assumes ok: "vmas_ok (vmas mm)" and r: "page_region r" and free: "region_free (vmas mm) r"
  obtains mm' where "insert_and_merge ops (set_name (vmarea_new r kind perms) name) mm = Some mm'" "vmas_ok (vmas mm')"
    "mapped mm (start_address r) (unat (rsize r)) kind perms mm'" "address_space mm' = address_space mm"
proof -
  let ?v = "set_name (vmarea_new r kind perms) name"
  have sel: "vregion ?v = r" "vperms ?v = perms" "vkind ?v = kind" by (simp_all add: set_name_def vmarea_new_def)
  have "vma_ok ?v" using r by (simp add: vma_ok_iff sel)
  then obtain m' where m': "insert_and_merge ops ?v mm = Some (mm\<lparr>vmas := m'\<rparr>)" "vmas_ok m'"
    "\<And>x. perms_at m' x = overlay (\<lambda>v x. vperms v) ?v (vmas mm) x"
    "\<And>x. \<not> is_file_backed ?v \<Longrightarrow> byte_at m' x = overlay vma_byte ?v (vmas mm) x"
    using insert_free [OF ok, of ?v ops] free by (simp add: sel) metis
  have b: "vma_byte ?v x = vma_byte (vmarea_new (rnew (start_address r) (of_nat (unat (rsize r)))) kind perms) x" for x
    by (simp add: vma_byte_def set_name_def vmarea_new_def lo_def start_address_def)
  have lh: "lo r = unat (start_address r)" "hi r = unat (start_address r) + unat (rsize r)"
    by (simp_all add: lo_def hi_def start_address_def)
  have "mapped mm (start_address r) (unat (rsize r)) kind perms (mm\<lparr>vmas := m'\<rparr>)"
    using m'(3,4) b by (auto simp: mapped_def overlay_def sel lh is_file_backed_def perms_at_look byte_at_look split: VMAreaKind.split)
  with m'(1,2) show thesis using that by simp
qed

text \<open>A map with an anonymous area, a free page and a file area, for the examples.\<close>

definition anon_vma :: "addr \<Rightarrow> usize \<Rightarrow> VMAPermissions \<Rightarrow> vmarea" where
  "anon_vma a n p = vmarea_new (rnew a n) Anon p"

definition file_vma :: "addr \<Rightarrow> usize \<Rightarrow> u64 \<Rightarrow> VMAPermissions \<Rightarrow> vmarea" where
  "file_vma a n off p = vmarea_new (rnew a n) (new_file 7 off n) p"

definition mm_of :: "vmarea list \<Rightarrow> page_op list memory_map" where
  "mm_of vs = \<lparr>vmas = map (\<lambda>v. (start_address (vregion v), v)) vs, address_space = []\<rparr>"

definition mm0 :: "page_op list memory_map" where
  "mm0 = mm_of [anon_vma 0x10000 0x3000 vma_rw, file_vma 0x14000 0x2000 0x8000 vma_rx]"

lemmas example_defs = anon_vma_def file_vma_def mm_of_def vmarea_new_def new_file_def start_address_def

lemma mm0_ok: "vmas_ok (vmas mm0)"
  by (simp add: mm0_def example_defs vmas_ok_def vma_ok_def valid_def lo_def hi_def dvd_eq_mod_eq_0)

lemma mmap_impl_free:
  assumes ok: "vmas_ok (vmas mm)" and fits: "request_fits req (round_up 4096 (unat len))"
    and fresh: "\<not> request_replaces req"
  obtains e where "mmap_impl ops req len perms kind name False mm = Some (Inl e, mm)"
  | a mm' where "mmap_impl ops req len perms kind name False mm = Some (Inr (a, []), mm')" "vmas_ok (vmas mm')"
    "4096 dvd unat a" "\<And>x. unat a \<le> x \<Longrightarrow> x < unat a + round_up 4096 (unat len) \<Longrightarrow> perms_at (vmas mm) x = None"
    "mapped mm a (round_up 4096 (unat len)) kind perms mm'" "address_space mm' = address_space mm"
    "\<And>b c. req = Fixed b c \<Longrightarrow> a = b"
proof (cases "len = 0")
  case True
  then show thesis using that(1) by (simp add: mmap_impl_def)
next
  case False
  show thesis
  proof (cases "checked_add len PAGE_MASK")
    case None
    then show thesis using that(1) False by (simp add: mmap_impl_def)
  next
    case (Some n)
    define m where "m = n AND NOT PAGE_MASK"
    have m: "unat m = round_up 4096 (unat len)" using page_len [OF Some] by (simp add: m_def)
    moreover have "0 < unat len" using False by (simp add: unat_gt_0)
    ultimately have pos: "0 < unat m" "4096 dvd unat m" using round_up_ge [of 4096 "unat len"] by simp_all
    show thesis
    proof (cases "choose_region (vmas mm) req m")
      case (Inl e)
      then show thesis using that(1) False Some by (simp add: mmap_impl_def Let_def m_def)
    next
      case (Inr r)
      have fits': "request_fits req (unat m)" using fits m by simp
      note r = choose_region_spec [OF ok pos fits' Inr]
      have free: "region_free (vmas mm) r" by (rule r(3) [OF fresh])
      obtain mm' where mm': "insert_and_merge ops (set_name (vmarea_new r kind perms) name) mm = Some mm'" "vmas_ok (vmas mm')"
        "mapped mm (start_address r) (unat (rsize r)) kind perms mm'" "address_space mm' = address_space mm"
        using place_area [OF ok r(1) free, of ops kind perms name] by metis
      have run: "mmap_impl ops req len perms kind name False mm = Some (Inr (start_address r, []), mm')"
        using False Some Inr mm'(1) by (simp add: mmap_impl_def Let_def m_def)
      have lh: "lo r = unat (start_address r)" "hi r = unat (start_address r) + round_up 4096 (unat len)"
        using r(2) m by (simp_all add: lo_def hi_def start_address_def)
      show thesis
      proof (rule that(2) [OF run mm'(2)])
        show "4096 dvd unat (start_address r)" using page_regionD(3) [OF r(1)] lh by simp
        show "perms_at (vmas mm) x = None"
          if "unat (start_address r) \<le> x" "x < unat (start_address r) + round_up 4096 (unat len)" for x
          using region_free_perms [OF ok page_regionD(2) [OF r(1)]] free that by (simp add: lh)
        show "mapped mm (start_address r) (round_up 4096 (unat len)) kind perms mm'" using mm'(3) r(2) m by simp
        show "address_space mm' = address_space mm" by (rule mm'(4))
      qed (use r(4) in blast)
    qed
  qed
qed

text \<open>
  Claim C10. \<open>mmap\<close> on a well-formed map, for a request that may not replace anything and whose address, if
  it has one, plus the length rounded up to pages does not wrap around: it never panics, and the map stays well formed. An error leaves the map unchanged. On success the address is page
  aligned (and the requested one for a fixed request), all of the region was free before, every
  address of it now has the requested permissions, and no other address changes its permissions. For
  anonymous and shared memory every address of it has the requested content, and no other address
  changes its content; merging with the neighbours is invisible.
\<close>

theorem mmap_correct:
  assumes "vmas_ok (vmas mm)" and "request_fits req (round_up 4096 (unat len))" and "\<not> request_replaces req"
  shows "\<exists>res mm'. mmap ops req len perms kind name mm = Some (res, mm') \<and> vmas_ok (vmas mm') \<and>
    address_space mm' = address_space mm \<and>
    (case res of
       Inl e \<Rightarrow> mm' = mm
     | Inr a \<Rightarrow> 4096 dvd unat a \<and> (\<forall>b c. req = Fixed b c \<longrightarrow> a = b) \<and>
         (\<forall>x. unat a \<le> x \<and> x < unat a + round_up 4096 (unat len) \<longrightarrow> perms_at (vmas mm) x = None) \<and>
         mapped mm a (round_up 4096 (unat len)) kind perms mm')"
proof (rule mmap_impl_free [OF assms, of ops perms kind name], goal_cases)
  case (1 e)
  then show ?case using assms(1) by (simp add: mmap_def)
next
  case (2 a mm')
  then show ?case by (simp add: mmap_def)
qed

theorem mmap_correct_witness:
  "\<exists>mm'. mmap mock_ops (Hint 0x13000) 0x800 vma_rw Anon [] mm0 = Some (Inr 0x13000, mm') \<and>
     perms_at (vmas mm') 0x13FFF = Some vma_rw \<and> vma_count mm' = 2"
proof -
  have run: "mmap mock_ops (Hint 0x13000) 0x800 vma_rw Anon [] mm0 =
      Some (Inr 0x13000, mm_of [anon_vma 0x10000 0x4000 vma_rw, file_vma 0x14000 0x2000 0x8000 vma_rx])"
    by code_simp
  have "request_fits (Hint 0x13000) (round_up 4096 (unat (0x800 :: usize)))" "\<not> request_replaces (Hint 0x13000)"
    by (simp_all add: request_fits_def round_up_def request_replaces_def)
  from mmap_correct [OF mm0_ok this, of mock_ops vma_rw Anon "[]"] run show ?thesis
    by (simp add: mapped_def round_up_def vma_count_def mm_of_def)
qed

section \<open>Unmapping\<close>

text \<open>
  An address above an unmapped region in an area backed by a file that the region cuts: there
  the code does not keep the offset and the length of the file part together.
\<close>

definition file_cut :: "vmas \<Rightarrow> region \<Rightarrow> nat \<Rightarrow> bool" where
  "file_cut m r x \<longleftrightarrow> (\<exists>v \<in> areas m. meets r v \<and> is_file_backed v \<and> hi r \<le> x \<and> x < hi (vregion v))"

text \<open>The view of a map without the addresses from \<open>a\<close> up to \<open>b\<close>.\<close>

definition unmapped :: "vmas \<Rightarrow> region \<Rightarrow> vmas \<Rightarrow> bool" where
  "unmapped m r m' \<longleftrightarrow>
     (\<forall>x. perms_at m' x = (if lo r \<le> x \<and> x < hi r then None else perms_at m x)) \<and>
     (\<forall>x. \<not> file_cut m r x \<longrightarrow> byte_at m' x = (if lo r \<le> x \<and> x < hi r then None else byte_at m x))"

lemma unmap_region_unmapped:
  assumes ok: "vmas_ok (vmas mm)" and r: "page_region r"
  obtains res mm' where "unmap_region ops r new_vma mm = Some (res, mm')" "vmas_ok (vmas mm')"
    "\<And>ps. res = Inr ps \<Longrightarrow> unmapped (vmas mm) r (vmas mm')"
proof (rule unmap_region_spec [OF ok r, of ops new_vma])
  fix res mm' assume run: "unmap_region ops r new_vma mm = Some (res, mm')" "vmas_ok (vmas mm')"
    and perms: "\<And>ps x. res = Inr ps \<Longrightarrow> perms_at (vmas mm') x = (if lo r \<le> x \<and> x < hi r then None else perms_at (vmas mm) x)"
    and byte: "\<And>ps x. res = Inr ps \<Longrightarrow>
       (\<And>v. v \<in> areas (vmas mm) \<Longrightarrow> meets r v \<Longrightarrow> is_file_backed v \<Longrightarrow> hi r \<le> x \<Longrightarrow> hi (vregion v) \<le> x) \<Longrightarrow>
       byte_at (vmas mm') x = (if lo r \<le> x \<and> x < hi r then None else byte_at (vmas mm) x)"
  have "unmapped (vmas mm) r (vmas mm')" if res: "res = Inr ps" for ps
    unfolding unmapped_def
  proof (intro conjI allI impI)
    show "perms_at (vmas mm') x = (if lo r \<le> x \<and> x < hi r then None else perms_at (vmas mm) x)" for x
      by (rule perms [OF res])
    show "byte_at (vmas mm') x = (if lo r \<le> x \<and> x < hi r then None else byte_at (vmas mm) x)"
      if "\<not> file_cut (vmas mm) r x" for x
      by (rule byte [OF res]) (use that in \<open>auto simp: file_cut_def not_less\<close>)
  qed
  then show thesis using that run by blast
qed

lemma unmapped_free:
  assumes "vmas_ok m'" "page_region r" "unmapped m r m'"
  shows "region_free m' r"
  using region_free_perms [OF assms(1) page_regionD(2) [OF assms(2)]] assms(3) by (simp add: unmapped_def)

lemma munmap_eq:
  assumes fits: "hi rng + 4095 < 2 ^ 64" and al: "4096 dvd lo rng" "lo rng < hi rng"
  obtains q where "munmap ops rng mm = unmap_region ops q None mm" "page_region q" "lo q = lo rng"
    "hi q = round_up 4096 (hi rng)"
proof -
  obtain q where q: "align_to_page_boundary rng = Some q" "valid q" "lo q = round_down 4096 (lo rng)"
    "hi q = round_up 4096 (hi rng)" "hi rng \<le> hi q" using align_to_page_boundary_eq [OF fits] by blast
  have lq: "lo q = lo rng" using q(3) al(1) by (simp add: round_down_def dvd_div_mult_self)
  have pq: "page_region q" using q lq al by (simp add: page_region_def)
  have "is_page_aligned (address rng)" "rsize rng \<noteq> 0"
    using al by (auto simp: is_page_aligned_dvd lo_def hi_def)
  then have "munmap ops rng mm = unmap_region ops q None mm"
    using q(1) by (simp add: munmap_def region_is_page_aligned_def)
  then show thesis using that pq lq q(4) by blast
qed

lemma munmap_spec:
  assumes ok: "vmas_ok (vmas mm)" and fits: "hi rng + 4095 < 2 ^ 64"
    and al: "4096 dvd lo rng" "lo rng < hi rng"
  obtains res mm' q where "munmap ops rng mm = Some (res, mm')" "vmas_ok (vmas mm')"
    "page_region q" "lo q = lo rng" "hi q = round_up 4096 (hi rng)"
    "\<And>ps. res = Inr ps \<Longrightarrow> unmapped (vmas mm) q (vmas mm')"
proof -
  obtain q where q: "munmap ops rng mm = unmap_region ops q None mm" "page_region q" "lo q = lo rng"
    "hi q = round_up 4096 (hi rng)" using munmap_eq [OF fits al] .
  obtain res mm' where "unmap_region ops q None mm = Some (res, mm')" "vmas_ok (vmas mm')"
    "\<And>ps. res = Inr ps \<Longrightarrow> unmapped (vmas mm) q (vmas mm')" using unmap_region_unmapped [OF ok q(2)] by metis
  then show thesis using that [of res mm' q] q by simp
qed

lemma munmap_run:
  assumes "vmas_ok (vmas mm)" and "hi rng + 4095 < 2 ^ 64"
  shows "\<exists>res mm'. munmap ops rng mm = Some (res, mm') \<and> vmas_ok (vmas mm') \<and>
    (if \<not> 4096 dvd lo rng \<or> lo rng = hi rng then res = Inl InvalidValue \<and> mm' = mm
     else \<forall>ps. res = Inr ps \<longrightarrow> unmapped (vmas mm) (region_of (lo rng) (round_up 4096 (hi rng))) (vmas mm'))"
proof (cases "\<not> 4096 dvd lo rng \<or> lo rng = hi rng")
  case True
  then have "\<not> is_page_aligned (address rng) \<or> rsize rng = 0"
    by (auto simp: is_page_aligned_dvd lo_def hi_def unat_eq_0)
  then show ?thesis using assms(1) True by (auto simp: munmap_def region_is_page_aligned_def)
next
  case False
  then have al: "4096 dvd lo rng" "lo rng < hi rng" using lo_le_hi [of rng] by (auto simp: order.order_iff_strict)
  obtain res mm' q where run: "munmap ops rng mm = Some (res, mm')" "vmas_ok (vmas mm')"
    and q: "page_region q" "lo q = lo rng" "hi q = round_up 4096 (hi rng)"
    and un: "\<And>ps. res = Inr ps \<Longrightarrow> unmapped (vmas mm) q (vmas mm')"
    using munmap_spec [OF assms al, of ops] by metis
  have "hi q < 18446744073709551616" "lo q \<le> hi q" using page_regionD(1) [OF q(1)] by (simp_all add: valid_def)
  then have "q = region_of (lo rng) (round_up 4096 (hi rng))" unfolding q(2,3) [symmetric] by (intro region_eqI) simp_all
  then show ?thesis using run un False by auto
qed

text \<open>
  Claim C11. \<open>munmap\<close> on a well-formed map, for a range whose end, rounded up to a page, does not wrap around,
  never panics and keeps the map well formed, whatever the page tables answer. A misaligned or empty range is refused and changes nothing. On success exactly the
  addresses of the range, rounded up to whole pages, lose their mapping: areas inside it disappear,
  areas that reach over its ends are cut or split, and every other address keeps its permissions.
  Every other address also keeps the source of its byte, except those above the range in a file-backed area that
  the range cuts, by a hole or at its front.
\<close>

theorem munmap_correct:
  assumes "vmas_ok (vmas mm)" and "hi rng + 4095 < 2 ^ 64"
  shows "\<exists>res mm'. munmap ops rng mm = Some (res, mm') \<and> vmas_ok (vmas mm') \<and>
    (if \<not> 4096 dvd lo rng \<or> lo rng = hi rng then res = Inl InvalidValue \<and> mm' = mm
     else \<forall>ps. res = Inr ps \<longrightarrow> unmapped (vmas mm) (region_of (lo rng) (round_up 4096 (hi rng))) (vmas mm'))"
  using assms by (rule munmap_run)

theorem munmap_correct_witness:
  "\<exists>mm'. munmap mock_ops (rnew 0x11000 0x800) mm0 = Some (Inr [], mm') \<and> vma_count mm' = 3 \<and>
     perms_at (vmas mm') 0x11FFF = None \<and> perms_at (vmas mm') 0x12000 = perms_at (vmas mm0) 0x12000"
proof -
  have run: "munmap mock_ops (rnew 0x11000 0x800) mm0 = Some (Inr [],
      (mm_of [anon_vma 0x10000 0x1000 vma_rw, anon_vma 0x12000 0x1000 vma_rw, file_vma 0x14000 0x2000 0x8000 vma_rx])
        \<lparr>address_space := [UnmapRange (rnew 0x11000 0x1000)]\<rparr>)"
    by code_simp
  have "hi (rnew 0x11000 0x800) + 4095 < 2 ^ 64" by (simp add: hi_def)
  from munmap_correct [OF mm0_ok this, of mock_ops] run show ?thesis
    by (simp add: unmapped_def round_up_def lo_def [of "rnew _ _"] hi_def [of "rnew _ _"] vma_count_def mm_of_def dvd_eq_mod_eq_0)
qed

section \<open>Placing several areas\<close>

definition covers :: "nat \<Rightarrow> vmarea \<Rightarrow> bool" where
  "covers x v \<longleftrightarrow> lo (vregion v) \<le> x \<and> x < hi (vregion v)"

fun merge_all :: "vmarea list \<Rightarrow> vmas \<Rightarrow> vmas option" where
  "merge_all [] m = Some m"
| "merge_all (v # vs) m = Option.bind (merge_vma m v) (merge_all vs)"

definition over :: "(vmarea \<Rightarrow> nat \<Rightarrow> 'b) \<Rightarrow> vmarea list \<Rightarrow> (nat \<Rightarrow> 'b option) \<Rightarrow> nat \<Rightarrow> 'b option" where
  "over f vs g x = (case find (covers x) vs of Some v \<Rightarrow> Some (f v x) | None \<Rightarrow> g x)"

lemma over_simps [simp]:
  "over f [] g x = g x"
  "over f (v # vs) g x = (if covers x v then Some (f v x) else over f vs g x)"
  by (simp_all add: over_def)

lemma over_overlay:
  assumes "\<forall>w \<in> set vs. apart v w"
  shows "over f vs (overlay f v m) x = (if covers x v then Some (f v x) else over f vs (look f m) x)"
  using assms by (induction vs) (auto simp: overlay_def covers_def apart_def)

lemma merge_all_spec:
  assumes "vmas_ok m" and "\<forall>v \<in> set vs. vma_ok v \<and> region_free m (vregion v)" and "sorted_wrt apart vs"
  shows "\<exists>m'. merge_all vs m = Some m' \<and> vmas_ok m' \<and> (\<forall>x. perms_at m' x = over (\<lambda>v x. vperms v) vs (perms_at m) x) \<and>
    ((\<forall>v \<in> set vs. \<not> is_file_backed v) \<longrightarrow> (\<forall>x. byte_at m' x = over vma_byte vs (byte_at m) x))"
  using assms
proof (induction vs arbitrary: m)
  case (Cons v vs)
  have v: "vma_ok v" "region_free m (vregion v)" using Cons.prems by simp_all
  obtain m1 where m1: "merge_vma m v = Some m1" "vmas_ok m1"
    and perms: "\<And>x. perms_at m1 x = overlay (\<lambda>v x. vperms v) v m x"
    and byte: "\<And>x. \<not> is_file_backed v \<Longrightarrow> byte_at m1 x = overlay vma_byte v m x"
    using merge_vma_spec [OF Cons.prems(1) v] by metis
  have ap: "\<forall>w \<in> set vs. apart v w" using Cons.prems(3) by simp
  have "region_free m1 (vregion w)" if w: "w \<in> set vs" for w
  proof -
    have wok: "lo (vregion w) < hi (vregion w)" "region_free m (vregion w)" using Cons.prems(2) w vma_okD(2) by auto
    then have "perms_at m1 x = None" if "lo (vregion w) \<le> x" "x < hi (vregion w)" for x
      using perms [of x] region_free_perms [OF Cons.prems(1) wok(1)] ap w that
      by (auto simp: overlay_def perms_at_look apart_def)
    then show ?thesis using region_free_perms [OF m1(2) wok(1)] by blast
  qed
  then have "\<forall>w \<in> set vs. vma_ok w \<and> region_free m1 (vregion w)" using Cons.prems(2) by simp
  then obtain m' where m': "merge_all vs m1 = Some m'" "vmas_ok m'"
    and perms': "\<And>x. perms_at m' x = over (\<lambda>v x. vperms v) vs (perms_at m1) x"
    and byte': "\<And>x. \<forall>w \<in> set vs. \<not> is_file_backed w \<Longrightarrow> byte_at m' x = over vma_byte vs (byte_at m1) x"
    using Cons.IH [OF m1(2)] Cons.prems(3) by (auto simp del: merge_all.simps)
  have p1: "perms_at m1 = overlay (\<lambda>v x. vperms v) v m" using perms by (intro ext)
  have b1: "byte_at m1 = overlay vma_byte v m" if "\<not> is_file_backed v" using byte [OF that] by (intro ext)
  have "perms_at m' x = over (\<lambda>v x. vperms v) (v # vs) (perms_at m) x" for x
    using perms' [of x] over_overlay [OF ap, of "\<lambda>v x. vperms v" m x] unfolding p1 by (simp add: perms_at_look)
  moreover have "byte_at m' x = over vma_byte (v # vs) (byte_at m) x" if "\<forall>w \<in> set (v # vs). \<not> is_file_backed w" for x
    using byte' [of x] over_overlay [OF ap, of vma_byte m x] b1 that by (simp add: byte_at_look)
  moreover have "merge_all (v # vs) m = Some m'" using m' m1(1) by simp
  ultimately show ?case using m'(2) by blast
qed simp

lemma insert_free_eq:
  assumes "vmas_ok (vmas mm)" and "vma_ok v" and "region_free (vmas mm) (vregion v)"
  shows "insert_and_merge ops v mm = map_option (\<lambda>m. mm\<lparr>vmas := m\<rparr>) (merge_vma (vmas mm) v)"
proof -
  have "unmap_region ops (vregion v) (Some v) mm = Some (Inr [], mm)"
    by (rule unmap_region_free [OF assms(1) _ assms(3)]) (use assms(2) vma_ok_iff in blast)
  then show ?thesis by (cases "merge_vma (vmas mm) v") (simp_all add: insert_and_merge_def)
qed

text \<open>
  \<open>mmap_replacing\<close>, the call behind the system call \<open>mmap\<close>: on a well-formed map it never panics
  and keeps the map well formed. On success every address of the region has the requested
  permissions, and the requested content for anonymous and shared memory, whatever was mapped there
  before; the permissions of every other address are unchanged. A request that may not replace
  anything succeeds only on addresses that were free.
\<close>

lemma mmap_replacing_run:
  assumes ok: "vmas_ok (vmas mm)" and fits: "request_fits req (round_up 4096 (unat len))"
  shows "\<exists>res mm'. mmap_replacing ops req len perms kind name mm = Some (res, mm') \<and> vmas_ok (vmas mm') \<and>
    (\<forall>a pages. res = Inr (a, pages) \<longrightarrow> 4096 dvd unat a \<and> (\<forall>b c. req = Fixed b c \<longrightarrow> a = b) \<and>
       (\<not> request_replaces req \<longrightarrow> (\<forall>x. unat a \<le> x \<and> x < unat a + round_up 4096 (unat len) \<longrightarrow> perms_at (vmas mm) x = None)) \<and>
       (\<forall>x. perms_at (vmas mm') x =
          (if unat a \<le> x \<and> x < unat a + round_up 4096 (unat len) then Some perms else perms_at (vmas mm) x)) \<and>
       ((\<forall>f. kind \<noteq> FileKind f) \<longrightarrow>
          (\<forall>x. unat a \<le> x \<and> x < unat a + round_up 4096 (unat len) \<longrightarrow>
             byte_at (vmas mm') x = Some (vma_byte (vmarea_new (rnew a (of_nat (round_up 4096 (unat len)))) kind perms) x))))"
proof (cases "len = 0 \<or> checked_add len PAGE_MASK = None")
  case True
  then show ?thesis using ok by (auto simp: mmap_replacing_def mmap_impl_def split: option.split)
next
  case False
  then obtain n where n: "checked_add len PAGE_MASK = Some n" and nz: "len \<noteq> 0" by auto
  define m where "m = n AND NOT PAGE_MASK"
  have m: "unat m = round_up 4096 (unat len)" using page_len [OF n] by (simp add: m_def)
  moreover have "0 < unat len" using nz by (simp add: unat_gt_0)
  ultimately have pos: "0 < unat m" "4096 dvd unat m" using round_up_ge [of 4096 "unat len"] by simp_all
  show ?thesis
  proof (cases "choose_region (vmas mm) req m")
    case (Inl e)
    then show ?thesis using n nz ok by (simp add: mmap_replacing_def mmap_impl_def Let_def m_def)
  next
    case (Inr r)
    have fits': "request_fits req (unat m)" using fits m by simp
    note r = choose_region_spec [OF ok pos fits' Inr]
    obtain res mm1 where un: "unmap_region ops r None mm = Some (res, mm1)" "vmas_ok (vmas mm1)"
      "\<And>ps. res = Inr ps \<Longrightarrow> unmapped (vmas mm) r (vmas mm1)" using unmap_region_unmapped [OF ok r(1)] by metis
    show ?thesis
    proof (cases res)
      case err: (Inl e)
      then show ?thesis using n nz un Inr by (simp add: mmap_replacing_def mmap_impl_def Let_def m_def)
    next
      case pages: (Inr ps)
      note gone = un(3) [OF pages]
      obtain mm' where mm': "insert_and_merge ops (set_name (vmarea_new r kind perms) name) mm1 = Some mm'" "vmas_ok (vmas mm')"
        "mapped mm1 (start_address r) (unat (rsize r)) kind perms mm'"
        using place_area [OF un(2) r(1) unmapped_free [OF un(2) r(1) gone], of ops kind perms name] by metis
      have run: "mmap_replacing ops req len perms kind name mm = Some (Inr (start_address r, ps), mm')"
        using n nz un(1) Inr pages mm'(1) by (simp add: mmap_replacing_def mmap_impl_def Let_def m_def)
      have lh: "lo r = unat (start_address r)" "hi r = unat (start_address r) + round_up 4096 (unat len)"
        using r(2) m by (simp_all add: lo_def hi_def start_address_def)
      have "4096 dvd unat (start_address r)" using page_regionD(3) [OF r(1)] lh by simp
      moreover have "mapped mm1 (start_address r) (round_up 4096 (unat len)) kind perms mm'" using mm'(3) r(2) m by simp
      moreover have "\<not> request_replaces req \<longrightarrow> (\<forall>x. lo r \<le> x \<and> x < hi r \<longrightarrow> perms_at (vmas mm) x = None)"
        using r(3) region_free_perms [OF ok page_regionD(2) [OF r(1)]] by blast
      ultimately show ?thesis using run mm'(2) gone r(4) by (auto simp: mapped_def unmapped_def lh)
    qed
  qed
qed

fun insert_all :: "'a address_space_ops \<Rightarrow> vmarea list \<Rightarrow> 'a memory_map \<Rightarrow> 'a memory_map option" where
  "insert_all ops [] mm = Some mm"
| "insert_all ops (v # vs) mm = Option.bind (insert_and_merge ops v mm) (insert_all ops vs)"

lemma merge_keeps_free:
  assumes ok: "vmas_ok m" and v: "vma_ok v" "region_free m (vregion v)" and run: "merge_vma m v = Some m1"
    and w: "vma_ok w" "region_free m (vregion w)" "apart v w"
  shows "vmas_ok m1" and "region_free m1 (vregion w)"
proof -
  show m1: "vmas_ok m1" by (rule merge_vma_run(2) [OF ok v run])
  note lh = vma_okD(2) [OF w(1)]
  have "perms_at m1 x = None" if "lo (vregion w) \<le> x" "x < hi (vregion w)" for x
    using merge_vma_run(3) [OF ok v run joins_perms, of x] region_free_perms [OF ok lh] w(2,3) that
    by (auto simp: overlay_def perms_at_look apart_def)
  then show "region_free m1 (vregion w)" using region_free_perms [OF m1 lh] by blast
qed

lemma insert_all_eq:
  assumes "vmas_ok (vmas mm)" and "\<forall>v \<in> set vs. vma_ok v \<and> region_free (vmas mm) (vregion v)" and "sorted_wrt apart vs"
  shows "insert_all ops vs mm = map_option (\<lambda>m. mm\<lparr>vmas := m\<rparr>) (merge_all vs (vmas mm))"
  using assms
proof (induction vs arbitrary: mm)
  case (Cons v vs)
  have v: "vma_ok v" "region_free (vmas mm) (vregion v)" using Cons.prems by simp_all
  obtain m1 where m1: "merge_vma (vmas mm) v = Some m1" using merge_vma_run(1) [OF Cons.prems(1) v] by blast
  have ok1: "vmas_ok m1" by (rule merge_vma_run(2) [OF Cons.prems(1) v m1])
  have "\<forall>w \<in> set vs. vma_ok w \<and> region_free m1 (vregion w)"
    using merge_keeps_free(2) [OF Cons.prems(1) v m1] Cons.prems(2,3) by simp
  then have "insert_all ops vs (mm\<lparr>vmas := m1\<rparr>) = map_option (\<lambda>m. mm\<lparr>vmas := m\<rparr>) (merge_all vs m1)"
    using Cons.IH [of "mm\<lparr>vmas := m1\<rparr>"] ok1 Cons.prems(3) by (simp add: comp_def)
  then show ?case using insert_free_eq [OF Cons.prems(1) v, of ops] m1 by simp
qed simp

section \<open>Changing permissions\<close>

text \<open>The areas \<open>mprotect\<close> puts back for the area \<open>v\<close> it changes at \<open>r\<close>.\<close>

definition protect_pieces :: "vmarea \<Rightarrow> region \<Rightarrow> VMAPermissions \<Rightarrow> vmarea list" where
  "protect_pieces v r p =
     (if vregion v = r then [v\<lparr>vperms := p\<rparr>]
      else (case fst (punch_hole (vregion v) r) of Some l \<Rightarrow> [shrink_to v l] | None \<Rightarrow> []) @
           [(shrink_to v r)\<lparr>vperms := p\<rparr>] @
           (case snd (punch_hole (vregion v) r) of Some q \<Rightarrow> [shrink_to v q] | None \<Rightarrow> []))"

lemma vma_byte_perms [simp]: "vma_byte (v\<lparr>vperms := p\<rparr>) x = vma_byte v x"
  by (simp add: vma_byte_def)

lemma shrink_to_file: "\<not> is_file_backed v \<Longrightarrow> \<not> is_file_backed (shrink_to v r)"
  by (auto simp: shrink_to_def Let_def is_file_backed_def clone_with_new_region_def split: VMAreaKind.splits)

lemma punch_hole_inside:
  assumes v: "page_region q" and r: "page_region r" and "lo q \<le> lo r" "hi r \<le> hi q"
  shows "fst (punch_hole q r) = (if lo q < lo r then Some (region_of (lo q) (lo r)) else None)"
    and "snd (punch_hole q r) = (if hi r < hi q then Some (region_of (hi r) (hi q)) else None)"
  using assms page_regionD [OF v] page_regionD [OF r] by (simp_all add: punch_hole_eq min_def max_def)

lemma page_region_of:
  assumes "a < b" "b < 18446744073709551616" "4096 dvd a" "4096 dvd b"
  shows "page_region (region_of a b)"
  using assms by (simp add: page_region_def)

lemma protect_pieces_spec:
  fixes p :: VMAPermissions
  assumes v: "vma_ok v" and r: "page_region r" and sub: "lo (vregion v) \<le> lo r" "hi r \<le> hi (vregion v)"
  defines "ps \<equiv> protect_pieces v r p"
  shows "\<forall>w \<in> set ps. vma_ok w \<and> lo (vregion v) \<le> lo (vregion w) \<and> hi (vregion w) \<le> hi (vregion v)"
    and "sorted_wrt apart ps"
    and "over (\<lambda>v x. vperms v) ps g x =
      (if lo r \<le> x \<and> x < hi r then Some p else if covers x v then Some (vperms v) else g x)"
    and "over vma_byte ps h x = (if covers x v then Some (vma_byte v x) else h x)"
    and "\<not> is_file_backed v \<Longrightarrow> \<forall>w \<in> set ps. \<not> is_file_backed w"
proof -
  have q: "page_region (vregion v)" using v vma_ok_iff by blast
  note vD = page_regionD [OF q] and rD = page_regionD [OF r]
  note ph = punch_hole_inside [OF q r sub]
  have lt: "lo r < 18446744073709551616" "hi r < 18446744073709551616" "hi (vregion v) < 18446744073709551616"
    using vD(1) rD(1) by (simp_all add: valid_def)
  have L: "lo (vregion v) < lo r \<Longrightarrow> page_region (region_of (lo (vregion v)) (lo r))"
    and R: "hi r < hi (vregion v) \<Longrightarrow> page_region (region_of (hi r) (hi (vregion v)))"
    using vD rD lt by (simp_all add: page_region_of)
  have sel: "lo (vregion v) < lo r \<Longrightarrow> lo (region_of (lo (vregion v)) (lo r)) = lo (vregion v) \<and> hi (region_of (lo (vregion v)) (lo r)) = lo r"
    "hi r < hi (vregion v) \<Longrightarrow> lo (region_of (hi r) (hi (vregion v))) = hi r \<and> hi (region_of (hi r) (hi (vregion v))) = hi (vregion v)"
    using lt by (simp_all add: region_of_sel)
  have byte: "vma_byte (shrink_to v u) x = vma_byte v x" if "lo (vregion v) \<le> lo u" "lo u \<le> x" "x < hi u" for u
    using shrink_to_byte [OF that(1)] that by (simp add: span_def)
  show "\<forall>w \<in> set ps. vma_ok w \<and> lo (vregion v) \<le> lo (vregion w) \<and> hi (vregion w) \<le> hi (vregion v)"
    using L R r q sel sub rD(2) by (auto simp: ps_def protect_pieces_def ph vma_ok_iff)
  show "sorted_wrt apart ps" using sel rD(2) by (auto simp: ps_def protect_pieces_def ph apart_def)
  show "over (\<lambda>v x. vperms v) ps g x =
      (if lo r \<le> x \<and> x < hi r then Some p else if covers x v then Some (vperms v) else g x)"
    using sel sub rD(2) by (auto simp: ps_def protect_pieces_def ph covers_def)
  show "over vma_byte ps h x = (if covers x v then Some (vma_byte v x) else h x)"
    using sel sub rD(2) byte by (auto simp: ps_def protect_pieces_def ph covers_def)
  show "\<not> is_file_backed v \<Longrightarrow> \<forall>w \<in> set ps. \<not> is_file_backed w"
    using shrink_to_file [of v] by (auto simp: ps_def protect_pieces_def is_file_backed_def split: option.splits)
qed

lemma replace_pieces:
  assumes ok: "vmas_ok m" and v: "v \<in> areas m"
    and ps: "\<forall>w \<in> set ps. vma_ok w \<and> lo (vregion v) \<le> lo (vregion w) \<and> hi (vregion w) \<le> hi (vregion v)"
  shows "\<forall>w \<in> set ps. vma_ok w \<and> region_free (bt_remove (start_address (vregion v)) m) (vregion w)"
proof
  fix w assume w: "w \<in> set ps"
  have "region_free (bt_remove (start_address (vregion v)) m) (vregion v)" by (rule remove_free [OF ok v])
  then have "region_free (bt_remove (start_address (vregion v)) m) (vregion w)"
    using ps w unfolding region_free_def by fastforce
  then show "vma_ok w \<and> region_free (bt_remove (start_address (vregion v)) m) (vregion w)" using ps w by blast
qed

lemma insert_all_fun:
  "insert_all ops [] = Some" "insert_all ops (v # vs) = (\<lambda>mm. Option.bind (insert_and_merge ops v mm) (insert_all ops vs))"
  by (intro ext, simp)+

lemma mprotect_run:
  assumes found: "find_vma (vmas mm) (start_address r) = Some v" and get: "bt_get (start_address (vregion v)) (vmas mm) = Some v"
    and c: "contains (vregion v) r" and al: "region_is_page_aligned r" "rsize r \<noteq> 0"
    and pr: "as_protect_range ops (address_space mm) r (pte_of_vma p) = (Inr u, as)"
  shows "mprotect ops r p mm =
    map_option (Pair (Inr ())) (insert_all ops (protect_pieces v r p)
      \<lparr>vmas = bt_remove (start_address (vregion v)) (vmas mm), address_space = as\<rparr>)"
proof (cases "vregion v = r")
  case True
  then show ?thesis using assms
    by (simp add: mprotect_def protect_pieces_def Let_def insert_all_fun)
next
  case False
  obtain l q where ph: "punch_hole (vregion v) r = (l, q)" by fastforce
  show ?thesis using assms False ph
    by (cases l; cases q)
      (simp_all add: mprotect_def protect_pieces_def Let_def insert_all_fun map_conv_bind_option comp_def)
qed

lemma mprotect_all:
  assumes ok: "vmas_ok (vmas mm)" and r: "valid r" "4096 dvd unat (rsize r)"
  shows "\<exists>res mm'. mprotect ops r p mm = Some (res, mm') \<and> vmas_ok (vmas mm') \<and>
    (case res of
       Inl e \<Rightarrow> vmas mm' = vmas mm
     | Inr _ \<Rightarrow> \<exists>v \<in> areas (vmas mm). lo (vregion v) \<le> lo r \<and> hi r \<le> hi (vregion v) \<and>
         (\<forall>x. perms_at (vmas mm') x = (if lo r \<le> x \<and> x < hi r then Some p else perms_at (vmas mm) x)) \<and>
         (\<not> is_file_backed v \<longrightarrow> (\<forall>x. byte_at (vmas mm') x = byte_at (vmas mm) x)))"
proof (cases "region_is_page_aligned r \<and> rsize r \<noteq> 0")
  case bad: False
  then show ?thesis using ok by (auto simp: mprotect_def)
next
  case al: True
  show ?thesis
  proof (cases "find_vma (vmas mm) (start_address r)")
    case None
    then show ?thesis using ok al by (simp add: mprotect_def)
  next
    case (Some v)
    have v: "v \<in> areas (vmas mm)" "lo (vregion v) \<le> lo r" "lo r < hi (vregion v)"
      using Some find_vma_eq [OF ok] vma_at_iff [OF ok] by (simp_all add: unat_start_address)
    have vok: "vma_ok v" by (rule vmas_okD(3) [OF ok v(1)])
    have get: "bt_get (start_address (vregion v)) (vmas mm) = Some v" using get_area [OF ok] v(1) by blast
    have pr: "page_region r" using al r unfolding page_region_def region_is_page_aligned_def is_page_aligned_dvd
      by (simp add: lo_def hi_def unat_gt_0)
    show ?thesis
    proof (cases "contains (vregion v) r")
      case False
      then show ?thesis using Some get ok al by (simp add: mprotect_def)
    next
      case True
      have hi: "hi r \<le> hi (vregion v)"
        using True contains_iff [of "vregion v" r] r(1) vma_okD(1,2) [OF vok] page_regionD(2) [OF pr] v(2) by (simp add: valid_def)
      obtain res as where p: "as_protect_range ops (address_space mm) r (pte_of_vma p) = (res, as)" by fastforce
      show ?thesis
      proof (cases res)
        case (Inl e)
        then show ?thesis using Some get True ok al p by (simp add: mprotect_def Let_def)
      next
        case (Inr u)
        let ?m = "bt_remove (start_address (vregion v)) (vmas mm)" and ?ps = "protect_pieces v r p"
        note ps = protect_pieces_spec [OF vok pr v(2) hi, where p = p]
        note rm = remove_area(1) [OF ok v(1)] and fr = replace_pieces [OF ok v(1) ps(1)]
        obtain m' where m': "merge_all ?ps ?m = Some m'" "vmas_ok m'"
          "\<forall>x. perms_at m' x = over (\<lambda>v x. vperms v) ?ps (perms_at ?m) x"
          "(\<forall>w \<in> set ?ps. \<not> is_file_backed w) \<longrightarrow> (\<forall>x. byte_at m' x = over vma_byte ?ps (byte_at ?m) x)"
          using merge_all_spec [OF rm fr ps(2)] by blast
        have run: "mprotect ops r p mm = Some (Inr (), \<lparr>vmas = m', address_space = as\<rparr>)"
          using mprotect_run [OF Some get True _ _ p [unfolded Inr]] al m'(1)
            insert_all_eq [of "\<lparr>vmas = ?m, address_space = as\<rparr>" ?ps ops] rm fr ps(2) by simp
        have old: "look f (vmas mm) x = (if covers x v then Some (f v x) else look f ?m x)" for f :: "vmarea \<Rightarrow> nat \<Rightarrow> 'c" and x
          using remove_look [OF ok v(1), of f x] look_area [OF ok v(1), of x f] by (auto simp: covers_def)
        have "perms_at m' x = (if lo r \<le> x \<and> x < hi r then Some p else perms_at (vmas mm) x)" for x
          using m'(3) ps(3) [of "perms_at ?m" x] old [of "\<lambda>v x. vperms v" x] by (simp add: perms_at_look)
        moreover have "byte_at m' x = byte_at (vmas mm) x" if "\<not> is_file_backed v" for x
          using m'(4) ps(5) [OF that] ps(4) [of "byte_at ?m" x] old [of vma_byte x] by (simp add: byte_at_look)
        ultimately show ?thesis using run m'(2) v(1,2) hi by auto
      qed
    qed
  qed
qed

text \<open>
  Claim C12. \<open>mprotect\<close> on a well-formed map and a range that does not wrap around and whose length is
  a multiple of the page size: it never panics, keeps the map
  well formed, and on an error leaves the areas as they were. On success the range lies in one area;
  exactly its addresses get the new permissions, and every byte of an anonymous or shared area
  keeps its source, through the split into up to three areas and the merge with the neighbours.
\<close>

theorem mprotect_correct:
  assumes ok: "vmas_ok (vmas mm)" and r: "valid r" "4096 dvd unat (rsize r)"
  shows "\<exists>res mm'. mprotect ops r p mm = Some (res, mm') \<and> vmas_ok (vmas mm') \<and>
    (case res of
       Inl e \<Rightarrow> vmas mm' = vmas mm
     | Inr _ \<Rightarrow> \<exists>v \<in> areas (vmas mm). lo (vregion v) \<le> lo r \<and> hi r \<le> hi (vregion v) \<and>
         (\<forall>x. perms_at (vmas mm') x = (if lo r \<le> x \<and> x < hi r then Some p else perms_at (vmas mm) x)) \<and>
         (\<not> is_file_backed v \<longrightarrow> (\<forall>x. byte_at (vmas mm') x = byte_at (vmas mm) x)))"
  using assms by (rule mprotect_all)

theorem mprotect_correct_witness:
  "\<exists>mm'. mprotect mock_ops (rnew 0x11000 0x1000) vma_ro mm0 = Some (Inr (), mm') \<and> vma_count mm' = 4 \<and>
     perms_at (vmas mm') 0x11000 = Some vma_ro \<and> perms_at (vmas mm') 0x12000 = perms_at (vmas mm0) 0x12000"
proof -
  define mm' where "mm' = (mm_of [anon_vma 0x10000 0x1000 vma_rw, anon_vma 0x11000 0x1000 vma_ro,
      anon_vma 0x12000 0x1000 vma_rw, file_vma 0x14000 0x2000 0x8000 vma_rx])
        \<lparr>address_space := [ProtectRange (rnew 0x11000 0x1000) (pte_ro True)]\<rparr>"
  have run: "mprotect mock_ops (rnew 0x11000 0x1000) vma_ro mm0 = Some (Inr (), mm')" unfolding mm'_def by code_simp
  have "valid (rnew 0x11000 0x1000)" "4096 dvd unat (rsize (rnew 0x11000 0x1000))" by (simp_all add: valid_def hi_def)
  from mprotect_correct [OF mm0_ok this, of mock_ops vma_ro] run
  have "\<forall>x. perms_at (vmas mm') x = (if 0x11000 \<le> x \<and> x < 0x12000 then Some vma_ro else perms_at (vmas mm0) x)"
    by (auto simp: lo_def [of "rnew _ _"] hi_def [of "rnew _ _"])
  moreover have "vma_count mm' = 4" by (simp add: mm'_def vma_count_def mm_of_def)
  ultimately show ?thesis using run by simp
qed

section \<open>Lookups\<close>

text \<open>
  Claim C24. \<open>find_vma\<close> on a well-formed map returns the area that contains the address, and \<open>None\<close> exactly
  when no area does.
\<close>

theorem find_vma_correct:
  assumes "vmas_ok m"
  shows "find_vma m a = Some v \<longleftrightarrow> v \<in> areas m \<and> unat a \<in> span (vregion v)"
  using find_vma_eq [OF assms] vma_at_iff [OF assms] by (simp add: span_def)

theorem find_vma_correct_witness:
  "find_vma (vmas mm0) 0x15FFF = Some (file_vma 0x14000 0x2000 0x8000 vma_rx) \<and> find_vma (vmas mm0) 0x13000 = None"
proof -
  have "file_vma 0x14000 0x2000 0x8000 vma_rx \<in> areas (vmas mm0) \<and> unat (0x15FFF :: usize) \<in> span (vregion (file_vma 0x14000 0x2000 0x8000 vma_rx))"
    by (simp add: mm0_def example_defs areas_def span_def lo_def hi_def)
  with find_vma_correct [OF mm0_ok] have "find_vma (vmas mm0) 0x15FFF = Some (file_vma 0x14000 0x2000 0x8000 vma_rx)" by blast
  moreover have "find_vma (vmas mm0) 0x13000 = None" by code_simp
  ultimately show ?thesis by simp
qed

lemma find_gap_complete:
  assumes "sorted_wrt (\<lambda>v w. hi (vregion w) \<le> lo (vregion v)) vs" "\<forall>v \<in> set vs. vma_ok v"
    and "a + unat len \<le> unat l" and "\<forall>v \<in> set vs. hi (vregion v) \<le> a \<or> a + unat len \<le> lo (vregion v)"
  shows "find_gap len l vs \<noteq> None"
  using assms
proof (induction len l vs rule: find_gap.induct)
  case (1 len l)
  then show ?case by (simp add: usize_arith)
next
  case (2 len l v vs)
  have ok: "vma_ok v" and dis: "hi (vregion v) \<le> a \<or> a + unat len \<le> lo (vregion v)" using 2 by simp_all
  have e: "unat (end_address (vregion v)) = hi (vregion v)" by (rule unat_end_address [OF vma_okD(1) [OF ok]])
  show ?case
  proof (cases "end_address (vregion v) \<le> l \<and> len \<le> l - end_address (vregion v)")
    case False
    have "a + unat len \<le> lo (vregion v)"
    proof (rule ccontr)
      assume "\<not> a + unat len \<le> lo (vregion v)"
      then have "hi (vregion v) \<le> a" using dis by blast
      then have "hi (vregion v) \<le> unat l" "unat len \<le> unat l - hi (vregion v)" using 2(4) by linarith+
      then show False using False e by (simp add: usize_arith unat_sub_usize)
    qed
    then have "find_gap len (start_address (vregion v)) vs \<noteq> None"
      using 2(1) [OF False] 2(2,3,5) by (simp add: unat_start_address)
    then show ?thesis using False by auto
  qed auto
qed

text \<open>
  Claim C23. \<open>find_free_region\<close> finds a region when there is one: the result is a page-aligned region of
  the requested length that no area meets, and it fails only when every range of that length below
  \<open>MMAP_BASE\<close> meets an area.
\<close>

theorem find_free_region_correct:
  assumes ok: "vmas_ok m" and "0 < unat len" "4096 dvd unat len"
  shows "case find_free_region m len of
      Some r \<Rightarrow> rsize r = len \<and> 4096 dvd lo r \<and> valid r \<and> (\<forall>x \<in> span r. perms_at m x = None)
    | None \<Rightarrow> \<forall>a. a + unat len \<le> unat MMAP_BASE \<longrightarrow> (\<exists>x. a \<le> x \<and> x < a + unat len \<and> perms_at m x \<noteq> None)"
proof (cases "find_free_region m len")
  case (Some r)
  note r = find_free_region_spec [OF ok Some assms(2,3)]
  show ?thesis using Some r region_free_perms [OF ok r(2)] by (simp add: span_def)
next
  case None
  have "\<exists>x. a \<le> x \<and> x < a + unat len \<and> perms_at m x \<noteq> None" if a: "a + unat len \<le> unat MMAP_BASE" for a
  proof (rule ccontr)
    assume no: "\<nexists>x. a \<le> x \<and> x < a + unat len \<and> perms_at m x \<noteq> None"
    have "\<forall>v \<in> set (map snd (rev m)). hi (vregion v) \<le> a \<or> a + unat len \<le> lo (vregion v)"
    proof
      fix v assume "v \<in> set (map snd (rev m))"
      then have v: "v \<in> areas m" by (simp add: areas_def)
      have "hi (vregion v) \<le> a \<or> a + unat len \<le> lo (vregion v) \<or>
          (lo (vregion v) \<le> max a (lo (vregion v)) \<and> max a (lo (vregion v)) < hi (vregion v) \<and> max a (lo (vregion v)) < a + unat len)"
        using vma_okD(2) [OF vmas_okD(3) [OF ok v]] assms(2) by linarith
      moreover have "perms_at m (max a (lo (vregion v))) \<noteq> None"
        if "lo (vregion v) \<le> max a (lo (vregion v))" "max a (lo (vregion v)) < hi (vregion v)"
        using v that unfolding perms_at_None vma_at_None by blast
      ultimately show "hi (vregion v) \<le> a \<or> a + unat len \<le> lo (vregion v)" using no by (meson max.cobounded1)
    qed
    moreover have "\<forall>v \<in> set (map snd (rev m)). vma_ok v" using vmas_okD(3) [OF ok] by (simp add: areas_def)
    ultimately show False using find_gap_complete [OF rev_areas_sorted [OF ok] _ a] None by (simp add: find_free_region_def)
  qed
  then show ?thesis using None by simp
qed

theorem find_free_region_correct_witness:
  "\<exists>r. find_free_region (vmas mm0) 0x2000 = Some r \<and> (\<forall>x \<in> span r. perms_at (vmas mm0) x = None)"
proof -
  have "find_free_region (vmas mm0) 0x2000 = Some (rnew 0x3FFFFFFFE000 0x2000)" by code_simp
  moreover have "0 < unat (0x2000 :: usize)" "4096 dvd unat (0x2000 :: usize)" by simp_all
  ultimately show ?thesis using find_free_region_correct [OF mm0_ok, of "0x2000"] by simp
qed

section \<open>Remapping\<close>

lemma unat_align_len:
  assumes "unat n + 4095 < 2 ^ 64"
  shows "unat (align_len n) = round_up 4096 (unat n)"
proof (cases "n AND PAGE_MASK = 0")
  case True
  then have "unat n mod 4096 = 0" using unat_and_PAGE_MASK [of n] by simp
  then have "round_up 4096 (unat n) = unat n" by (auto simp: round_up_def elim!: dvdE simp flip: dvd_eq_mod_eq_0)
  then show ?thesis using True by (simp add: align_len_def)
next
  case False
  then have nz: "unat n mod 4096 \<noteq> 0" using unat_and_PAGE_MASK [of n] by (metis unat_eq_0)
  have d: "unat (n AND NOT PAGE_MASK) = unat n div 4096 * 4096"
    using unat_page_aligned [of n] by (simp add: page_aligned_def round_down_def)
  define k j where "k = unat n div 4096" and "j = unat n mod 4096"
  have n: "unat n = j + k * 4096" and j: "0 < j" "j < 4096" using nz by (simp_all add: k_def j_def)
  have "(j + k * 4096 + 4095) div 4096 = k + (j + 4095) div 4096"
    using div_mult_self1 [of 4096 "j + 4095" k] by (simp add: ac_simps)
  moreover have "(j + 4095) div 4096 = 1" using j by (simp add: div_nat_eqI)
  ultimately have up: "round_up 4096 (unat n) = k * 4096 + 4096" by (simp add: round_up_def n)
  have "k * 4096 + 4096 < 2 ^ 64" using assms j n by linarith
  then show ?thesis using False up d by (simp add: align_len_def unat_add_usize PAGE_SIZE_def k_def)
qed

end
