(* ===== verification/Mremap.thy ===== *)
theory Mremap
  imports Memory_Map_Props
begin

text \<open>
  The correctness of \<open>mremap\<close>: resizing a part of an area in place, and moving it.
\<close>

section \<open>The pieces of the remapped area\<close>

lemma merge_all_append: "merge_all (xs @ ys) m = Option.bind (merge_all xs m) (merge_all ys)"
proof (induction xs arbitrary: m)
  case (Cons v xs)
  then show ?case by (cases "merge_vma m v") simp_all
qed simp

lemma merge_all_single: "merge_all [v] m = merge_vma m v"
  by (cases "merge_vma m v") simp_all

definition left_piece :: "vmarea \<Rightarrow> region \<Rightarrow> vmarea list" where
  "left_piece v old = (if lo (vregion v) < lo old then [shrink_to v (region_of (lo (vregion v)) (lo old))] else [])"

definition right_piece :: "vmarea \<Rightarrow> region \<Rightarrow> vmarea list" where
  "right_piece v old = (if hi old < hi (vregion v) then [shrink_to v (region_of (hi old) (hi (vregion v)))] else [])"

lemma merge_left_eq: "merge_left v old m = merge_all (left_piece v old) m"
  by (simp only: merge_left_def left_piece_def start_less from_start_end_address_eq unat_start_address)
    (simp add: merge_all_single del: merge_all.simps(2))

lemma merge_right_eq:
  assumes "valid old" "valid (vregion v)"
  shows "merge_right v old m = merge_all (right_piece v old) m"
proof -
  have "end_address old < end_address (vregion v) \<longleftrightarrow> hi old < hi (vregion v)"
    using assms by (simp add: usize_arith region_defs)
  then show ?thesis
    using assms by (simp add: merge_right_def right_piece_def from_start_end_address_eq unat_end_address merge_all_single
        del: merge_all.simps(2))
qed

text \<open>The old region, a part of its area.\<close>

definition part_of :: "region \<Rightarrow> vmarea \<Rightarrow> bool" where
  "part_of r v \<longleftrightarrow> page_region r \<and> lo (vregion v) \<le> lo r \<and> hi r \<le> hi (vregion v)"

lemma side_pieces:
  assumes v: "vma_ok v" and old: "part_of old v"
  shows "w \<in> set (left_piece v old) \<Longrightarrow> vma_ok w \<and> lo (vregion w) = lo (vregion v) \<and> hi (vregion w) = lo old"
    and "w \<in> set (right_piece v old) \<Longrightarrow> vma_ok w \<and> lo (vregion w) = hi old \<and> hi (vregion w) = hi (vregion v)"
    and "over (\<lambda>v x. vperms v) (left_piece v old) g x =
      (if lo (vregion v) \<le> x \<and> x < lo old then Some (vperms v) else g x)"
    and "over (\<lambda>v x. vperms v) (right_piece v old) g x =
      (if hi old \<le> x \<and> x < hi (vregion v) then Some (vperms v) else g x)"
    and "\<not> is_file_backed v \<Longrightarrow> \<forall>w \<in> set (left_piece v old @ right_piece v old). \<not> is_file_backed w"
    and "lo old \<le> x \<Longrightarrow> x < hi old \<Longrightarrow> over f (left_piece v old) h x = h x"
    and "lo old \<le> x \<Longrightarrow> x < hi old \<Longrightarrow> over f (right_piece v old) h x = h x"
proof -
  note vD = vma_okD [OF v]
  have o: "valid old" "lo old < hi old" "4096 dvd lo old" "4096 dvd hi old" "lo (vregion v) \<le> lo old" "hi old \<le> hi (vregion v)"
    using old by (simp_all add: part_of_def page_region_def)
  have lt: "lo old < 18446744073709551616" "hi (vregion v) < 18446744073709551616" using vD(1) by (simp_all add: valid_def)
  have L: "lo (vregion v) < lo old \<Longrightarrow> lo (region_of (lo (vregion v)) (lo old)) = lo (vregion v) \<and>
      hi (region_of (lo (vregion v)) (lo old)) = lo old \<and> page_region (region_of (lo (vregion v)) (lo old))"
    and R: "hi old < hi (vregion v) \<Longrightarrow> lo (region_of (hi old) (hi (vregion v))) = hi old \<and>
      hi (region_of (hi old) (hi (vregion v))) = hi (vregion v) \<and> page_region (region_of (hi old) (hi (vregion v)))"
    using lt vD o by (simp_all add: page_region_of)
  show "w \<in> set (left_piece v old) \<Longrightarrow> vma_ok w \<and> lo (vregion w) = lo (vregion v) \<and> hi (vregion w) = lo old"
    using L by (auto simp: left_piece_def vma_ok_iff split: if_splits)
  show "w \<in> set (right_piece v old) \<Longrightarrow> vma_ok w \<and> lo (vregion w) = hi old \<and> hi (vregion w) = hi (vregion v)"
    using R by (auto simp: right_piece_def vma_ok_iff split: if_splits)
  show "over (\<lambda>v x. vperms v) (left_piece v old) g x = (if lo (vregion v) \<le> x \<and> x < lo old then Some (vperms v) else g x)"
    using L o by (auto simp: left_piece_def covers_def)
  show "over (\<lambda>v x. vperms v) (right_piece v old) g x = (if hi old \<le> x \<and> x < hi (vregion v) then Some (vperms v) else g x)"
    using R o by (auto simp: right_piece_def covers_def)
  show "\<not> is_file_backed v \<Longrightarrow> \<forall>w \<in> set (left_piece v old @ right_piece v old). \<not> is_file_backed w"
    using shrink_to_file [of v] by (auto simp: left_piece_def right_piece_def)
  show "lo old \<le> x \<Longrightarrow> x < hi old \<Longrightarrow> over f (left_piece v old) h x = h x" using L by (auto simp: left_piece_def covers_def)
  show "lo old \<le> x \<Longrightarrow> x < hi old \<Longrightarrow> over f (right_piece v old) h x = h x" using R by (auto simp: right_piece_def covers_def)
qed

lemma over_append: "over f (xs @ ys) g x = over f xs (over f ys g) x"
  by (induction xs) simp_all

lemma over_cong: "g x = h x \<Longrightarrow> over f vs g x = over f vs h x"
  by (simp add: over_def split: option.split)

lemma over_skip: "\<forall>u \<in> set vs. \<not> covers x u \<Longrightarrow> over f vs g x = g x"
  by (induction vs) simp_all

lemma relocate_sel [simp]:
  "vregion (relocate_vma v r) = r" "vperms (relocate_vma v r) = vperms v"
  "is_file_backed (relocate_vma v r) = is_file_backed v"
  by (simp_all add: relocate_vma_def Let_def is_file_backed_def split: VMAreaKind.split)

text \<open>The remapped area, \<open>w\<close> with the region \<open>new\<close>, and the sides of the old one around it.\<close>

lemma remap_pieces:
  assumes ok: "vmas_ok m" and v: "v \<in> areas m" and old: "part_of old v"
    and w: "vma_ok w" "vperms w = vperms v" "is_file_backed v \<or> \<not> is_file_backed w"
    and free: "region_free (bt_remove (start_address (vregion v)) m) (vregion w)"
    and sides: "\<forall>u \<in> set (left_piece v old @ right_piece v old). apart u w"
    and ps: "ps = left_piece v old @ [w] @ right_piece v old \<or> ps = left_piece v old @ right_piece v old @ [w]"
  obtains m' where "merge_all ps (bt_remove (start_address (vregion v)) m) = Some m'" "vmas_ok m'"
    "\<And>x. perms_at m' x = (if covers x w then Some (vperms v) else if lo old \<le> x \<and> x < hi old then None else perms_at m x)"
    "\<And>x. \<not> is_file_backed v \<Longrightarrow> covers x w \<Longrightarrow> byte_at m' x = Some (vma_byte w x)"
proof -
  let ?m = "bt_remove (start_address (vregion v)) m" and ?L = "left_piece v old" and ?R = "right_piece v old"
  have vok: "vma_ok v" by (rule vmas_okD(3) [OF ok v])
  note sd = side_pieces [OF vok old] and rm = remove_area(1) [OF ok v]
  have o: "lo old < hi old" "lo (vregion v) \<le> lo old" "hi old \<le> hi (vregion v)" using old by (simp_all add: part_of_def page_region_def)
  have set: "set ps = insert w (set ?L \<union> set ?R)" using ps by auto
  have "\<forall>u \<in> set (?L @ ?R). vma_ok u \<and> lo (vregion v) \<le> lo (vregion u) \<and> hi (vregion u) \<le> hi (vregion v)"
    using sd(1,2) o by fastforce
  then have fr: "\<forall>u \<in> set ps. vma_ok u \<and> region_free ?m (vregion u)"
    using replace_pieces [OF ok v, of "?L @ ?R"] w(1) free unfolding set by auto
  have LR: "\<forall>u \<in> set ?L. \<forall>z \<in> set ?R. apart u z" using sd(1,2) o by (fastforce simp: apart_def)
  have srt: "sorted_wrt apart ?L" "sorted_wrt apart ?R" by (simp_all add: left_piece_def right_piece_def)
  have ap: "sorted_wrt apart ps" using ps LR srt sides apart_sym [of _ w] by (auto simp: sorted_wrt_append)
  obtain m' where m': "merge_all ps ?m = Some m'" "vmas_ok m'"
    and perms: "\<forall>x. perms_at m' x = over (\<lambda>v x. vperms v) ps (perms_at ?m) x"
    and byte: "(\<forall>w \<in> set ps. \<not> is_file_backed w) \<longrightarrow> (\<forall>x. byte_at m' x = over vma_byte ps (byte_at ?m) x)"
    using merge_all_spec [OF rm fr ap] by blast
  have hit: "over f ps g x = Some (f w x)" if c: "covers x w" for f :: "vmarea \<Rightarrow> nat \<Rightarrow> 'c" and g x
  proof -
    have "\<not> covers x u" if "u \<in> set (?L @ ?R)" for u using bspec [OF sides that] c by (auto simp: apart_def covers_def)
    then have "over f ?L h x = h x" "over f ?R h x = h x" for h by (auto intro!: over_skip)
    then show ?thesis using ps c by (auto simp: over_append)
  qed
  have miss: "over f ps g x = over f ?L (over f ?R g) x" if "\<not> covers x w" for f :: "vmarea \<Rightarrow> nat \<Rightarrow> 'c" and g x
    using ps that by (auto simp: over_append intro!: over_cong)
  have old_look: "perms_at m x = (if covers x v then Some (vperms v) else perms_at ?m x)" for x
    using remove_look [OF ok v, of "\<lambda>v x. vperms v" x] look_area [OF ok v, of x "\<lambda>v x. vperms v"] by (auto simp: covers_def perms_at_look)
  have gone: "perms_at ?m x = None" if "covers x v" for x
    using that remove_look [OF ok v, of "\<lambda>v x. vperms v" x] by (auto simp: covers_def perms_at_look)
  show thesis
  proof (rule that [OF m'])
    fix x
    show "perms_at m' x = (if covers x w then Some (vperms v) else if lo old \<le> x \<and> x < hi old then None else perms_at m x)"
      using perms hit [of x "\<lambda>v x. vperms v" "perms_at ?m"] miss [of x "\<lambda>v x. vperms v" "perms_at ?m"] w(2) old_look [of x] gone [of x] sd(3,4) o
      by (auto simp: covers_def)
    show "byte_at m' x = Some (vma_byte w x)" if "\<not> is_file_backed v" "covers x w"
      using byte sd(5) [OF that(1)] w(3) that hit [OF that(2), of vma_byte] unfolding set by auto
  qed
qed

section \<open>Resizing in place\<close>

definition remapped :: "vmas \<Rightarrow> vmarea \<Rightarrow> region \<Rightarrow> region \<Rightarrow> vmas \<Rightarrow> bool" where
  "remapped m v old new m' \<longleftrightarrow>
     (\<forall>x. perms_at m' x =
        (if lo new \<le> x \<and> x < hi new then Some (vperms v)
         else if lo old \<le> x \<and> x < hi old then None else perms_at m x)) \<and>
     (\<not> is_file_backed v \<longrightarrow>
        (\<forall>i. i < hi old - lo old \<and> i < hi new - lo new \<longrightarrow> byte_at m' (lo new + i) = byte_at m (lo old + i)))"

lemma byte_at_area:
  assumes "vmas_ok m" "v \<in> areas m" "lo (vregion v) \<le> x" "x < hi (vregion v)"
  shows "byte_at m x = Some (vma_byte v x)"
  using look_area [OF assms] by (simp add: byte_at_look)

lemma start_plus:
  assumes "unat a + unat n < 2 ^ 64"
  shows "lo (rnew a n) = unat a" "hi (rnew a n) = unat a + unat n" "unat (end_address (rnew a n)) = unat a + unat n"
    "valid (rnew a n)"
  using assms by (simp_all add: lo_def hi_def valid_def end_address_def unat_add_usize)

lemma shrink_in_place_spec:
  assumes ok: "vmas_ok (vmas mm)" and v: "v \<in> areas (vmas mm)" and old: "part_of old v"
    and n: "0 < unat n" "4096 dvd unat n" "unat n \<le> hi old - lo old"
  obtains res mm' where "shrink_in_place ops v old n mm = Some (res, mm')" "vmas_ok (vmas mm')"
    "\<And>a ps. res = Inr (a, ps) \<Longrightarrow> a = start_address old \<and> remapped (vmas mm) v old (rnew (start_address old) n) (vmas mm')"
proof -
  let ?new = "rnew (start_address old) n"
  have o: "page_region old" "lo (vregion v) \<le> lo old" "hi old \<le> hi (vregion v)" using old by (simp_all add: part_of_def)
  note oD = page_regionD [OF o(1)]
  have vok: "vma_ok v" by (rule vmas_okD(3) [OF ok v])
  have "unat (start_address old) + unat n < 2 ^ 64" using n(3) oD(1) lo_le_hi [of old] unfolding unat_start_address valid_def by linarith
  note nw = start_plus [OF this, unfolded unat_start_address]
  have le: "lo old + unat n \<le> hi old" using n(3) lo_le_hi [of old] by linarith
  have pn: "page_region ?new" using nw n oD(3) by (simp add: page_region_def)
  have rr: "from_start_end_address (end_address ?new) (end_address old) = Some (region_of (lo old + unat n) (hi old))"
    using le by (simp add: from_start_end_address_eq nw(3) unat_end_address [OF oD(1)])
  obtain res as where u: "as_unmap_range ops (address_space mm) (region_of (lo old + unat n) (hi old)) = (res, as)" by fastforce
  show thesis
  proof (cases res)
    case (Inl e)
    then show thesis using that [of "Inl e" "mm\<lparr>address_space := as\<rparr>"] ok rr u by (simp add: shrink_in_place_def Let_def)
  next
    case (Inr freed)
    let ?w = "shrink_to v ?new" and ?m = "bt_remove (start_address (vregion v)) (vmas mm)"
    let ?ps = "left_piece v old @ [?w] @ right_piece v old"
    have get: "bt_get (start_address (vregion v)) (vmas mm) = Some v" using get_area [OF ok] v by blast
    have run: "shrink_in_place ops v old n mm =
        map_option (\<lambda>m. (Inr (start_address old, freed), \<lparr>vmas = m, address_space = as\<rparr>)) (merge_all ?ps ?m)"
      using rr u Inr get by (simp add: shrink_in_place_def Let_def merge_left_eq
          merge_right_eq [OF oD(1) vma_okD(1) [OF vok]] merge_all_append map_conv_bind_option comp_def)
    have wok: "vma_ok ?w" using pn by (simp add: vma_ok_iff)
    have sides: "\<forall>u \<in> set (left_piece v old @ right_piece v old). apart u ?w"
      using side_pieces(1,2) [OF vok old] nw le by (fastforce simp: apart_def)
    have free: "region_free ?m (vregion ?w)"
      using replace_pieces [OF ok v, of "[?w]"] wok nw o le by simp
    obtain m' where m': "merge_all ?ps ?m = Some m'" "vmas_ok m'"
      and perms: "\<And>x. perms_at m' x = (if covers x ?w then Some (vperms v) else if lo old \<le> x \<and> x < hi old then None else perms_at (vmas mm) x)"
      and byte: "\<And>x. \<not> is_file_backed v \<Longrightarrow> covers x ?w \<Longrightarrow> byte_at m' x = Some (vma_byte ?w x)"
      by (rule remap_pieces [OF ok v old wok _ _ free sides, of ?ps]) (use shrink_to_file [of v ?new] in auto)
    have "byte_at m' (lo ?new + i) = byte_at (vmas mm) (lo old + i)"
      if "\<not> is_file_backed v" "i < hi old - lo old" "i < hi ?new - lo ?new" for i
    proof -
      have c: "covers (lo ?new + i) ?w" using that(3) by (simp add: covers_def)
      have "vma_byte ?w (lo ?new + i) = vma_byte v (lo old + i)"
        using shrink_to_byte [of v ?new "lo ?new + i"] that(3) nw(1) o(2) by (simp add: span_def)
      moreover have "byte_at (vmas mm) (lo old + i) = Some (vma_byte v (lo old + i))"
        using that(2) o by (intro byte_at_area [OF ok v]) linarith+
      ultimately show ?thesis using byte [OF that(1) c] by simp
    qed
    then have "remapped (vmas mm) v old ?new m'" using perms by (simp add: remapped_def covers_def)
    then show thesis using that run m' by simp
  qed
qed

lemma expand_in_place_spec:
  assumes ok: "vmas_ok (vmas mm)" and v: "v \<in> areas (vmas mm)" and old: "part_of old v"
    and n: "4096 dvd unat n" "hi old - lo old \<le> unat n" "lo old + unat n < 2 ^ 64"
    and can: "can_expand_in_place (vmas mm) v old n = Some True"
  obtains mm' where "expand_in_place v old n mm = Some (Inr (start_address old, []), mm')" "vmas_ok (vmas mm')"
    "remapped (vmas mm) v old (rnew (start_address old) n) (vmas mm')"
proof -
  let ?new = "rnew (start_address old) n"
  have o: "page_region old" "lo (vregion v) \<le> lo old" "hi old \<le> hi (vregion v)" using old by (simp_all add: part_of_def)
  note oD = page_regionD [OF o(1)]
  have vok: "vma_ok v" by (rule vmas_okD(3) [OF ok v])
  note vD = vma_okD [OF vok]
  note nw = start_plus [of "start_address old" n, unfolded unat_start_address, OF n(3)]
  have ne: "unat (add_bytes (start_address old) n) = lo old + unat n"
    using n(3) by (simp add: add_bytes_def unat_add_usize unat_start_address)
  have ve: "unat (end_address (vregion v)) = hi (vregion v)" by (rule unat_end_address [OF vD(1)])
  have le: "hi old \<le> lo old + unat n" using n(2) lo_le_hi [of old] by linarith
  show thesis
  proof (cases "lo old + unat n \<le> hi (vregion v)")
    case True
    then have run: "expand_in_place v old n mm = Some (Inr (start_address old, []), mm)"
      using ne ve by (simp add: expand_in_place_def Let_def usize_arith)
    have "perms_at (vmas mm) x = Some (vperms v)" if "lo ?new \<le> x" "x < hi ?new" for x
      using look_area [OF ok v, of x "\<lambda>v x. vperms v"] that True o nw by (simp add: perms_at_look)
    then have "remapped (vmas mm) v old ?new (vmas mm)" using nw le by (auto simp: remapped_def)
    then show thesis using that run ok by blast
  next
    case False
    let ?r = "region_of (lo (vregion v)) (lo old + unat n)" and ?m = "bt_remove (start_address (vregion v)) (vmas mm)"
    let ?x = "region_of (hi (vregion v)) (lo old + unat n)"
    let ?w = "v\<lparr>vregion := ?r\<rparr>"
    have r: "lo ?r = lo (vregion v)" "hi ?r = lo old + unat n" "page_region ?r"
      using False n oD vD(2,3) by (simp_all add: page_region_of dvd_add)
    have x: "lo ?x = hi (vregion v)" "hi ?x = lo old + unat n" "valid ?x" using False n(3) by simp_all
    have "is_region_free (vmas mm) ?x"
      using can False ne ve by (simp add: can_expand_in_place_def Let_def usize_arith from_start_end_address_eq)
    then have fx: "region_free (vmas mm) ?x" using is_region_free_eq [OF ok x(3)] False x by simp
    have free: "region_free ?m (vregion ?w)"
      unfolding region_free_def
    proof
      fix u assume "u \<in> areas ?m"
      then have u: "u \<in> areas (vmas mm)" "u \<noteq> v" using remove_area(2) [OF ok v] by auto
      have "apart v u" using vmas_okD(4) [OF ok v u(1)] u(2) by blast
      moreover have "hi (vregion u) \<le> hi (vregion v) \<or> lo old + unat n \<le> lo (vregion u)" using fx u(1) x by (auto simp: region_free_def)
      ultimately show "hi (vregion u) \<le> lo (vregion ?w) \<or> hi (vregion ?w) \<le> lo (vregion u)"
        using r vma_okD(2) [OF vmas_okD(3) [OF ok u(1)]] by (auto simp: apart_def)
    qed
    have wok: "vma_ok ?w" using r(3) by (simp add: vma_ok_iff)
    obtain m' where m': "merge_vma ?m ?w = Some m'" "vmas_ok m'"
      and perms: "\<And>x. perms_at m' x = overlay (\<lambda>v x. vperms v) ?w ?m x"
      and byte: "\<And>x. \<not> is_file_backed ?w \<Longrightarrow> byte_at m' x = overlay vma_byte ?w ?m x"
      using merge_vma_spec [OF remove_area(1) [OF ok v] wok free] by metis
    have get: "bt_get (start_address (vregion v)) (vmas mm) = Some v" using get_area [OF ok] v by blast
    have "from_start_end_address (start_address (vregion v)) (add_bytes (start_address old) n) = Some ?r"
      using ne o(2) by (simp add: from_start_end_address_eq unat_start_address)
    then have run: "expand_in_place v old n mm = Some (Inr (start_address old, []), mm\<lparr>vmas := m'\<rparr>)"
      using ne ve False get m'(1) by (simp add: expand_in_place_def Let_def usize_arith)
    have "perms_at m' x = (if lo ?new \<le> x \<and> x < hi ?new then Some (vperms v)
        else if lo old \<le> x \<and> x < hi old then None else perms_at (vmas mm) x)" for x
      using perms [of x] remove_look [OF ok v, of "\<lambda>v x. vperms v" x] look_area [OF ok v, of x "\<lambda>v x. vperms v"] r nw le o False oD(2)
      by (cases "lo old \<le> x"; cases "x < hi (vregion v)") (auto simp: overlay_def perms_at_look)
    moreover have "byte_at m' (lo ?new + i) = byte_at (vmas mm) (lo old + i)"
      if "\<not> is_file_backed v" "i < hi old - lo old" for i
      using byte [of "lo ?new + i"] byte_at_area [OF ok v, of "lo old + i"] that r nw o False
      by (auto simp: overlay_def vma_byte_def is_file_backed_def Let_def)
    ultimately have "remapped (vmas mm) v old ?new m'" by (simp add: remapped_def)
    then show thesis using that [of "mm\<lparr>vmas := m'\<rparr>"] run m'(2) by simp
  qed
qed

section \<open>Moving\<close>

lemma unmap_vmas_keeps:
  assumes r: "page_region r" and "vmas_ok (vmas mm)" and "distinct vs"
    and "\<forall>v \<in> set vs. v \<in> areas (vmas mm) \<and> meets r v"
    and "unmap_vmas ops r new_vma vs pages mm = Some (res, mm')" and "w \<in> areas (vmas mm)" "w \<notin> set vs"
  shows "w \<in> areas (vmas mm')"
  using assms(2-)
proof (induction vs arbitrary: pages mm)
  case (Cons v vs)
  let ?m = "bt_remove (start_address (vregion v)) (vmas mm)"
  have v: "v \<in> areas (vmas mm)" "meets r v" using Cons.prems by simp_all
  have get: "bt_get (start_address (vregion v)) (vmas mm) = Some v" using get_area [OF Cons.prems(1)] v by blast
  note cut = cut_area [OF Cons.prems(1) r v] and rm = remove_area(2) [OF Cons.prems(1) v(1)]
  obtain rs as where fu: "fixup_pg_tables ops (address_space mm) r v new_vma = (rs, as)" by fastforce
  show ?case
  proof (cases rs)
    case (Inl e)
    have "mm' = \<lparr>vmas = ?m, address_space = as\<rparr>" using Inl Cons.prems(4) get fu by (simp add: Let_def)
    moreover have "w \<noteq> v" using Cons.prems(6) by auto
    ultimately show ?thesis using rm Cons.prems(5) by simp
  next
    case (Inr ps)
    then have run: "unmap_vmas ops r new_vma vs (pages @ ps) \<lparr>vmas = remainders r v ?m, address_space = as\<rparr> = Some (res, mm')"
      using Cons.prems(4) get fu by (simp add: Let_def)
    have "\<forall>u \<in> set vs. u \<in> areas (remainders r v ?m) \<and> meets r u" using cut(2) Cons.prems(2,3) by auto
    moreover have "w \<in> areas (remainders r v ?m)" "w \<notin> set vs" using cut(2) Cons.prems(5,6) by auto
    ultimately show ?thesis using Cons.IH [OF _ _ _ run] cut(1) Cons.prems(2) by simp
  qed
qed simp

lemma move_byte:
  assumes "\<not> is_file_backed v" "lo (vregion v) \<le> lo old" "i < hi old - lo old"
  shows "vma_byte (relocate_vma (shrink_to v old) new) (lo new + i) = vma_byte v (lo old + i)"
proof -
  have "vma_byte (shrink_to v old) (lo old + i) = vma_byte v (lo old + i)"
    using assms by (intro shrink_to_byte) (simp_all add: span_def)
  moreover have "vma_byte (relocate_vma u new) (lo new + i) = vma_byte u (lo old + i)" if "\<not> is_file_backed u" "vregion u = old" for u
    using that by (cases "vkind u") (simp_all add: vma_byte_def relocate_vma_def Let_def is_file_backed_def)
  ultimately show ?thesis using shrink_to_file [OF assms(1), of old] by simp
qed

text \<open>The target of a move: unmapped first, or free already.\<close>

lemma move_target:
  assumes ok: "vmas_ok (vmas mm)" and v: "v \<in> areas (vmas mm)" and new: "page_region new"
    and ap: "hi (vregion v) \<le> lo new \<or> hi new \<le> lo (vregion v)" and free: "clobber \<or> region_free (vmas mm) new"
  obtains res mm1 where "(if clobber then unmap_region ops new None mm else Some (Inr [], mm)) = Some (res, mm1)" "vmas_ok (vmas mm1)"
    "v \<in> areas (vmas mm1)"
    "\<And>ps. res = Inr ps \<Longrightarrow> region_free (vmas mm1) new"
    "\<And>ps x. res = Inr ps \<Longrightarrow> \<not> (lo new \<le> x \<and> x < hi new) \<Longrightarrow> perms_at (vmas mm1) x = perms_at (vmas mm) x"
proof (cases clobber)
  case True
  obtain res mm1 where u: "unmap_region ops new None mm = Some (res, mm1)" "vmas_ok (vmas mm1)"
    and un: "\<And>ps. res = Inr ps \<Longrightarrow> unmapped (vmas mm) new (vmas mm1)" using unmap_region_unmapped [OF ok new] by metis
  note aff = affected_vmas [OF ok new]
  have "v \<notin> set (affected_vmas (vmas mm) new)" unfolding aff(1) using ap by (auto simp: meets_def)
  then have "v \<in> areas (vmas mm1)"
    using unmap_vmas_keeps [OF new ok aff(2) _ u(1) [unfolded unmap_region_def] v] aff(1) by blast
  moreover have "region_free (vmas mm1) new" if "res = Inr ps" for ps by (rule unmapped_free [OF u(2) new un [OF that]])
  moreover have "perms_at (vmas mm1) x = perms_at (vmas mm) x" if "res = Inr ps" "\<not> (lo new \<le> x \<and> x < hi new)" for ps x
    using un [OF that(1)] that(2) by (auto simp: unmapped_def)
  ultimately show thesis using that u True by simp
next
  case False
  then show thesis using that [of "Inr []" mm] ok v free by simp
qed

lemma unmap_tail_Some:
  assumes "page_region old"
  obtains res as' where "unmap_tail ops old (min (rsize old) n) as = Some (res, as')"
proof (cases "rsize old > min (rsize old) n")
  case True
  then have "\<not> rsize old \<le> n" by (auto simp: min_def)
  then have n: "min (rsize old) n = n" "unat n < unat (rsize old)" by (simp_all add: min_def usize_order)
  have "unat (add_bytes (start_address old) n) = lo old + unat n"
    using n(2) page_regionD(1) [OF assms] by (simp add: add_bytes_def unat_add_usize unat_start_address valid_def hi_def lo_def)
  then have "\<exists>q. from_start_end_address (add_bytes (start_address old) n) (end_address old) = Some q"
    using n(2) unat_end_address [OF page_regionD(1) [OF assms]] by (simp add: from_start_end_address_eq hi_def lo_def)
  then obtain q where "from_start_end_address (add_bytes (start_address old) n) (end_address old) = Some q" by blast
  then have "unmap_tail ops old (min (rsize old) n) as = Some (as_unmap_range ops as q)" using True n(1) by (simp add: unmap_tail_def)
  then show thesis using that by (metis surj_pair)
next
  case False
  then have "unmap_tail ops old (min (rsize old) n) as = Some (Inr [], as)" by (simp only: unmap_tail_def if_False)
  then show thesis using that by blast
qed

text \<open>
  The only panic of a move: a page of the range cannot be mapped at its new place, and the \<open>unmap\<close>
  of one of the pages mapped before it panics.
\<close>

definition rollback_panics :: "'a address_space_ops \<Rightarrow> bool" where
  "rollback_panics ops \<longleftrightarrow>
     (\<exists>ps as e pages as'. move_pages ops ps [] as = (Inl (e, pages), as') \<and> unmap_pages ops pages as' = None)"

lemma move_frames_None: "move_frames ops old new n as = None \<Longrightarrow> rollback_panics ops"
  unfolding move_frames_def rollback_panics_def Let_def by (auto split: if_splits prod.splits sum.splits) blast

lemma move_spec:
  assumes ok: "vmas_ok (vmas mm)" and v: "v \<in> areas (vmas mm)" and old: "part_of old v" and new: "page_region new"
    and ap: "hi (vregion v) \<le> lo new \<or> hi new \<le> lo (vregion v)" and free: "clobber \<or> region_free (vmas mm) new"
    and safe: "rollback_panics ops \<Longrightarrow> move_selected_mapping ops v old new clobber mm \<noteq> None"
  obtains res mm' where "move_selected_mapping ops v old new clobber mm = Some (res, mm')" "vmas_ok (vmas mm')"
    "\<And>a ps. res = Inr (a, ps) \<Longrightarrow> a = start_address new \<and> remapped (vmas mm) v old new (vmas mm')"
proof -
  have o: "page_region old" "lo (vregion v) \<le> lo old" "hi old \<le> hi (vregion v)" using old by (simp_all add: part_of_def)
  have vok: "vma_ok v" by (rule vmas_okD(3) [OF ok v])
  obtain res1 mm1 where t: "(if clobber then unmap_region ops new None mm else Some (Inr [], mm)) = Some (res1, mm1)"
    and ok1: "vmas_ok (vmas mm1)" and v1: "v \<in> areas (vmas mm1)"
    and fr: "\<And>ps. res1 = Inr ps \<Longrightarrow> region_free (vmas mm1) new"
    and rest: "\<And>ps x. res1 = Inr ps \<Longrightarrow> \<not> (lo new \<le> x \<and> x < hi new) \<Longrightarrow> perms_at (vmas mm1) x = perms_at (vmas mm) x"
    using move_target [OF ok v new ap free, of ops] by metis
  let ?len = "min (rsize old) (rsize new)"
  have some: "move_frames ops old new ?len (address_space mm1) \<noteq> None" if "res1 = Inr ps" for ps
  proof
    assume none: "move_frames ops old new ?len (address_space mm1) = None"
    then show False using safe [OF move_frames_None [OF none]] t that by (simp add: move_selected_mapping_def Let_def)
  qed
  obtain mv as where mv: "res1 = Inr ps \<Longrightarrow> move_frames ops old new ?len (address_space mm1) = Some (mv, as)" for ps
    using some by (cases res1) fastforce+
  obtain res2 as2 where tl: "unmap_tail ops old ?len as = Some (res2, as2)" using unmap_tail_Some [OF o(1)] by metis
  consider e where "res1 = Inl e" | freed e where "res1 = Inr freed" "mv = Inl e"
    | freed u e where "res1 = Inr freed" "mv = Inr u" "res2 = Inl e"
    | freed u ps where "res1 = Inr freed" "mv = Inr u" "res2 = Inr ps" by (cases res1; cases mv; cases res2) auto
  then show thesis
  proof cases
    case (1 e) then show thesis using that [of "Inl e" mm1] t ok1 by (simp add: move_selected_mapping_def)
  next
    case (2 freed e) then show thesis using that [of "Inl e" "mm1\<lparr>address_space := as\<rparr>"] t mv [OF 2(1)] ok1
      by (simp add: move_selected_mapping_def Let_def)
  next
    case (3 freed u e) then show thesis using that [of "Inl e" "mm1\<lparr>address_space := as2\<rparr>"] t mv [OF 3(1)] tl ok1
      by (simp add: move_selected_mapping_def Let_def)
  next
    case (4 freed u ps)
    let ?w = "relocate_vma (shrink_to v old) new" and ?m = "bt_remove (start_address (vregion v)) (vmas mm1)"
    let ?ps = "left_piece v old @ right_piece v old @ [?w]"
    have get: "bt_get (start_address (vregion v)) (vmas mm1) = Some v" using get_area [OF ok1] v1 by blast
    have run: "move_selected_mapping ops v old new clobber mm =
        map_option (\<lambda>m. (Inr (start_address new, freed @ ps), \<lparr>vmas = m, address_space = as2\<rparr>)) (merge_all ?ps ?m)"
      using t mv [OF 4(1)] tl 4 get by (simp add: move_selected_mapping_def Let_def merge_left_eq
          merge_right_eq [OF page_regionD(1) [OF o(1)] vma_okD(1) [OF vok]] merge_all_append map_conv_bind_option comp_def)
    have wok: "vma_ok ?w" using new by (simp add: vma_ok_iff)
    have sides: "\<forall>u \<in> set (left_piece v old @ right_piece v old). apart u ?w"
      using side_pieces(1,2) [OF vok old] ap o page_regionD(2) [OF o(1)] by (fastforce simp: apart_def)
    have free': "region_free ?m (vregion ?w)"
      using region_free_sub [OF _ fr [OF 4(1)], of ?m] remove_area(2) [OF ok1 v1] by auto
    obtain m' where m': "merge_all ?ps ?m = Some m'" "vmas_ok m'"
      and perms: "\<And>x. perms_at m' x = (if covers x ?w then Some (vperms v) else if lo old \<le> x \<and> x < hi old then None else perms_at (vmas mm1) x)"
      and byte: "\<And>x. \<not> is_file_backed v \<Longrightarrow> covers x ?w \<Longrightarrow> byte_at m' x = Some (vma_byte ?w x)"
      by (rule remap_pieces [OF ok1 v1 old wok _ _ free' sides, of ?ps]) (use shrink_to_file [of v old] in auto)
    have "byte_at m' (lo new + i) = byte_at (vmas mm) (lo old + i)"
      if "\<not> is_file_backed v" "i < hi old - lo old" "i < hi new - lo new" for i
      using byte [OF that(1), of "lo new + i"] move_byte [OF that(1) o(2) that(2), of new] byte_at_area [OF ok v, of "lo old + i"] that o
      by (simp add: covers_def)
    then have "remapped (vmas mm) v old new m'" using perms rest [OF 4(1)] by (simp add: remapped_def covers_def)
    then show thesis using that run m' by simp
  qed
qed

section \<open>The call\<close>

text \<open>What \<open>mremap\<close> returns and leaves behind on success.\<close>

definition remap_done :: "vmas \<Rightarrow> region \<Rightarrow> usize \<Rightarrow> RemapDestination \<Rightarrow> addr \<Rightarrow> vmas \<Rightarrow> bool" where
  "remap_done m old n dest a m' \<longleftrightarrow>
     (\<exists>v \<in> areas m. part_of old v \<and> remapped m v old (rnew a n) m') \<and>
     (dest = InPlaceOnly \<longrightarrow> a = start_address old) \<and> (\<forall>na. dest = FixedAt na \<longrightarrow> a = na)"

lemma rnew_start: "rsize r = n \<Longrightarrow> rnew (start_address r) n = r"
  by (simp add: rnew_def start_address_def)

lemma can_expand_Some:
  assumes "valid (vregion v)" "lo old + unat n < 2 ^ 64" "valid old"
  shows "\<exists>b. can_expand_in_place m v old n = Some b"
proof -
  have "unat (add_bytes (start_address old) n) = lo old + unat n"
    using assms(2) by (simp add: add_bytes_def unat_add_usize unat_start_address)
  then show ?thesis
    using unat_end_address [OF assms(1)] by (auto simp: can_expand_in_place_def Let_def usize_order from_start_end_address_eq)
qed

text \<open>The branches of \<open>mremap\<close> that stay in place when they can.\<close>

definition remap_elsewhere :: "'a address_space_ops \<Rightarrow> vmarea \<Rightarrow> region \<Rightarrow> usize \<Rightarrow> RemapDestination \<Rightarrow> 'a memory_map \<Rightarrow>
    ((addr \<times> nat list) result \<times> 'a memory_map) option" where
  "remap_elsewhere ops v old n dest mm =
     (if rsize old = n then Some (Inr (start_address old, []), mm)
      else if n \<le> rsize old then shrink_in_place ops v old n mm
      else
        do {
          can \<leftarrow> can_expand_in_place (vmas mm) v old n;
          if can then expand_in_place v old n mm
          else
            case dest of
              InPlaceOnly \<Rightarrow> Some (Inl NoMemory, mm)
            | _ \<Rightarrow>
                (case find_free_region (vmas mm) n of
                   None \<Rightarrow> Some (Inl NoMemory, mm)
                 | Some new_region \<Rightarrow> move_selected_mapping ops v old new_region False mm)
        })"

lemma remap_elsewhere_spec:
  assumes ok: "vmas_ok (vmas mm)" and v: "v \<in> areas (vmas mm)" and old: "part_of old v"
    and n: "0 < unat n" "4096 dvd unat n" "lo old + unat n < 2 ^ 64" and dest: "dest = InPlaceOnly \<or> dest = MayMove"
    and safe: "rollback_panics ops \<Longrightarrow> remap_elsewhere ops v old n dest mm \<noteq> None"
  obtains res mm' where "remap_elsewhere ops v old n dest mm = Some (res, mm')" "vmas_ok (vmas mm')"
    "\<And>a ps. res = Inr (a, ps) \<Longrightarrow> remap_done (vmas mm) old n dest a (vmas mm')"
proof -
  have o: "page_region old" "lo (vregion v) \<le> lo old" "hi old \<le> hi (vregion v)" using old by (simp_all add: part_of_def)
  have sz: "unat (rsize old) = hi old - lo old" by (simp add: hi_def lo_def)
  have fin: "remap_done (vmas mm) old n dest (start_address old) m'"
    if "remapped (vmas mm) v old (rnew (start_address old) n) m'" for m'
    using that v old dest by (auto simp: remap_done_def)
  consider "rsize old = n" | "rsize old \<noteq> n" "unat n \<le> hi old - lo old" | "hi old - lo old < unat n"
    using sz by fastforce
  then show thesis
  proof cases
    case 1
    have "perms_at (vmas mm) x = Some (vperms v)" if "lo old \<le> x" "x < hi old" for x
      using look_area [OF ok v, of x "\<lambda>v x. vperms v"] that o by (simp add: perms_at_look)
    then have "remapped (vmas mm) v old (rnew (start_address old) n) (vmas mm)"
      unfolding rnew_start [OF 1] by (simp add: remapped_def)
    then show thesis using that [of "Inr (start_address old, [])" mm] 1 ok fin by (simp add: remap_elsewhere_def)
  next
    case 2
    obtain res mm' where "shrink_in_place ops v old n mm = Some (res, mm')" "vmas_ok (vmas mm')"
      "\<And>a ps. res = Inr (a, ps) \<Longrightarrow> a = start_address old \<and> remapped (vmas mm) v old (rnew (start_address old) n) (vmas mm')"
      using shrink_in_place_spec [OF ok v old n(1,2) 2(2), of ops] by metis
    then show thesis using that [of res mm'] 2 sz fin by (simp add: remap_elsewhere_def usize_order) blast
  next
    case 3
    then have run: "remap_elsewhere ops v old n dest mm = do {
          can \<leftarrow> can_expand_in_place (vmas mm) v old n;
          if can then expand_in_place v old n mm
          else
            case dest of
              InPlaceOnly \<Rightarrow> Some (Inl NoMemory, mm)
            | _ \<Rightarrow>
                (case find_free_region (vmas mm) n of
                   None \<Rightarrow> Some (Inl NoMemory, mm)
                 | Some new_region \<Rightarrow> move_selected_mapping ops v old new_region False mm)
        }" using sz by (auto simp: remap_elsewhere_def usize_order)
    obtain b where b: "can_expand_in_place (vmas mm) v old n = Some b"
      using can_expand_Some [OF vma_okD(1) [OF vmas_okD(3) [OF ok v]] n(3) page_regionD(1) [OF o(1)]] by blast
    show thesis
    proof (cases b)
      case True
      obtain mm' where "expand_in_place v old n mm = Some (Inr (start_address old, []), mm')" "vmas_ok (vmas mm')"
        "remapped (vmas mm) v old (rnew (start_address old) n) (vmas mm')"
        by (rule expand_in_place_spec [OF ok v old n(2) _ n(3)]) (use b True 3 in simp_all)
      then show thesis using that [of "Inr (start_address old, [])" mm'] run b True fin by simp
    next
      case no: False
      show thesis
      proof (cases "dest = MayMove \<and> find_free_region (vmas mm) n \<noteq> None")
        case False
        then show thesis using that [of "Inl NoMemory" mm] run b no ok dest by auto
      next
        case True
        then obtain r where r: "find_free_region (vmas mm) n = Some r" and d: "dest = MayMove" by blast
        note f = find_free_region_spec [OF ok r n(1,2)]
        have pr: "page_region r" and ap: "hi (vregion v) \<le> lo r \<or> hi r \<le> lo (vregion v)"
          using f v by (auto simp: page_region_def region_free_def)
        have "remap_elsewhere ops v old n dest mm = move_selected_mapping ops v old r False mm" using run b no r d by simp
        note safe' = safe [unfolded this]
        obtain res mm' where m: "move_selected_mapping ops v old r False mm = Some (res, mm')" "vmas_ok (vmas mm')"
          and rm: "\<And>a ps. res = Inr (a, ps) \<Longrightarrow> a = start_address r \<and> remapped (vmas mm) v old r (vmas mm')"
          by (rule move_spec [OF ok v old pr ap disjI2 [OF f(6)] safe']) blast+
        have "remap_done (vmas mm) old n dest a (vmas mm')" if "res = Inr (a, ps)" for a ps
          using rm [OF that] v old d rnew_start [OF f(5)] by (auto simp: remap_done_def)
        then show thesis using that [of res mm'] m run b no r d by simp
      qed
    qed
  qed
qed

lemma mremap_fixed:
  assumes "is_page_aligned old_addr" "old_len \<noteq> 0" "new_len \<noteq> 0" "find_vma (vmas mm) old_addr = Some v"
    and "end_address (rnew old_addr (align_len old_len)) \<le> end_address (vregion v)"
  shows "mremap ops old_addr old_len new_len (FixedAt na) mm =
      (let new_region = rnew na (align_len new_len); old_region = rnew old_addr (align_len old_len)
       in if \<not> is_page_aligned na then Some (Inl InvalidValue, mm)
          else if overlaps new_region old_region \<or> overlaps new_region (vregion v) then Some (Inl InvalidValue, mm)
          else move_selected_mapping ops v old_region new_region True mm)"
    and "dest = InPlaceOnly \<or> dest = MayMove \<Longrightarrow>
      mremap ops old_addr old_len new_len dest mm =
        remap_elsewhere ops v (rnew old_addr (align_len old_len)) (align_len new_len) dest mm"
  using assms by (auto simp: mremap_def remap_elsewhere_def Let_def start_address_def not_less split: option.split)

lemma mremap_run:
  assumes ok: "vmas_ok (vmas mm)"
    and fits: "unat old_addr + unat old_len + 4095 < 2 ^ 64" "unat old_addr + unat new_len + 4095 < 2 ^ 64"
    and fixed: "case dest of FixedAt na \<Rightarrow> unat na + unat new_len + 4095 < 2 ^ 64 | _ \<Rightarrow> True"
    and safe: "rollback_panics ops \<Longrightarrow> mremap ops old_addr old_len new_len dest mm \<noteq> None"
  shows "\<exists>res mm'. mremap ops old_addr old_len new_len dest mm = Some (res, mm') \<and> vmas_ok (vmas mm') \<and>
    (\<forall>a pages. res = Inr (a, pages) \<longrightarrow>
       remap_done (vmas mm) (rnew old_addr (of_nat (round_up 4096 (unat old_len))))
         (of_nat (round_up 4096 (unat new_len))) dest a (vmas mm'))"
proof (cases "\<not> is_page_aligned old_addr \<or> old_len = 0 \<or> new_len = 0 \<or> find_vma (vmas mm) old_addr = None")
  case True
  then show ?thesis using ok by (auto simp: mremap_def Let_def)
next
  case False
  then obtain v where args: "is_page_aligned old_addr" "old_len \<noteq> 0" "new_len \<noteq> 0" and find: "find_vma (vmas mm) old_addr = Some v"
    by auto
  let ?o = "align_len old_len" and ?n = "align_len new_len"
  let ?old = "rnew old_addr ?o"
  have o: "unat ?o = round_up 4096 (unat old_len)" "of_nat (round_up 4096 (unat old_len)) = ?o"
    and n: "unat ?n = round_up 4096 (unat new_len)" "of_nat (round_up 4096 (unat new_len)) = ?n"
    using unat_align_len [of old_len] unat_align_len [of new_len] fits by (simp_all flip: unat_align_len)
  have pos: "0 < unat ?o" "4096 dvd unat ?o" "0 < unat ?n" "4096 dvd unat ?n"
    using round_up_ge [of 4096 "unat old_len"] round_up_ge [of 4096 "unat new_len"] args(2,3) by (simp_all add: o n unat_gt_0)
      (metis gr0I le_zero_eq unat_eq_0)+
  have fit: "unat old_addr + unat ?o < 2 ^ 64" "unat old_addr + unat ?n < 2 ^ 64"
    using round_up_less [of 4096 "unat old_len"] round_up_less [of 4096 "unat new_len"] fits by (simp_all add: o n)
  note od = start_plus [OF fit(1)]
  have v: "v \<in> areas (vmas mm)" "lo (vregion v) \<le> unat old_addr"
    using find find_vma_eq [OF ok] vma_at_iff [OF ok] by simp_all
  have ve: "unat (end_address (vregion v)) = hi (vregion v)" by (rule unat_end_address [OF vma_okD(1) [OF vmas_okD(3) [OF ok v(1)]]])
  show ?thesis
  proof (cases "end_address ?old \<le> end_address (vregion v)")
    case False
    then show ?thesis using args find ok by (simp add: mremap_def Let_def not_le)
  next
    case True
    have "page_region ?old" using args(1) pos fit(1) by (intro page_region_rnew) (simp_all add: is_page_aligned_dvd)
    then have old: "part_of ?old v" using True od ve v(2) by (simp add: part_of_def usize_order)
    note eqs = mremap_fixed [OF args find True]
    show ?thesis
    proof (cases "dest = InPlaceOnly \<or> dest = MayMove")
      case in_place: True
      have fit': "lo ?old + unat ?n < 2 ^ 64" using fit(2) od(1) by simp
      obtain res mm' where "remap_elsewhere ops v ?old ?n dest mm = Some (res, mm')" "vmas_ok (vmas mm')"
        "\<And>a ps. res = Inr (a, ps) \<Longrightarrow> remap_done (vmas mm) ?old ?n dest a (vmas mm')"
        by (rule remap_elsewhere_spec [OF ok v(1) old pos(3,4) fit' in_place safe [unfolded eqs(2) [OF in_place]]]) blast+
      then show ?thesis using eqs(2) [OF in_place] by (auto simp: o(2) n(2))
    next
      case fixed': False
      then obtain na where d: "dest = FixedAt na" by (cases dest) auto
      let ?new = "rnew na ?n"
      have "unat na + unat ?n < 2 ^ 64" using fixed d round_up_less [of 4096 "unat new_len"] by (simp add: n)
      note nw = start_plus [OF this]
      show ?thesis
      proof (cases "is_page_aligned na \<and> \<not> (overlaps ?new ?old \<or> overlaps ?new (vregion v))")
        case False
        then show ?thesis using eqs(1) [of ops na] d ok by (auto simp: Let_def)
      next
        case go: True
        have pn: "page_region ?new" using go pos(3,4) nw by (simp add: page_region_def is_page_aligned_dvd)
        have ap: "hi (vregion v) \<le> lo ?new \<or> hi ?new \<le> lo (vregion v)"
          using go overlaps_iff [OF nw(4) vma_okD(1) [OF vmas_okD(3) [OF ok v(1)]]] by auto
        have "mremap ops old_addr old_len new_len dest mm = move_selected_mapping ops v ?old ?new True mm"
          using eqs(1) [of ops na] d go by (auto simp: Let_def)
        note safe' = safe [unfolded this]
        obtain res mm' where m: "move_selected_mapping ops v ?old ?new True mm = Some (res, mm')" "vmas_ok (vmas mm')"
          and rm: "\<And>a ps. res = Inr (a, ps) \<Longrightarrow> a = start_address ?new \<and> remapped (vmas mm) v ?old ?new (vmas mm')"
          by (rule move_spec [OF ok v(1) old pn ap disjI1 [OF TrueI] safe']) blast+
        have "remap_done (vmas mm) ?old ?n dest a (vmas mm')" if "res = Inr (a, ps)" for a ps
          using rm [OF that] v(1) old d by (auto simp: remap_done_def start_address_def)
        then show ?thesis using eqs(1) [of ops na] d go m by (auto simp: Let_def o(2) n(2))
      qed
    qed
  qed
qed



end
