(* ===== verification/Proc_Vm.thy ===== *)
theory Proc_Vm
  imports Memory_Map
begin

text \<open>
  The virtual memory of a process (\<^verbatim>\<open>libkernel/src/memory/proc_vm/mod.rs\<close>): a memory map and the
  heap, whose end is the program break.
\<close>

section \<open>The virtual memory of a process\<close>

definition BRK_PERMISSIONS :: VMAPermissions where
  "BRK_PERMISSIONS = vma_rw"

record 'a process_vm =
  vm_mm :: "'a memory_map"
  vm_brk :: region

definition brk_after :: "region \<Rightarrow> region" where
  "brk_after r = rnew (align_up_bits (end_address r) PAGE_SIZE) 0"

definition from_vma_and_address_space ::
  "'a address_space_ops \<Rightarrow> vmarea \<Rightarrow> 'a \<Rightarrow> 'a process_vm option" where
  "from_vma_and_address_space ops v as =
     map_option (\<lambda>mm. \<lparr>vm_mm = mm, vm_brk = brk_after (vregion v)\<rparr>) (insert_and_merge ops v (with_addr_spc as))"

definition from_vma :: "'a address_space_ops \<Rightarrow> vmarea \<Rightarrow> 'a process_vm result option" where
  "from_vma ops v =
     (case mm_new ops of
        Inl e \<Rightarrow> Some (Inl e)
      | Inr mm \<Rightarrow> map_option (\<lambda>mm. Inr \<lparr>vm_mm = mm, vm_brk = brk_after (vregion v)\<rparr>) (insert_and_merge ops v mm))"

definition from_map :: "'a memory_map \<Rightarrow> 'a process_vm option" where
  "from_map mm =
     map_option (\<lambda>(_, v). \<lparr>vm_mm = mm, vm_brk = brk_after (vregion v)\<rparr>) (last_option (vmas mm))"

definition empty_vm :: "'a address_space_ops \<Rightarrow> 'a process_vm result" where
  "empty_vm ops = map_sum id (\<lambda>mm. \<lparr>vm_mm = mm, vm_brk = empty_region\<rparr>) (mm_new ops)"

text \<open>The outer \<open>None\<close> is the \<open>unreachable!\<close>.\<close>

definition find_vma_for_fault :: "'a process_vm \<Rightarrow> addr \<Rightarrow> AccessKind \<Rightarrow> vmarea option option" where
  "find_vma_for_fault vm a access_type =
     (case find_vma (vmas (vm_mm vm)) a of
        None \<Rightarrow> Some None
      | Some v \<Rightarrow>
          (case validate_fault v a access_type of
             Valid \<Rightarrow> Some (Some v)
           | NotPresent \<Rightarrow> None
           | PermissionDenied \<Rightarrow> Some None))"

definition start_brk :: "'a process_vm \<Rightarrow> addr" where
  "start_brk vm = start_address (vm_brk vm)"

definition current_brk :: "'a process_vm \<Rightarrow> addr" where
  "current_brk vm = end_address (vm_brk vm)"

definition resize_brk :: "'a address_space_ops \<Rightarrow> addr \<Rightarrow> 'a process_vm \<Rightarrow> (addr result \<times> 'a process_vm) option" where
  "resize_brk ops new_end_addr vm =
     (let brk_start = start_address (vm_brk vm); current_end = end_address (vm_brk vm)
      in if new_end_addr < brk_start then Some (Inl InvalidValue, vm)
         else
           let new_end_addr_aligned = align_up_bits new_end_addr PAGE_SIZE
           in do {
                new_brk_region \<leftarrow> from_start_end_address brk_start new_end_addr_aligned;
                if new_end_addr_aligned = current_end then Some (Inr new_end_addr, vm)
                else if new_end_addr_aligned > current_end
                then
                  do {
                    (res, mm) \<leftarrow> mmap ops (Fixed current_end False) (new_end_addr_aligned - current_end)
                                   BRK_PERMISSIONS Anon ''[heap]'' (vm_mm vm);
                    (case res of
                       Inl e \<Rightarrow> Some (Inl e, vm\<lparr>vm_mm := mm\<rparr>)
                     | Inr _ \<Rightarrow> Some (Inr new_end_addr, \<lparr>vm_mm = mm, vm_brk = new_brk_region\<rparr>))
                  }
                else
                  do {
                    r \<leftarrow> from_start_end_address new_end_addr_aligned current_end;
                    (res, mm) \<leftarrow> munmap ops r (vm_mm vm);
                    (case res of
                       Inl e \<Rightarrow> Some (Inl e, vm\<lparr>vm_mm := mm\<rparr>)
                     | Inr _ \<Rightarrow> Some (Inr new_end_addr, \<lparr>vm_mm = mm, vm_brk = new_brk_region\<rparr>))
                  }
              })"

definition vm_clone_as_cow :: "'a address_space_ops \<Rightarrow> 'a process_vm \<Rightarrow> ('a process_vm result \<times> 'a process_vm) option" where
  "vm_clone_as_cow ops vm =
     map_option
       (\<lambda>(res, mm). (map_sum id (\<lambda>new_mm. \<lparr>vm_mm = new_mm, vm_brk = vm_brk vm\<rparr>) res, vm\<lparr>vm_mm := mm\<rparr>))
       (mm_clone_as_cow ops (vm_mm vm))"

end
