(* ===== verification/Memory_Map_Cases.thy ===== *)
theory Memory_Map_Cases
  imports Mremap Proc_Vm
begin

text \<open>
  Inputs on which a memory map does not do what its comments say, each evaluated on the model. They
  are why the theorems of \<open>Memory_Map_Props\<close> and \<open>Mremap\<close> leave out the bytes of cut and merged
  file-backed areas, ranges that wrap around and lengths that are not whole pages.
\<close>

lemmas view_defs = byte_at_def perms_at_def vma_at_def vma_byte_def lo_def hi_def example_defs

section \<open>File-backed areas\<close>

text \<open>
  A hole in a file-backed area: the part above the hole keeps the file offset of the whole area, so
  its first byte, which was the byte at \<open>0xA000\<close> of the file, becomes the byte at \<open>0x8000\<close>.
\<close>

definition three_pages :: "page_op list memory_map" where
  "three_pages = mm_of [file_vma 0x14000 0x3000 0x8000 vma_ro]"

lemma unmap_hole_file_offset:
  "\<exists>mm. munmap mock_ops (rnew 0x15000 0x1000) three_pages = Some (Inr [], mm) \<and>
     byte_at (vmas three_pages) 0x16000 = Some (FileByte 7 0xA000) \<and> byte_at (vmas mm) 0x16000 = Some (FileByte 7 0x8000)"
proof -
  have "munmap mock_ops (rnew 0x15000 0x1000) three_pages = Some (Inr [],
      (mm_of [vmarea_new (rnew 0x14000 0x1000) (new_file 7 0x8000 0x3000) vma_ro,
              vmarea_new (rnew 0x16000 0x1000) (new_file 7 0x8000 0x3000) vma_ro])\<lparr>address_space := [UnmapRange (rnew 0x15000 0x1000)]\<rparr>)"
    by code_simp
  then show ?thesis by (simp add: three_pages_def view_defs)
qed

text \<open>
  Unmapping the front of an area whose file part is one page long, as for the zero-filled tail of a
  data segment: the offset is moved but the length is not reduced, so a page that was zero filled
  becomes a page of the file.
\<close>

definition data_segment :: "page_op list memory_map" where
  "data_segment = mm_of [vmarea_new (rnew 0x14000 0x2000) (new_file 7 0x8000 0x1000) vma_rw]"

lemma unmap_front_file_len:
  "\<exists>mm. munmap mock_ops (rnew 0x14000 0x1000) data_segment = Some (Inr [], mm) \<and>
     byte_at (vmas data_segment) 0x15000 = Some ZeroFill \<and> byte_at (vmas mm) 0x15000 = Some (FileByte 7 0x9000)"
proof -
  have "munmap mock_ops (rnew 0x14000 0x1000) data_segment = Some (Inr [],
      (mm_of [vmarea_new (rnew 0x15000 0x1000) (new_file 7 0x9000 0x1000) vma_rw])\<lparr>address_space := [UnmapRange (rnew 0x14000 0x1000)]\<rparr>)"
    by code_simp
  then show ?thesis by (simp add: data_segment_def view_defs)
qed

text \<open>
  Changing the permissions of a page of a file-backed area to what they are: the area is split and
  merged again, the merge extends the region but not the length of the file part, and the pages
  after the first become zero filled.
\<close>

lemma mprotect_merge_file_len:
  "\<exists>mm. mprotect mock_ops (rnew 0x15000 0x1000) vma_ro three_pages = Some (Inr (), mm) \<and>
     byte_at (vmas three_pages) 0x15000 = Some (FileByte 7 0x9000) \<and> byte_at (vmas mm) 0x15000 = Some ZeroFill"
proof -
  have "mprotect mock_ops (rnew 0x15000 0x1000) vma_ro three_pages = Some (Inr (),
      (mm_of [vmarea_new (rnew 0x14000 0x3000) (new_file 7 0x8000 0x1000) vma_ro])
        \<lparr>address_space := [ProtectRange (rnew 0x15000 0x1000) (pte_ro True)]\<rparr>)"
    by code_simp
  then show ?thesis by (simp add: three_pages_def view_defs)
qed

section \<open>Lengths that are not whole pages\<close>

text \<open>
  The length given to \<open>mprotect\<close> is not rounded up to whole pages. A length of 256 bytes splits an area
  inside a page, and the second call, which merges the parts again, fails the assertion of
  \<open>expand_by\<close>.
\<close>

lemma mprotect_unaligned_panics:
  "Option.bind (mprotect mock_ops (rnew 0x10000 256) vma_ro mm0)
     (\<lambda>(_, mm). mprotect mock_ops (rnew 0x10000 256) vma_rw mm) = None \<and>
   mprotect mock_ops (rnew 0x10000 256) vma_ro mm0 \<noteq> None"
  by code_simp

section \<open>Ranges that wrap around\<close>

lemma munmap_wrap_panics: "munmap mock_ops (rnew 0x1000 0xFFFFFFFFFFFFF000) mm0 = None"
  by code_simp

lemma mremap_wrap_panics: "mremap mock_ops 0x10000 0xFFFFFFFFFFFFF000 0x1000 InPlaceOnly mm0 = None"
  by code_simp

text \<open>
  A protected range that wraps around: \<open>contains\<close> compares its wrapped end, so that a length of almost
  the whole address space is accepted. The page tables are asked to protect it, and no area changes.
\<close>

lemma mprotect_wrap_accepted:
  "mprotect mock_ops (rnew 0x11000 0xFFFFFFFFFFFFF000) vma_ro mm0 =
     Some (Inr (), mm0\<lparr>address_space := [ProtectRange (rnew 0x11000 0xFFFFFFFFFFFFF000) (pte_of_vma vma_ro)]\<rparr>)"
  by code_simp

text \<open>A file offset near \<open>2 ^ 64\<close>: the end of the file part wraps to a small offset, so no byte is read.\<close>

lemma resolve_fault_wrap:
  "\<exists>mm. mmap mock_ops AnyAddress 0x2000 vma_ro (new_file 7 0xFFFFFFFFFFFFF000 0x2000) [] mm0 = Some (Inr 0x3FFFFFFFE000, mm) \<and>
     byte_at (vmas mm) 0x3FFFFFFFE000 = Some (FileByte 7 0xFFFFFFFFFFFFF000) \<and>
     map_option (\<lambda>v. resolve_fault v 0x3FFFFFFFE000) (find_vma (vmas mm) 0x3FFFFFFFE000) = Some None"
proof -
  have run: "mmap mock_ops AnyAddress 0x2000 vma_ro (new_file 7 0xFFFFFFFFFFFFF000 0x2000) [] mm0 = Some (Inr 0x3FFFFFFFE000,
     mm_of [anon_vma 0x10000 0x3000 vma_rw, file_vma 0x14000 0x2000 0x8000 vma_rx, 
       vmarea_new (rnew 0x3FFFFFFFE000 0x2000) (new_file 7 0xFFFFFFFFFFFFF000 0x2000) vma_ro])"
    by code_simp
  have "map_option (\<lambda>v. resolve_fault v 0x3FFFFFFFE000) (find_vma (vmas (mm_of [anon_vma 0x10000 0x3000 vma_rw, file_vma 0x14000 0x2000 0x8000 vma_rx, 
       vmarea_new (rnew 0x3FFFFFFFE000 0x2000) (new_file 7 0xFFFFFFFFFFFFF000 0x2000) vma_ro])) 0x3FFFFFFFE000) = Some None" by code_simp
  then show ?thesis using run by (simp add: view_defs)
qed

text \<open>A hint at the end of the address space gives an area whose end is below its start.\<close>

lemma mmap_wrap_accepted:
  "\<exists>mm. mmap mock_ops (Hint 0xFFFFFFFFFFFFF000) 0x2000 vma_rw Anon [] mm0 = Some (Inr 0xFFFFFFFFFFFFF000, mm) \<and> \<not> vmas_ok (vmas mm)"
proof -
  have "mmap mock_ops (Hint 0xFFFFFFFFFFFFF000) 0x2000 vma_rw Anon [] mm0 = Some (Inr 0xFFFFFFFFFFFFF000,
      mm_of [anon_vma 0x10000 0x3000 vma_rw, file_vma 0x14000 0x2000 0x8000 vma_rx, anon_vma 0xFFFFFFFFFFFFF000 0x2000 vma_rw])"
    by code_simp
  then show ?thesis by (simp add: example_defs vmas_ok_def vma_ok_def valid_def hi_def)
qed

section \<open>Other departures\<close>

text \<open>With two areas above \<open>MMAP_BASE\<close>, the region found is above \<open>MMAP_BASE\<close> as well.\<close>

lemma find_free_region_above_base:
  "find_free_region (vmas (mm_of [anon_vma 0x500000000000 0x1000 vma_rw, anon_vma 0x600000000000 0x1000 vma_rw])) 0x1000 =
     Some (rnew 0x5FFFFFFFF000 0x1000)"
  by code_simp

text \<open>Page tables that cannot unmap a range, as the \<open>Result\<close> of the trait allows.\<close>

definition stuck_ops :: "page_op list address_space_ops" where
  "stuck_ops = mock_ops\<lparr>as_unmap_range := \<lambda>as r. (Inl NoMemory, as)\<rparr>"

text \<open>
  \<open>insert_and_merge\<close> drops the error of \<open>unmap_region\<close>: the new area is inserted although the second of
  the two areas it replaces is still there, and the map has overlapping areas.
\<close>

lemma insert_ignores_error:
  "\<exists>mm. mmap stuck_ops (Fixed 0x10000 True) 0x4000 vma_rw (new_file 8 0 0x4000) []
        (mm_of [anon_vma 0x10000 0x2000 vma_rw, anon_vma 0x12000 0x2000 vma_ro]) = Some (Inr 0x10000, mm) \<and> \<not> vmas_ok (vmas mm)"
proof -
  have "mmap stuck_ops (Fixed 0x10000 True) 0x4000 vma_rw (new_file 8 0 0x4000) []
        (mm_of [anon_vma 0x10000 0x2000 vma_rw, anon_vma 0x12000 0x2000 vma_ro]) = Some (Inr 0x10000,
      mm_of [vmarea_new (rnew 0x10000 0x4000) (new_file 8 0 0x4000) vma_rw, anon_vma 0x12000 0x2000 vma_ro])"
    by code_simp
  then show ?thesis by (simp add: example_defs vmas_ok_def vma_ok_def valid_def lo_def hi_def)
qed

text \<open>When unmapping a part of an area fails, the whole area is lost.\<close>

lemma munmap_error_loses_area:
  "\<exists>mm. munmap stuck_ops (rnew 0x12000 0x1000) mm0 = Some (Inl NoMemory, mm) \<and>
     perms_at (vmas mm0) 0x10000 = Some vma_rw \<and> perms_at (vmas mm) 0x10000 = None"
proof -
  have "munmap stuck_ops (rnew 0x12000 0x1000) mm0 = Some (Inl NoMemory, mm_of [file_vma 0x14000 0x2000 0x8000 vma_rx])"
    by code_simp
  then show ?thesis by (simp add: mm0_def view_defs)
qed

text \<open>A move of which the second page cannot be mapped, on page tables whose \<open>unmap\<close> panics.\<close>

definition todo_ops :: "page_op list address_space_ops" where
  "todo_ops = mock_ops\<lparr>
     as_translate := (\<lambda>as a. Some \<lparr>info_pfn = 5, info_perms = pte_rw True\<rparr>),
     as_map_page := (\<lambda>as p a c. if as = [] then (Inr (), [ProtectRange (rnew a PAGE_SIZE) c]) else (Inl NoMemory, as)),
     as_unmap := (\<lambda>as a. None)\<rparr>"

lemma mremap_rollback_panics: "mremap todo_ops 0x11000 0x2000 0x2000 (FixedAt 0x20000) mm0 = None"
  by code_simp

text \<open>The program break at the last page of the address space.\<close>

lemma resize_brk_wrap_panics:
  "resize_brk mock_ops 0xFFFFFFFFFFFFFFFF \<lparr>vm_mm = mm0, vm_brk = rnew 0x17000 0\<rparr> = None"
  by code_simp

end
