(* ===== verification/Claimed_Page.thy ===== *)
theory Claimed_Page
  imports Buddy_Props Proc_Vm
begin

text \<open>
  Single pages claimed from the frame allocator (\<^verbatim>\<open>libkernel/src/memory/claimed_page.rs\<close>) and the
  shared anonymous backing objects (\<^verbatim>\<open>src/src/memory/shared_anon.rs\<close>). The state is the
  allocator \<open>PAGE_ALLOC\<close> (\<open>None\<close> before it is set), the bytes of every frame, which the kernel
  reaches through its direct map, and the pages of every backing object. A backing object is its
  position in the list of those created so far. A claimed page is the region it guards.
\<close>

section \<open>Claimed pages\<close>

type_synonym page_bytes = "nat \<Rightarrow> 8 word"

record kmem =
  page_alloc :: "frame_alloc option"
  page_data :: "nat \<Rightarrow> page_bytes"
  backings :: "(usize, region) btree list"

definition as_phys_range :: "nat \<Rightarrow> region" where
  "as_phys_range pfn = rnew (pfn_pa (of_nat pfn)) PAGE_SIZE"

definition cp_alloc :: "kmem \<Rightarrow> (region result \<times> kmem) option" where
  "cp_alloc km =
     do {
       fa \<leftarrow> page_alloc km;
       (frame, fa) \<leftarrow> alloc_frames fa 0;
       Some (frame, km\<lparr>page_alloc := Some fa\<rparr>)
     }"

definition cp_pfn :: "region \<Rightarrow> nat" where
  "cp_pfn page = unat (to_pfn (start_address page))"

definition set_page :: "region \<Rightarrow> page_bytes \<Rightarrow> kmem \<Rightarrow> kmem" where
  "set_page page bs km = km\<lparr>page_data := (page_data km)(cp_pfn page := bs)\<rparr>"

definition alloc_zeroed :: "kmem \<Rightarrow> (region result \<times> kmem) option" where
  "alloc_zeroed km =
     map_option
       (\<lambda>(res, km). case res of Inl e \<Rightarrow> (Inl e, km) | Inr page \<Rightarrow> (Inr page, set_page page (\<lambda>_. 0) km))
       (cp_alloc km)"

definition cp_from_pfn :: "nat \<Rightarrow> region" where
  "cp_from_pfn pfn = as_phys_range pfn"

definition cp_drop :: "region \<Rightarrow> kmem \<Rightarrow> kmem option" where
  "cp_drop page km =
     do {
       fa \<leftarrow> page_alloc km;
       fa \<leftarrow> page_allocation_drop fa page;
       Some (km\<lparr>page_alloc := Some fa\<rparr>)
     }"

section \<open>Shared anonymous memory\<close>

definition shared_anon_new :: "kmem \<Rightarrow> backing \<times> kmem" where
  "shared_anon_new km = (length (backings km), km\<lparr>backings := backings km @ [[]]\<rparr>)"

definition shared_entry :: "backing \<Rightarrow> usize \<Rightarrow> kmem \<Rightarrow> (region result \<times> kmem) option" where
  "shared_entry b offset km =
     (if b < length (backings km)
      then
        case bt_get offset (backings km ! b) of
          Some page \<Rightarrow> Some (Inr page, km)
        | None \<Rightarrow>
            map_option
              (\<lambda>(res, km). case res of
                 Inl e \<Rightarrow> (Inl e, km)
               | Inr page \<Rightarrow> (Inr page, km\<lparr>backings := (backings km)[b := bt_insert offset page (backings km ! b)]\<rparr>))
              (alloc_zeroed km)
      else None)"

definition shared_claim_page :: "backing \<Rightarrow> usize \<Rightarrow> kmem \<Rightarrow> (nat result \<times> kmem) option" where
  "shared_claim_page b offset km =
     do {
       (res, km) \<leftarrow> shared_entry b offset km;
       (case res of
          Inl e \<Rightarrow> Some (Inl e, km)
        | Inr page \<Rightarrow>
            do {
              fa \<leftarrow> page_alloc km;
              (claimed, fa) \<leftarrow> page_allocation_clone fa (as_phys_range (cp_pfn page));
              Some (Inr (cp_pfn claimed), km\<lparr>page_alloc := Some fa\<rparr>)
            })
     }"

section \<open>Reference counts\<close>

text \<open>
  \<open>counted n fa\<close>: the allocator is well formed, and every frame \<open>p\<close> with \<open>n p > 0\<close> is an allocated
  single page whose reference count is \<open>n p\<close>.
\<close>

definition counted :: "(nat \<Rightarrow> nat) \<Rightarrow> frame_alloc \<Rightarrow> bool" where
  "counted n fa \<longleftrightarrow> fa_inv fa \<and> (\<forall>p. 0 < n p \<longrightarrow> n p < 2 ^ 32 \<and>
     st_of (table fa) p = Some (AllocatedHead \<lparr>ref_count = of_nat (n p), order = 0\<rparr>))"

lemma countedD:
  assumes "counted n fa"
  shows "fa_inv fa" "0 < n p \<Longrightarrow> n p < 2 ^ 32"
    "0 < n p \<Longrightarrow> st_of (table fa) p = Some (AllocatedHead \<lparr>ref_count = of_nat (n p), order = 0\<rparr>)"
  using assms by (simp_all add: counted_def)

lemma blk_0: "blk p 0 = {p}"
  by (auto simp: blk_def)

lemma counted_used:
  assumes c: "counted n fa" and p: "0 < n p"
  shows "p \<notin> free_set (table fa)" and "p < 2 ^ 52" and "cp_pfn (as_phys_range p) = p"
proof -
  have ok: "fa_ok fa" using countedD(1) [OF c] by (simp add: fa_inv_def)
  note st = countedD(3) [OF c p]
  have h: "head (table fa) p = Some 0" using st by (simp add: head_def)
  show "p \<notin> free_set (table fa)"
  proof
    assume "p \<in> free_set (table fa)"
    then obtain q k where q: "st_of (table fa) q = Some (Free k)" "p \<in> blk q k" by (auto simp: free_set_iff)
    then have "p \<noteq> q" using st by auto
    then show False using inv_disjoint [OF ok h head_free [OF q(1)]] q(2) by (auto simp: blk_0)
  qed
  have "p \<in> dom (table fa)" using st by (auto simp: st_of_def)
  then show p: "p < 2 ^ 52" by (rule fa_inv_pfn [OF countedD(1) [OF c]])
  show "cp_pfn (as_phys_range p) = p" using to_pfn_pa [OF p] by (simp add: cp_pfn_def as_phys_range_def start_address_def)
qed

lemma counted_alloc:
  assumes c: "counted n fa"
  shows "alloc_frames fa 0 = Some (Inl NoMemory, fa) \<or>
    (\<exists>p fa'. alloc_frames fa 0 = Some (Inr (as_phys_range p), fa') \<and> p \<in> free_set (table fa) \<and> n p = 0 \<and>
       counted (n(p := 1)) fa' \<and> free_set (table fa') = free_set (table fa) - {p})"
proof (cases "\<exists>p. 2 ^ 0 dvd p \<and> blk p 0 \<subseteq> free_set (table fa)")
  case False
  then show ?thesis using alloc_frames_none [of fa 0] countedD(1) [OF c] by (simp add: fa_inv_def)
next
  case True
  obtain p fa' where run: "alloc_frames fa 0 = Some (Inr (rnew (pfn_pa (of_nat p)) (push_bit PAGE_SHIFT (push_bit 0 1))), fa')"
    and fa': "fa_inv fa'" "blk p 0 \<subseteq> free_set (table fa)" "free_set (table fa') = free_set (table fa) - blk p 0"
      "st_of (table fa') p = Some (AllocatedHead \<lparr>ref_count = 1, order = 0\<rparr>)"
      "\<forall>q. q \<notin> free_set (table fa) \<longrightarrow> table fa' q = table fa q"
    using alloc_frames_run [OF countedD(1) [OF c] _ True] by auto
  have "(push_bit PAGE_SHIFT (push_bit 0 1) :: usize) = PAGE_SIZE" by (simp add: PAGE_SIZE_def PAGE_SHIFT_def)
  moreover have "p \<in> free_set (table fa)" using fa'(2) by (simp add: blk_0)
  moreover from this have "n p = 0" using counted_used(1) [OF c] by blast
  moreover have "st_of (table fa') q = st_of (table fa) q" if "0 < n q" for q
    using fa'(5) counted_used(1) [OF c that] by (simp add: st_of_def)
  then have "counted (n(p := 1)) fa'" using fa'(1,4) countedD [OF c] by (simp add: counted_def)
  ultimately show ?thesis using run fa'(3) by (auto simp: as_phys_range_def blk_0)
qed

lemma counted_set_state:
  assumes c: "counted n fa" and p: "0 < n p" and k: "0 < k" "k < 2 ^ 32"
  obtains fa' where "set_state fa p (AllocatedHead \<lparr>ref_count = of_nat k, order = 0\<rparr>) = Some fa'" "counted (n(p := k)) fa'"
    "free_set (table fa') = free_set (table fa)"
proof -
  let ?g = "\<lambda>f. f\<lparr>state := AllocatedHead \<lparr>ref_count = of_nat k, order = 0\<rparr>\<rparr>"
  obtain f where f: "table fa p = Some f" "state f = AllocatedHead \<lparr>ref_count = of_nat (n p), order = 0\<rparr>"
    using countedD(3) [OF c p] by (auto simp: st_of_def)
  obtain fa' where fa': "set_state fa p (AllocatedHead \<lparr>ref_count = of_nat k, order = 0\<rparr>) = Some fa'"
    "table fa' = (table fa)(p \<mapsto> ?g f)" "free_lists fa' = free_lists fa" "free_pages fa' = free_pages fa" "same_shape fa fa'"
    using set_state_Some [OF f(1)] by metis
  have "link f \<Longrightarrow> \<forall>i. state f \<noteq> AllocatedHead i"
    using countedD(1) [OF c] f(1) unfolding fa_inv_def buddy_inv_def lists_ok_def by blast
  then have "\<not> link f" using f(2) by auto
  then have "fa_inv fa'" "free_set (table fa') = free_set (table fa)"
    using fa_inv_upd [OF countedD(1) [OF c] f(1) _ _ _ fa'(2-5)] f(2) by simp_all
  then show thesis using that [OF fa'(1)] countedD [OF c] k by (simp add: counted_def fa'(2))
qed

lemma counted_clone:
  assumes c: "counted n fa" and p: "0 < n p" "n p + 1 < 2 ^ 32"
  obtains fa' where "page_allocation_clone fa (as_phys_range p) = Some (as_phys_range p, fa')" "counted (n(p := n p + 1)) fa'"
    "free_set (table fa') = free_set (table fa)"
proof -
  obtain fa' where fa': "set_state fa p (AllocatedHead \<lparr>ref_count = of_nat (n p + 1), order = 0\<rparr>) = Some fa'"
    "counted (n(p := n p + 1)) fa'" "free_set (table fa') = free_set (table fa)"
    using counted_set_state [OF c p(1), of "n p + 1"] p(2) by auto
  then show thesis using that countedD(3) [OF c p(1)] counted_used(3) [OF c p(1)]
    by (simp add: page_allocation_clone_def Let_def cp_pfn_def fa_state_table add.commute)
qed

lemma counted_drop:
  assumes c: "counted n fa" and p: "0 < n p"
  obtains fa' where "page_allocation_drop fa (as_phys_range p) = Some fa'" "counted (n(p := n p - 1)) fa'"
    "free_set (table fa') = (if n p = 1 then insert p (free_set (table fa)) else free_set (table fa))"
proof (cases "n p = 1")
  case True
  obtain f where f: "table fa p = Some f" "state f = AllocatedHead \<lparr>ref_count = 1, order = 0\<rparr>"
    using countedD(3) [OF c p] True by (auto simp: st_of_def)
  have pfn: "unat (to_pfn (start_address (as_phys_range p))) = p" using counted_used(3) [OF c p] by (simp add: cp_pfn_def)
  obtain fa' where fa': "free_frames fa (as_phys_range p) = Some fa'" "fa_inv fa'"
    "free_set (table fa') = free_set (table fa) \<union> {p}"
    "\<forall>q. q \<notin> free_set (table fa') \<longrightarrow> table fa' q = table fa q"
    using free_frames_spec [OF countedD(1) [OF c], of "as_phys_range p", unfolded pfn, OF f] by (auto simp: blk_0)
  have "st_of (table fa') q = st_of (table fa) q" if "0 < n q" "q \<noteq> p" for q
    using fa'(3,4) counted_used(1) [OF c that(1)] that(2) by (simp add: st_of_def)
  then have "counted (n(p := n p - 1)) fa'" using fa'(2) countedD [OF c] True by (simp add: counted_def)
  then show thesis using that fa'(1,3) True by (simp add: page_allocation_drop_def)
next
  case False
  then have k: "0 < n p - 1" "n p - 1 < 2 ^ 32" using p countedD(2) [OF c p] by simp_all
  obtain fa' where fa': "set_state fa p (AllocatedHead \<lparr>ref_count = of_nat (n p - 1), order = 0\<rparr>) = Some fa'"
    "counted (n(p := n p - 1)) fa'" "free_set (table fa') = free_set (table fa)"
    using counted_set_state [OF c p k] by blast
  have "(of_nat (n p) :: u32) - 1 = of_nat (n p - 1)" using p by (simp add: of_nat_diff)
  moreover have "1 < (of_nat (n p) :: u32)"
    using k countedD(2) [OF c p] by (simp add: word_less_nat_alt unat_of_nat)
  ultimately have "page_allocation_drop fa (as_phys_range p) = Some fa'"
    using fa'(1) countedD(3) [OF c p] counted_used(3) [OF c p]
    by (simp add: page_allocation_drop_def free_frames_def Let_def cp_pfn_def fa_state_table)
  then show thesis using that fa'(2,3) False by simp
qed

lemma counted_exclusive:
  assumes c: "counted n fa" and p: "0 < n p"
  shows "is_allocated_exclusive fa p = Some (n p = 1)"
proof -
  have "(of_nat (n p) :: u32) = 1 \<longleftrightarrow> n p = 1"
    using countedD(2) [OF c p] by (simp add: word_unat_eq_iff unat_of_nat)
  then show ?thesis using is_allocated_exclusive_step [of fa p] countedD(3) [OF c p] by (simp add: fa_state_table)
qed

section \<open>The pool of user frames\<close>

text \<open>
  \<open>accounts n P km\<close>: every frame has exactly \<open>n p\<close> references, and \<open>P\<close> is the set of the frames that are
  referenced or free. As long as \<open>P\<close> stays the same no frame is lost, and since a referenced frame
  is never free none is freed too early.
\<close>

definition accounts :: "(nat \<Rightarrow> nat) \<Rightarrow> nat set \<Rightarrow> kmem \<Rightarrow> bool" where
  "accounts n P km \<longleftrightarrow>
     (\<exists>fa. page_alloc km = Some fa \<and> counted n fa \<and> {p. 0 < n p} \<union> free_set (table fa) = P)"

lemma accountsE:
  assumes "accounts n P km"
  obtains fa where "page_alloc km = Some fa" "counted n fa" "{p. 0 < n p} \<union> free_set (table fa) = P"
  using assms by (auto simp: accounts_def)

lemma accounts_pfn: "accounts n P km \<Longrightarrow> 0 < n p \<Longrightarrow> cp_pfn (as_phys_range p) = p"
  using counted_used(3) by (auto simp: accounts_def)

lemma alloc_zeroed_spec:
  assumes "accounts n P km"
  shows "alloc_zeroed km = Some (Inl NoMemory, km) \<or>
    (\<exists>p km'. alloc_zeroed km = Some (Inr (as_phys_range p), km') \<and> n p = 0 \<and> cp_pfn (as_phys_range p) = p \<and>
       accounts (n(p := 1)) P km' \<and>
       page_data km' = (page_data km)(p := \<lambda>_. 0) \<and> backings km' = backings km)"
proof -
  obtain fa where fa: "page_alloc km = Some fa" "counted n fa" "{p. 0 < n p} \<union> free_set (table fa) = P"
    using assms by (rule accountsE)
  from counted_alloc [OF fa(2)] show ?thesis
  proof (elim disjE exE conjE)
    assume "alloc_frames fa 0 = Some (Inl NoMemory, fa)"
    then show ?thesis using fa(1) by (simp add: alloc_zeroed_def cp_alloc_def)
  next
    fix p fa'
    assume run: "alloc_frames fa 0 = Some (Inr (as_phys_range p), fa')" "p \<in> free_set (table fa)" "n p = 0"
      and fa': "counted (n(p := 1)) fa'" "free_set (table fa') = free_set (table fa) - {p}"
    have pfn: "cp_pfn (as_phys_range p) = p" using counted_used(3) [OF fa'(1), of p] by simp
    have "{q. 0 < (n(p := 1)) q} \<union> free_set (table fa') = P"
      unfolding fa'(2) fa(3) [symmetric] using run(2) by (auto split: if_splits)
    then have "accounts (n(p := 1)) P (set_page (as_phys_range p) (\<lambda>_. 0) (km\<lparr>page_alloc := Some fa'\<rparr>))"
      using fa'(1) by (simp add: accounts_def set_page_def)
    then show ?thesis using run fa(1) pfn
      by (intro disjI2 exI [of _ p] exI [of _ "set_page (as_phys_range p) (\<lambda>_. 0) (km\<lparr>page_alloc := Some fa'\<rparr>)"])
        (simp add: alloc_zeroed_def cp_alloc_def set_page_def)
  qed
qed

lemma cp_drop_spec:
  assumes "accounts n P km" and p: "0 < n p"
  obtains km' where "cp_drop (as_phys_range p) km = Some km'" "accounts (n(p := n p - 1)) P km'"
    "page_data km' = page_data km" "backings km' = backings km"
proof -
  obtain fa where fa: "page_alloc km = Some fa" "counted n fa" "{p. 0 < n p} \<union> free_set (table fa) = P"
    using assms(1) by (rule accountsE)
  obtain fa' where fa': "page_allocation_drop fa (as_phys_range p) = Some fa'" "counted (n(p := n p - 1)) fa'"
    "free_set (table fa') = (if n p = 1 then insert p (free_set (table fa)) else free_set (table fa))"
    using counted_drop [OF fa(2) p] by blast
  have "{q. 0 < (n(p := n p - 1)) q} \<union> free_set (table fa') = P"
    unfolding fa'(3) fa(3) [symmetric] using p by (auto split: if_splits)
  then have "accounts (n(p := n p - 1)) P (km\<lparr>page_alloc := Some fa'\<rparr>)" using fa'(2) by (simp add: accounts_def)
  then show thesis using that [of "km\<lparr>page_alloc := Some fa'\<rparr>"] fa(1) fa'(1) by (simp add: cp_drop_def)
qed

section \<open>References held by backing objects\<close>

definition backing_refs :: "(usize, region) btree list \<Rightarrow> nat \<Rightarrow> nat" where
  "backing_refs bs p = length (filter (\<lambda>r. cp_pfn r = p) (map snd (concat bs)))"

lemma length_filter_bt_insert:
  "bt_ok m \<Longrightarrow> bt_get k m = None \<Longrightarrow>
     length (filter P (map snd (bt_insert k v m))) = length (filter P (map snd m)) + (if P v then 1 else 0)"
proof (induction m)
  case (Cons x m)
  obtain a w where x: "x = (a, w)" by (cases x)
  then have "a \<noteq> k" "bt_get k m = None" using Cons.prems(2) by (simp_all add: bt_get_def split: if_splits)
  then show ?case using Cons.IH Cons.prems(1) x by simp
qed simp

lemma backing_refs_simps:
  "backing_refs (xs @ ys) p = backing_refs xs p + backing_refs ys p"
  "backing_refs (m # xs) p = length (filter (\<lambda>r. cp_pfn r = p) (map snd m)) + backing_refs xs p"
  "backing_refs [] p = 0"
  by (simp_all add: backing_refs_def)

lemma backing_refs_insert:
  assumes "b < length bs" "bt_ok (bs ! b)" "bt_get k (bs ! b) = None"
  shows "backing_refs (bs[b := bt_insert k r (bs ! b)]) p = backing_refs bs p + (if cp_pfn r = p then 1 else 0)"
proof -
  have "backing_refs bs p = backing_refs (take b bs @ bs ! b # drop (Suc b) bs) p"
    using id_take_nth_drop [OF assms(1)] by simp
  then show ?thesis using assms(1) length_filter_bt_insert [OF assms(2,3)]
    by (simp add: backing_refs_simps upd_conv_take_nth_drop)
qed

lemma backing_refs_pos:
  assumes "b < length bs" "bt_get k (bs ! b) = Some r"
  shows "0 < backing_refs bs (cp_pfn r)"
proof -
  have "(k, r) \<in> set (bs ! b)" using map_of_SomeD [of "bs ! b" k] assms(2) by (simp add: bt_get_def)
  moreover have "bs ! b \<in> set bs" using assms(1) by (rule nth_mem)
  ultimately have "(k, r) \<in> set (concat bs)" by auto
  then have "r \<in> set (map snd (concat bs))" unfolding set_map by (rule image_eqI [rotated]) simp
  then have "filter (\<lambda>q. cp_pfn q = cp_pfn r) (map snd (concat bs)) \<noteq> []" unfolding filter_empty_conv by blast
  then show ?thesis unfolding backing_refs_def length_greater_0_conv .
qed

definition backings_ok :: "(usize, region) btree list \<Rightarrow> bool" where
  "backings_ok bs \<longleftrightarrow> (\<forall>m \<in> set bs. bt_ok m \<and> (\<forall>x \<in> set m. snd x = as_phys_range (cp_pfn (snd x))))"

lemma backings_okD:
  assumes "backings_ok bs" "b < length bs"
  shows "bt_ok (bs ! b)" and "x \<in> set (bs ! b) \<Longrightarrow> snd x = as_phys_range (cp_pfn (snd x))"
    and "bt_get k (bs ! b) = Some r \<Longrightarrow> r = as_phys_range (cp_pfn r)"
proof -
  have b: "bt_ok (bs ! b) \<and> (\<forall>x \<in> set (bs ! b). snd x = as_phys_range (cp_pfn (snd x)))"
    using assms nth_mem unfolding backings_ok_def by blast
  show "bt_ok (bs ! b)" and elem: "\<And>x. x \<in> set (bs ! b) \<Longrightarrow> snd x = as_phys_range (cp_pfn (snd x))" using b by blast+
  show "r = as_phys_range (cp_pfn r)" if "bt_get k (bs ! b) = Some r"
    using elem [of "(k, r)"] map_of_SomeD [of "bs ! b" k r] that by (simp add: bt_get_def)
qed

lemma backings_ok_insert:
  assumes ok: "backings_ok bs" "b < length bs" and p: "cp_pfn (as_phys_range p) = p"
  shows "backings_ok (bs[b := bt_insert k (as_phys_range p) (bs ! b)])"
proof -
  let ?m = "bt_insert k (as_phys_range p) (bs ! b)"
  have "bt_ok ?m" using backings_okD(1) [OF ok] by (rule bt_ok_insert)
  moreover have "snd x = as_phys_range (cp_pfn (snd x))" if "x \<in> set ?m" for x
    using that backings_okD(2) [OF ok, of x] p set_bt_insert [OF backings_okD(1) [OF ok], of k "as_phys_range p"] by auto
  ultimately show ?thesis using ok(1) set_update_subset_insert [of bs b ?m] unfolding backings_ok_def by blast
qed

text \<open>
  Claiming a page of a backing object: it counts one more reference, for the caller, to the page the
  object has at that offset. A page that is not yet there is a fresh zero page; one that is there
  keeps its bytes.
\<close>

lemma clone_claim:
  assumes acc: "accounts n P km" and p: "0 < n p" "n p + 1 < 2 ^ 32"
  shows "\<exists>fa fa'. page_alloc km = Some fa \<and> page_allocation_clone fa (as_phys_range p) = Some (as_phys_range p, fa') \<and>
    accounts (\<lambda>q. n q + (if q = p then 1 else 0)) P (km\<lparr>page_alloc := Some fa'\<rparr>)"
proof -
  obtain fa where fa: "page_alloc km = Some fa" "counted n fa" "{p. 0 < n p} \<union> free_set (table fa) = P"
    by (rule accountsE [OF acc])
  obtain fa' where fa': "page_allocation_clone fa (as_phys_range p) = Some (as_phys_range p, fa')"
    "counted (n(p := n p + 1)) fa'" "free_set (table fa') = free_set (table fa)" using counted_clone [OF fa(2) p] .
  have "(\<lambda>q. n q + (if q = p then 1 else 0)) = n(p := n p + 1)" by auto
  moreover have "{q. 0 < (n(p := n p + 1)) q} = {q. 0 < n q}" using p(1) by auto
  ultimately show ?thesis using fa fa' by (simp add: accounts_def)
qed

text \<open>
  The page \<open>p\<close> that a claim at offset \<open>k\<close> of the object \<open>b\<close> gives: the page that is there, with nothing
  changed, or a zero page that becomes the page of that offset and of no other.
\<close>

definition claimed :: "backing \<Rightarrow> usize \<Rightarrow> nat \<Rightarrow> kmem \<Rightarrow> kmem \<Rightarrow> bool" where
  "claimed b k p km km' \<longleftrightarrow> backings_ok (backings km') \<and> length (backings km') = length (backings km) \<and>
     bt_get k (backings km' ! b) = Some (as_phys_range p) \<and>
     (case bt_get k (backings km ! b) of
        Some r \<Rightarrow> r = as_phys_range p \<and> page_data km' = page_data km \<and> backings km' = backings km
      | None \<Rightarrow> page_data km' = (page_data km)(p := \<lambda>_. 0) \<and>
          backings km' = (backings km)[b := bt_insert k (as_phys_range p) (backings km ! b)])"

lemma shared_claim_page_spec:
  assumes acc: "accounts (\<lambda>p. m p + backing_refs (backings km) p) P km" and ok: "backings_ok (backings km)"
    and b: "b < length (backings km)" and room: "\<And>p. m p + backing_refs (backings km) p + 1 < 2 ^ 32"
  shows "shared_claim_page b k km = Some (Inl NoMemory, km) \<or>
    (\<exists>p km'. shared_claim_page b k km = Some (Inr p, km') \<and> claimed b k p km km' \<and>
       (bt_get k (backings km ! b) = None \<longrightarrow> m p + backing_refs (backings km) p = 0) \<and>
       accounts (\<lambda>q. m q + backing_refs (backings km') q + (if q = p then 1 else 0)) P km')"
proof (cases "bt_get k (backings km ! b)")
  case (Some r)
  let ?p = "cp_pfn r"
  have r: "r = as_phys_range ?p" using backings_okD(3) [OF ok b Some] .
  have "0 < m ?p + backing_refs (backings km) ?p" using backing_refs_pos [OF b Some] by simp
  from clone_claim [OF acc this room] obtain fa fa' where fa: "page_alloc km = Some fa"
    "page_allocation_clone fa (as_phys_range ?p) = Some (as_phys_range ?p, fa')"
    "accounts (\<lambda>q. m q + backing_refs (backings km) q + (if q = ?p then 1 else 0)) P (km\<lparr>page_alloc := Some fa'\<rparr>)" by blast
  have "shared_claim_page b k km = Some (Inr ?p, km\<lparr>page_alloc := Some fa'\<rparr>)"
    using b fa(1,2) r Some by (simp add: shared_claim_page_def shared_entry_def)
  then show ?thesis using fa(3) r Some ok by (auto simp: claimed_def)
next
  case None
  let ?n = "\<lambda>p. m p + backing_refs (backings km) p"
  from alloc_zeroed_spec [OF acc] show ?thesis
  proof (elim disjE exE conjE)
    assume "alloc_zeroed km = Some (Inl NoMemory, km)"
    then show ?thesis using None b by (simp add: shared_claim_page_def shared_entry_def)
  next
    fix p km1
    assume run: "alloc_zeroed km = Some (Inr (as_phys_range p), km1)" and p: "?n p = 0" "cp_pfn (as_phys_range p) = p"
      and km1: "accounts (?n(p := 1)) P km1" "page_data km1 = (page_data km)(p := \<lambda>_. 0)" "backings km1 = backings km"
    let ?bs = "(backings km)[b := bt_insert k (as_phys_range p) (backings km ! b)]"
    note bs = backing_refs_insert [OF b backings_okD(1) [OF ok b] None, of "as_phys_range p", unfolded p(2)]
    have "accounts (?n(p := 1)) P (km1\<lparr>backings := ?bs\<rparr>)" using km1(1) by (simp add: accounts_def)
    from clone_claim [OF this, of p] obtain fa fa' where fa: "page_alloc km1 = Some fa"
      "page_allocation_clone fa (as_phys_range p) = Some (as_phys_range p, fa')"
      "accounts (\<lambda>q. (?n(p := 1)) q + (if q = p then 1 else 0)) P (km1\<lparr>backings := ?bs, page_alloc := Some fa'\<rparr>)" by auto
    have "(\<lambda>q. (?n(p := 1)) q + (if q = p then 1 else 0)) = (\<lambda>q. m q + backing_refs ?bs q + (if q = p then 1 else 0))"
      using p(1) bs by auto
    note acc' = fa(3) [unfolded this]
    have "shared_claim_page b k km = Some (Inr p, km1\<lparr>backings := ?bs, page_alloc := Some fa'\<rparr>)"
      using b fa(1,2) run None p(2) km1(3) by (simp add: shared_claim_page_def shared_entry_def)
    moreover have "claimed b k p km (km1\<lparr>backings := ?bs, page_alloc := Some fa'\<rparr>)"
      using b None km1(2) backings_ok_insert [OF ok b p(2)] bt.get_after_ins [OF backings_okD(1) [OF ok b]] by (simp add: claimed_def)
    ultimately show ?thesis using acc' p(1) by auto
  qed
qed

end
