(* ===== verification/Fault.thy ===== *)
theory Fault
  imports Claimed_Page
begin

text \<open>
  The page-fault handlers (\<^verbatim>\<open>src/src/memory/fault.rs\<close>). The state is the virtual memory of the
  faulting process and the page memory of \<open>Claimed_Page\<close>; the process lock is held by a handler, so
  that a handler is one step. A fault on a file is deferred: the future reads the file into the
  new page without the lock (\<open>deferred_read\<close>) and then takes the lock to map it
  (\<open>deferred_map\<close>), so that other steps may come between the three.
  \<open>debug_assert!\<close> is not part of a release build.
\<close>

section \<open>The handlers\<close>

record deferred_fault =
  df_vma :: vmarea
  df_read :: VMAFileRead
  df_page :: region
  df_addr :: addr
  df_access :: AccessKind

datatype FaultResolution = Resolved | Denied | Deferred deferred_fault

definition set_as :: "'a \<Rightarrow> 'a process_vm \<Rightarrow> 'a process_vm" where
  "set_as as vm = vm\<lparr>vm_mm := (vm_mm vm)\<lparr>address_space := as\<rparr>\<rparr>"

abbreviation vm_as :: "'a process_vm \<Rightarrow> 'a" where
  "vm_as vm \<equiv> address_space (vm_mm vm)"

text \<open>
  The \<open>match\<close> on \<open>map_page\<close>, the same in all three places: a page that is mapped is leaked, so that
  the page table owns it; otherwise it is dropped when the handler returns.
\<close>

definition map_claimed ::
  "'a address_space_ops \<Rightarrow> region \<Rightarrow> addr \<Rightarrow> PtePermissions \<Rightarrow> 'a process_vm \<times> kmem \<Rightarrow>
    (unit result \<times> 'a process_vm \<times> kmem) option" where
  "map_claimed ops page page_va perms = (\<lambda>(vm, km).
     (case as_map_page ops (vm_as vm) (cp_pfn page) page_va perms of
        (Inr _, as) \<Rightarrow> Some (Inr (), set_as as vm, km)
      | (Inl e, as) \<Rightarrow>
          map_option (\<lambda>km. (if e = MappingError Map_AlreadyMapped then Inr () else Inl e, set_as as vm, km))
            (cp_drop page km)))"

definition handle_demand_fault ::
  "'a address_space_ops \<Rightarrow> addr \<Rightarrow> AccessKind \<Rightarrow> 'a process_vm \<times> kmem \<Rightarrow>
    (FaultResolution result \<times> 'a process_vm \<times> kmem) option" where
  "handle_demand_fault ops faulting_addr access_kind = (\<lambda>(vm, km).
     do {
       found \<leftarrow> find_vma_for_fault vm faulting_addr access_kind;
       (case found of
          None \<Rightarrow> Some (Inr Denied, vm, km)
        | Some vma \<Rightarrow>
            let page_va = page_aligned faulting_addr
            in case vkind vma of
                 SharedAnon mapping \<Rightarrow>
                   do {
                     (frame, km) \<leftarrow> claim_page shared_claim_page mapping (page_va - start_address (vregion vma)) km;
                     (case frame of
                        Inl e \<Rightarrow> Some (Inl e, vm, km)
                      | Inr frame \<Rightarrow>
                          map_option (apfst (map_sum id (\<lambda>_. Resolved)))
                            (map_claimed ops (cp_from_pfn frame) page_va (pte_of_vma (vperms vma)) (vm, km)))
                   }
               | _ \<Rightarrow>
                   do {
                     (new_page, km) \<leftarrow> alloc_zeroed km;
                     (case new_page of
                        Inl e \<Rightarrow> Some (Inl e, vm, km)
                      | Inr new_page \<Rightarrow>
                          (case resolve_fault vma faulting_addr of
                             Some file_read \<Rightarrow>
                               Some (Inr (Deferred \<lparr>df_vma = vma, df_read = file_read, df_page = new_page,
                                                    df_addr = faulting_addr, df_access = access_kind\<rparr>), vm, km)
                           | None \<Rightarrow>
                               map_option (apfst (map_sum id (\<lambda>_. Resolved)))
                                 (map_claimed ops new_page page_va (pte_of_vma (vperms vma)) (vm, km))))
                   })
     })"

text \<open>
  The two halves of the deferred future. \<open>read_at inode offset len\<close> is \<open>Inode::read_at\<close>: the bytes it
  puts into a buffer of \<open>len\<close> bytes, or an error. The slice of the page panics when it is out of range.
\<close>

definition deferred_read ::
  "(inode \<Rightarrow> u64 \<Rightarrow> nat \<Rightarrow> 8 word list result) \<Rightarrow> deferred_fault \<Rightarrow> kmem \<Rightarrow> (unit result \<times> kmem) option" where
  "deferred_read read_at d km =
     (let pg_off = read_page_offset (df_read d); slice_end = pg_off + read_len (df_read d)
      in if slice_end < pg_off \<or> slice_end > PAGE_SIZE then None
         else
           case read_at (read_inode (df_read d)) (file_offset (df_read d)) (unat (read_len (df_read d))) of
             Inl e \<Rightarrow> map_option (Pair (Inl e)) (cp_drop (df_page d) km)
           | Inr bs \<Rightarrow>
               Some (Inr (), set_page (df_page d)
                 (\<lambda>j. if unat pg_off \<le> j \<and> j < unat pg_off + min (length bs) (unat (read_len (df_read d)))
                      then bs ! (j - unat pg_off) else page_data km (cp_pfn (df_page d)) j) km))"

definition deferred_map ::
  "'a address_space_ops \<Rightarrow> deferred_fault \<Rightarrow> 'a process_vm \<times> kmem \<Rightarrow>
    (unit result \<times> 'a process_vm \<times> kmem) option" where
  "deferred_map ops d = (\<lambda>(vm, km).
     do {
       found \<leftarrow> find_vma_for_fault vm (df_addr d) (df_access d);
       if found = Some (df_vma d)
       then map_claimed ops (df_page d) (page_aligned (df_addr d)) (pte_of_vma (vperms (df_vma d))) (vm, km)
       else map_option (\<lambda>km. (Inr (), vm, km)) (cp_drop (df_page d) km)
     })"

definition page_region_of :: "addr \<Rightarrow> region" where
  "page_region_of a = rnew (page_aligned a) PAGE_SIZE"

definition handle_protection_fault ::
  "'a address_space_ops \<Rightarrow> addr \<Rightarrow> AccessKind \<Rightarrow> PageInfo \<Rightarrow> 'a process_vm \<times> kmem \<Rightarrow>
    (FaultResolution result \<times> 'a process_vm \<times> kmem) option" where
  "handle_protection_fault ops faulting_addr access_kind pg_info = (\<lambda>(vm, km).
     (if access_kind = AccessWrite \<and> pte_cow (info_perms pg_info)
      then
        let new_pte_perms = from_cow (info_perms pg_info)
        in do {
             fa \<leftarrow> page_alloc km;
             exclusive \<leftarrow> is_allocated_exclusive fa (info_pfn pg_info);
             if exclusive
             then
               (case as_protect_range ops (vm_as vm) (page_region_of faulting_addr) new_pte_perms of
                  (Inl e, as) \<Rightarrow> Some (Inl e, set_as as vm, km)
                | (Inr _, as) \<Rightarrow> Some (Inr Resolved, set_as as vm, km))
             else
               do {
                 (new_page, km) \<leftarrow> alloc_zeroed km;
                 (case new_page of
                    Inl e \<Rightarrow> Some (Inl e, vm, km)
                  | Inr new_page \<Rightarrow>
                      let src_page = cp_from_pfn (info_pfn pg_info);
                          km = set_page new_page (page_data km (cp_pfn src_page)) km
                      in case as_remap ops (vm_as vm) faulting_addr (cp_pfn new_page) new_pte_perms of
                           (Inl _, _) \<Rightarrow> None
                         | (Inr _, as) \<Rightarrow>
                             map_option (\<lambda>km. (Inr Resolved, set_as as vm, km)) (cp_drop src_page km))
               }
           }
      else Some (Inr Denied, vm, km)))"

section \<open>References of a process\<close>

definition page_refs :: "'a address_space_ops \<Rightarrow> 'a \<Rightarrow> nat \<Rightarrow> nat" where
  "page_refs ops as p = card {a. is_page_aligned a \<and> map_option info_pfn (as_translate ops as a) = Some p}"

definition refs :: "'a address_space_ops \<Rightarrow> (nat \<Rightarrow> nat) \<Rightarrow> 'a \<Rightarrow> kmem \<Rightarrow> nat \<Rightarrow> nat" where
  "refs ops ext as km p = ext p + page_refs ops as p + backing_refs (backings km) p"

definition refs_ok :: "'a address_space_ops \<Rightarrow> (nat \<Rightarrow> nat) \<Rightarrow> nat set \<Rightarrow> 'a process_vm \<times> kmem \<Rightarrow> bool" where
  "refs_ok ops ext P = (\<lambda>(vm, km).
     accounts (refs ops ext (vm_as vm) km) P km \<and> backings_ok (backings km))"

text \<open>What the trait documents of the page tables.\<close>

definition maps_page :: "'a address_space_ops \<Rightarrow> bool" where
  "maps_page ops \<longleftrightarrow> (\<forall>as p a c res as'. is_page_aligned a \<longrightarrow> as_map_page ops as p a c = (res, as') \<longrightarrow>
     (case res of
        Inl e \<Rightarrow> as_translate ops as' = as_translate ops as \<and>
          (e = MappingError Map_AlreadyMapped \<longrightarrow> as_translate ops as a \<noteq> None)
      | Inr _ \<Rightarrow> as_translate ops as a = None \<and>
          as_translate ops as' =
            (\<lambda>b. if page_aligned b = a then Some \<lparr>info_pfn = p, info_perms = c\<rparr> else as_translate ops as b)))"

definition remaps_page :: "'a address_space_ops \<Rightarrow> bool" where
  "remaps_page ops \<longleftrightarrow> (\<forall>as a p c i. as_translate ops as a = Some i \<longrightarrow>
     (\<exists>as'. as_remap ops as a p c = (Inr (info_pfn i), as') \<and>
        as_translate ops as' =
          (\<lambda>b. if page_aligned b = page_aligned a then Some \<lparr>info_pfn = p, info_perms = c\<rparr> else as_translate ops as b)))"

definition protects_range :: "'a address_space_ops \<Rightarrow> bool" where
  "protects_range ops \<longleftrightarrow> (\<forall>as r c res as' b. 4096 dvd lo r \<longrightarrow> 4096 dvd hi r \<longrightarrow> as_protect_range ops as r c = (res, as') \<longrightarrow>
     map_option info_pfn (as_translate ops as' b) = map_option info_pfn (as_translate ops as b) \<and>
     (\<forall>u. res = Inr u \<longrightarrow> as_translate ops as' b =
        (if unat b \<in> span r then map_option (info_perms_update (\<lambda>_. c)) (as_translate ops as b) else as_translate ops as b)))"

definition by_page :: "'a address_space_ops \<Rightarrow> bool" where
  "by_page ops \<longleftrightarrow> (\<forall>as a. as_translate ops as (page_aligned a) = as_translate ops as a)"

lemma page_aligned_simps [simp]:
  "is_page_aligned (page_aligned a)" "is_page_aligned a \<Longrightarrow> page_aligned a = a"
proof -
  show "is_page_aligned (page_aligned a)"
    by (simp add: is_page_aligned_dvd unat_page_aligned round_down_def)
  show "page_aligned a = a" if "is_page_aligned a"
    using that by (simp add: is_page_aligned_dvd unat_eq_usize unat_page_aligned round_down_def)
qed

lemma page_refs_cong:
  "(\<And>a. map_option info_pfn (as_translate ops as' a) = map_option info_pfn (as_translate ops as a)) \<Longrightarrow>
     page_refs ops as' = page_refs ops as"
  by (simp add: page_refs_def fun_eq_iff)

lemma page_refs_set:
  assumes a: "is_page_aligned a"
    and new: "as_translate ops as' = (\<lambda>b. if page_aligned b = a then Some \<lparr>info_pfn = p, info_perms = c\<rparr> else as_translate ops as b)"
  shows "page_refs ops as' q + (if map_option info_pfn (as_translate ops as a) = Some q then 1 else 0) =
    page_refs ops as q + (if p = q then 1 else 0)"
proof -
  let ?S = "\<lambda>as. {b. is_page_aligned b \<and> map_option info_pfn (as_translate ops as b) = Some q}"
  have "?S as' - {a} = ?S as - {a}" using a by (auto simp: new)
  moreover have "card (?S as) = card (?S as - {a}) + (if a \<in> ?S as then 1 else 0)" for as
    using card_Suc_Diff1 [of "?S as" a] by (cases "a \<in> ?S as") auto
  moreover have "a \<in> ?S as' \<longleftrightarrow> p = q" "a \<in> ?S as \<longleftrightarrow> map_option info_pfn (as_translate ops as a) = Some q"
    using a by (auto simp: new)
  ultimately show ?thesis unfolding page_refs_def by simp
qed

text \<open>A handler holds one reference more than the rest of the system knows of.\<close>

abbreviation holding :: "nat \<Rightarrow> (nat \<Rightarrow> nat) \<Rightarrow> nat \<Rightarrow> nat" where
  "holding p ext \<equiv> ext(p := Suc (ext p))"

lemma set_as_simps [simp]:
  "vm_as (set_as as vm) = as" "vmas (vm_mm (set_as as vm)) = vmas (vm_mm vm)" "vm_brk (set_as as vm) = vm_brk vm"
  "set_as (vm_as vm) vm = vm"
  by (simp_all add: set_as_def)

lemma refs_cong: "page_refs ops as' = page_refs ops as \<Longrightarrow> backings km' = backings km \<Longrightarrow> refs ops ext as' km' = refs ops ext as km"
  by (simp add: refs_def fun_eq_iff)

lemma refs_holding: "refs ops (holding p ext) as km = (refs ops ext as km)(p := Suc (refs ops ext as km p))"
  by (auto simp: refs_def)

lemma refs_okD:
  assumes "refs_ok ops ext P (vm, km)"
  shows "accounts (refs ops ext (vm_as vm) km) P km" "backings_ok (backings km)"
  using assms by (simp_all add: refs_ok_def)

lemma refs_ok_pfn: "refs_ok ops (holding p ext) P (vm, km) \<Longrightarrow> cp_pfn (as_phys_range p) = p"
  using accounts_pfn [OF refs_okD(1), of ops "holding p ext" P vm km p] by (simp add: refs_holding)

text \<open>Giving a held page back.\<close>

lemma drop_held:
  assumes "refs_ok ops (holding p ext) P (vm, km)" and "page_refs ops as' = page_refs ops (vm_as vm)"
  obtains km' where "cp_drop (as_phys_range p) km = Some km'" "refs_ok ops ext P (set_as as' vm, km')"
    "page_data km' = page_data km" "backings km' = backings km"
proof -
  note acc = refs_okD(1) [OF assms(1)]
  have pos: "0 < refs ops (holding p ext) (vm_as vm) km p" by (simp add: refs_holding)
  obtain km' where km': "cp_drop (as_phys_range p) km = Some km'" 
    "accounts ((refs ops (holding p ext) (vm_as vm) km)(p := refs ops (holding p ext) (vm_as vm) km p - 1)) P km'"
    "page_data km' = page_data km" "backings km' = backings km" using cp_drop_spec [OF acc pos] .
  have "(refs ops (holding p ext) (vm_as vm) km)(p := refs ops (holding p ext) (vm_as vm) km p - 1) = refs ops ext as' km'"
    using refs_cong [OF assms(2) km'(4), of ext] by (simp add: refs_holding)
  then have "refs_ok ops ext P (set_as as' vm, km')" using km'(2,4) refs_okD(2) [OF assms(1)] by (simp add: refs_ok_def)
  then show thesis using that km' by blast
qed

lemma map_claimed_spec:
  assumes laws: "maps_page ops" and ok: "refs_ok ops (holding p ext) P (vm, km)" and a: "is_page_aligned a"
  obtains res as' km' where "map_claimed ops (as_phys_range p) a c (vm, km) = Some (res, set_as as' vm, km')"
    "refs_ok ops ext P (set_as as' vm, km')" "page_data km' = page_data km" "backings km' = backings km"
    "as_translate ops as' = as_translate ops (vm_as vm) \<and> (res = Inr () \<longrightarrow> as_translate ops (vm_as vm) a \<noteq> None) \<or>
     res = Inr () \<and> as_translate ops (vm_as vm) a = None \<and> as_translate ops as' =
       (\<lambda>b. if page_aligned b = a then Some \<lparr>info_pfn = p, info_perms = c\<rparr> else as_translate ops (vm_as vm) b)"
proof -
  note pfn = refs_ok_pfn [OF ok]
  obtain r as' where run: "as_map_page ops (vm_as vm) p a c = (r, as')" by fastforce
  note law = laws [unfolded maps_page_def, rule_format, OF a run]
  show thesis
  proof (cases r)
    case (Inl e)
    then have same: "as_translate ops as' = as_translate ops (vm_as vm)" using law by simp
    then have "page_refs ops as' = page_refs ops (vm_as vm)" by (intro page_refs_cong) simp
    then obtain km' where "cp_drop (as_phys_range p) km = Some km'" "refs_ok ops ext P (set_as as' vm, km')"
      "page_data km' = page_data km" "backings km' = backings km" using drop_held [OF ok] by blast
    then show thesis using that [of "if e = MappingError Map_AlreadyMapped then Inr () else Inl e" as' km'] run Inl law same pfn
      by (auto simp: map_claimed_def)
  next
    case (Inr u)
    then have new: "as_translate ops (vm_as vm) a = None"
      "as_translate ops as' = (\<lambda>b. if page_aligned b = a then Some \<lparr>info_pfn = p, info_perms = c\<rparr> else as_translate ops (vm_as vm) b)"
      using law by simp_all
    have "refs ops ext as' km = refs ops (holding p ext) (vm_as vm) km"
      using page_refs_set [OF a new(2)] new(1) by (auto simp: refs_def)
    then have "refs_ok ops ext P (set_as as' vm, km)" using ok by (simp add: refs_ok_def)
    then show thesis using that [of "Inr ()" as' km] run Inr new pfn by (simp add: map_claimed_def)
  qed
qed

lemma alloc_zeroed_held:
  assumes "refs_ok ops ext P (vm, km)"
  shows "alloc_zeroed km = Some (Inl NoMemory, km) \<or>
    (\<exists>p km'. alloc_zeroed km = Some (Inr (as_phys_range p), km') \<and> refs ops ext (vm_as vm) km p = 0 \<and>
       refs_ok ops (holding p ext) P (vm, km') \<and>
       page_data km' = (page_data km)(p := \<lambda>_. 0) \<and> backings km' = backings km)"
  using alloc_zeroed_spec [OF refs_okD(1) [OF assms]]
proof (elim disjE exE conjE)
  fix p km'
  assume run: "alloc_zeroed km = Some (Inr (as_phys_range p), km')" "refs ops ext (vm_as vm) km p = 0"
    and km': "accounts ((refs ops ext (vm_as vm) km)(p := 1)) P km'" "page_data km' = (page_data km)(p := \<lambda>_. 0)" "backings km' = backings km"
  have "refs ops (holding p ext) (vm_as vm) km' = (refs ops ext (vm_as vm) km)(p := 1)"
    unfolding refs_holding refs_cong [OF refl km'(3)] using run(2) by simp
  then have "refs_ok ops (holding p ext) P (vm, km')" using km'(1,3) refs_okD(2) [OF assms] by (simp add: refs_ok_def)
  then show ?thesis using run km'(2,3) by blast
qed simp

end
