(* ===== verification/Fd_Table.thy ===== *)
theory Fd_Table
  imports Kernel_Error
begin

text \<open>
  The file descriptors of a process (\<^verbatim>\<open>src/src/process/fd_table.rs\<close>) and the system calls that
  copy and configure them (\<^verbatim>\<open>fd_table/dup.rs\<close>, \<^verbatim>\<open>fd_table/fcntl.rs\<close>). An open file is shared
  by reference (\<open>Arc<OpenFile>\<close>): the table holds its identity, and the files themselves are a store
  from identities. A descriptor is an \<open>i32\<close>; \<open>fd.0 as usize\<close> extends its sign. Growing the table to
  more entries than \<open>Vec\<close> can ever have is a panic; running out of memory is not modelled.
\<close>

section \<open>The table\<close>

type_synonym fd = "32 word"
type_synonym file_id = nat

definition CLOEXEC :: u32 where
  "CLOEXEC = 1"

record fd_entry =
  fe_file :: file_id
  fe_flags :: u32

record fd_table =
  fd_entries :: "fd_entry option list"
  next_fd_hint :: nat

definition MAX_FDS :: nat where
  "MAX_FDS = 8192"

definition fd_idx :: "fd \<Rightarrow> nat" where
  "fd_idx fd = unat (scast fd :: usize)"

definition fd_of :: "nat \<Rightarrow> fd" where
  "fd_of i = of_nat i"

definition fd_table_new :: fd_table where
  "fd_table_new = \<lparr>fd_entries = [], next_fd_hint = 0\<rparr>"

definition fd_entry_at :: "fd_table \<Rightarrow> nat \<Rightarrow> fd_entry option" where
  "fd_entry_at t i = (if i < length (fd_entries t) then fd_entries t ! i else None)"

definition fd_get :: "fd_table \<Rightarrow> fd \<Rightarrow> file_id option" where
  "fd_get t fd = map_option fe_file (fd_entry_at t (fd_idx fd))"

definition free_from :: "fd_table \<Rightarrow> nat \<Rightarrow> nat option" where
  "free_from t i = find (\<lambda>i. fd_entries t ! i = None) [i..<length (fd_entries t)]"

definition find_free_fd :: "fd_table \<Rightarrow> fd result \<times> fd_table" where
  "find_free_fd t =
     (case free_from t (next_fd_hint t) of
        Some i \<Rightarrow> (Inr (fd_of i), t\<lparr>next_fd_hint := i + 1\<rparr>)
      | None \<Rightarrow>
          let next_fd = length (fd_entries t)
          in if next_fd \<ge> MAX_FDS then (Inl (Fs Fs_TooManyFiles), t)
             else (Inr (fd_of next_fd), t\<lparr>next_fd_hint := next_fd + 1\<rparr>))"

definition insert_at :: "fd \<Rightarrow> fd_entry \<Rightarrow> fd_table \<Rightarrow> (fd_entry option \<times> fd_table) option" where
  "insert_at fd entry t =
     (let i = fd_idx fd;
          es = (if i \<ge> length (fd_entries t)
                then fd_entries t @ replicate (i + 1 - length (fd_entries t)) None else fd_entries t)
      in if i \<ge> length (fd_entries t) \<and> i \<ge> 2 ^ 63 then None
         else Some (es ! i, t\<lparr>fd_entries := es[i := Some entry]\<rparr>))"

definition insert_with_flags :: "file_id \<Rightarrow> u32 \<Rightarrow> fd_table \<Rightarrow> (fd result \<times> fd_table) option" where
  "insert_with_flags f flags t =
     (case find_free_fd t of
        (Inl e, t) \<Rightarrow> Some (Inl e, t)
      | (Inr fd, t) \<Rightarrow> map_option (\<lambda>(_, t). (Inr fd, t)) (insert_at fd \<lparr>fe_file = f, fe_flags = flags\<rparr> t))"

definition fd_insert :: "file_id \<Rightarrow> fd_table \<Rightarrow> (fd result \<times> fd_table) option" where
  "fd_insert f t = insert_with_flags f 0 t"

definition insert_above :: "fd \<Rightarrow> file_id \<Rightarrow> fd_table \<Rightarrow> (fd result \<times> fd_table) option" where
  "insert_above min_fd f t =
     (let entry = \<lparr>fe_file = f, fe_flags = 0\<rparr>
      in case free_from t (fd_idx min_fd) of
           Some i \<Rightarrow> map_option (\<lambda>(_, t). (Inr (fd_of i), t)) (insert_at (fd_of i) entry t)
         | None \<Rightarrow> Some (Inr (fd_of (length (fd_entries t))), t\<lparr>fd_entries := fd_entries t @ [Some entry]\<rparr>))"

definition set_flags :: "(u32 \<Rightarrow> u32) \<Rightarrow> fd \<Rightarrow> fd_table \<Rightarrow> unit result \<times> fd_table" where
  "set_flags g fd t =
     (case fd_entry_at t (fd_idx fd) of
        None \<Rightarrow> (Inl BadFd, t)
      | Some e \<Rightarrow> (Inr (), t\<lparr>fd_entries := (fd_entries t)[fd_idx fd := Some (e\<lparr>fe_flags := g (fe_flags e)\<rparr>)]\<rparr>))"

definition add_flags :: "fd \<Rightarrow> u32 \<Rightarrow> fd_table \<Rightarrow> unit result \<times> fd_table" where
  "add_flags fd flags t = set_flags (\<lambda>old. old OR flags) fd t"

definition fd_remove :: "fd \<Rightarrow> fd_table \<Rightarrow> file_id option \<times> fd_table" where
  "fd_remove fd t =
     (case fd_entry_at t (fd_idx fd) of
        None \<Rightarrow> (None, t)
      | Some e \<Rightarrow>
          (Some (fe_file e),
           t\<lparr>fd_entries := (fd_entries t)[fd_idx fd := None], next_fd_hint := min (next_fd_hint t) (fd_idx fd)\<rparr>))"

text \<open>
  \<open>close_cloexec_entries\<close>, with the files removed, in order. A file whose last reference this was is
  then released, which is the file's own operation.
\<close>

definition cloexec_fds :: "fd_table \<Rightarrow> nat list" where
  "cloexec_fds t =
     filter (\<lambda>i. case fd_entries t ! i of None \<Rightarrow> False | Some e \<Rightarrow> fe_flags e AND CLOEXEC = CLOEXEC)
       [0..<length (fd_entries t)]"

fun remove_all :: "nat list \<Rightarrow> fd_table \<Rightarrow> file_id list \<times> fd_table" where
  "remove_all [] t = ([], t)"
| "remove_all (i # is) t =
     (case fd_remove (fd_of i) t of
        (None, t) \<Rightarrow> remove_all is t
      | (Some f, t) \<Rightarrow> apfst ((#) f) (remove_all is t))"

definition close_cloexec_entries :: "fd_table \<Rightarrow> file_id list \<times> fd_table" where
  "close_cloexec_entries t = remove_all (cloexec_fds t) t"

definition fd_len :: "fd_table \<Rightarrow> nat" where
  "fd_len t = length (filter (\<lambda>e. e \<noteq> None) (fd_entries t))"

section \<open>Copying and configuring descriptors\<close>

definition O_CLOEXEC :: u32 where "O_CLOEXEC = 0x80000"
definition O_APPEND :: u32 where "O_APPEND = 0x400"
definition O_NONBLOCK :: u32 where "O_NONBLOCK = 0x800"

text \<open>The union of all flags of \<open>OpenFlags\<close>, with the value of \<open>O_LARGEFILE\<close> on AArch64.\<close>

definition open_flags_all :: u32 where
  "open_flags_all = 0xB0EC3"

record open_file =
  of_inode :: "nat option"
  of_path :: "string option"
  of_flags :: u32

definition set_status_flags :: "u32 \<Rightarrow> open_file \<Rightarrow> open_file" where
  "set_status_flags flags f =
     (let mutable = O_APPEND OR O_NONBLOCK
      in f\<lparr>of_flags := (of_flags f AND NOT mutable) OR (flags AND mutable)\<rparr>)"

record fd_state =
  st_fds :: fd_table
  st_files :: "file_id \<Rightarrow> open_file"

definition dup_fd :: "fd \<Rightarrow> fd option \<Rightarrow> fd_table \<Rightarrow> (fd result \<times> fd_table) option" where
  "dup_fd fd min_fd t =
     (case fd_get t fd of
        None \<Rightarrow> Some (Inl BadFd, t)
      | Some f \<Rightarrow>
          (case min_fd of
             Some min_fd \<Rightarrow> insert_above min_fd f t
           | None \<Rightarrow> fd_insert f t))"

definition raw_fd :: "fd \<Rightarrow> usize" where
  "raw_fd fd = scast fd"

definition sys_dup :: "fd \<Rightarrow> fd_table \<Rightarrow> (usize result \<times> fd_table) option" where
  "sys_dup fd t = map_option (apfst (map_sum id raw_fd)) (dup_fd fd None t)"

definition sys_dup3 :: "fd \<Rightarrow> fd \<Rightarrow> u32 \<Rightarrow> fd_table \<Rightarrow> (usize result \<times> fd_table) option" where
  "sys_dup3 oldfd newfd flags t =
     (if oldfd = newfd then Some (Inl InvalidValue, t)
      else if flags AND NOT O_CLOEXEC \<noteq> 0 then Some (Inl InvalidValue, t)
      else
        case fd_get t oldfd of
          None \<Rightarrow> Some (Inl BadFd, t)
        | Some f \<Rightarrow>
            map_option (\<lambda>(_, t). (Inr (raw_fd newfd), t))
              (insert_at newfd
                 \<lparr>fe_file = f, fe_flags = (if flags AND O_CLOEXEC = O_CLOEXEC then CLOEXEC else 0)\<rparr> t))"

definition F_DUPFD :: u32 where "F_DUPFD = 0"
definition F_GETFD :: u32 where "F_GETFD = 1"
definition F_SETFD :: u32 where "F_SETFD = 2"
definition F_GETFL :: u32 where "F_GETFL = 3"
definition F_SETFL :: u32 where "F_SETFL = 4"
definition F_DUPFD_CLOEXEC :: u32 where "F_DUPFD_CLOEXEC = 1024 + 6"

definition sys_fcntl :: "fd \<Rightarrow> u32 \<Rightarrow> usize \<Rightarrow> fd_state \<Rightarrow> (usize result \<times> fd_state) option" where
  "sys_fcntl fd cmd arg st =
     (let t = st_fds st; entry = fd_entry_at t (fd_idx fd)
      in if cmd = F_DUPFD
         then map_option (\<lambda>(res, t). (map_sum id raw_fd res, st\<lparr>st_fds := t\<rparr>)) (dup_fd fd (Some (ucast arg)) t)
         else if cmd = F_DUPFD_CLOEXEC
         then
           do {
             (res, t) \<leftarrow> dup_fd fd (Some (ucast arg)) t;
             (case res of
                Inl e \<Rightarrow> Some (Inl e, st\<lparr>st_fds := t\<rparr>)
              | Inr new_fd \<Rightarrow>
                  let (r, t) = add_flags new_fd CLOEXEC t
                  in Some (map_sum id (\<lambda>_. raw_fd new_fd) r, st\<lparr>st_fds := t\<rparr>))
           }
         else if cmd = F_GETFD
         then Some (case entry of None \<Rightarrow> Inl BadFd | Some e \<Rightarrow> Inr (ucast (fe_flags e)), st)
         else if cmd = F_SETFD
         then
           (case entry of
              None \<Rightarrow> Some (Inl BadFd, st)
            | Some e \<Rightarrow>
                let new_flags = ucast arg :: u32
                in if new_flags AND NOT CLOEXEC \<noteq> 0 then Some (Inl InvalidValue, st)
                   else Some (Inr 0, st\<lparr>st_fds := snd (set_flags (\<lambda>_. new_flags) fd t)\<rparr>))
         else if cmd = F_GETFL
         then Some (case entry of None \<Rightarrow> Inl BadFd | Some e \<Rightarrow> Inr (ucast (of_flags (st_files st (fe_file e)))), st)
         else if cmd = F_SETFL
         then
           (let fl = ucast arg :: u32
            in if fl AND NOT open_flags_all \<noteq> 0 then Some (Inl InvalidValue, st)
               else
                 case entry of
                   None \<Rightarrow> Some (Inl BadFd, st)
                 | Some e \<Rightarrow>
                     Some (Inr 0, st\<lparr>st_files := (st_files st)(fe_file e := set_status_flags fl (st_files st (fe_file e)))\<rparr>))
         else Some (Inl InvalidValue, st))"

section \<open>The lowest free descriptor\<close>

lemma fd_idx_of:
  assumes "i < 2 ^ 31"
  shows "fd_idx (fd_of i) = i"
proof -
  have "sint (of_nat i :: 32 word) = int i"
    using assms int_word_sint [of "int i", where ?'a = 32] by simp
  then have "(scast (of_nat i :: 32 word) :: usize) = of_nat i" by (simp add: scast_eq)
  then show ?thesis using assms by (simp add: fd_idx_def fd_of_def unat_of_nat)
qed

lemma fd_idx_range: "fd_idx fd < 2 ^ 31 \<or> 2 ^ 63 \<le> fd_idx fd"
proof -
  have idx: "int (fd_idx fd) = sint fd mod 2 ^ 64" unfolding fd_idx_def scast_eq uint_nat [symmetric] uint_word_of_int by simp
  have "- (2 ^ 31) \<le> sint fd" "sint fd < 2 ^ 31" using sint_greater_eq [of fd] sint_less [of fd] by simp_all
  then have "sint fd mod 2 ^ 64 = (if sint fd < 0 then sint fd + 2 ^ 64 else sint fd)"
    using mod_pos_pos_trivial [of "sint fd + 2 ^ 64" "2 ^ 64 :: int"] by (auto simp: mod_pos_pos_trivial)
  then show ?thesis using idx \<open>- (2 ^ 31) \<le> sint fd\<close> \<open>sint fd < 2 ^ 31\<close> by (simp split: if_splits)
qed

lemma fd_entry_at_None: "length (fd_entries t) \<le> i \<Longrightarrow> fd_entry_at t i = None"
  by (simp add: fd_entry_at_def)

lemma free_from_Some:
  assumes "free_from t i = Some j"
  shows "i \<le> j" "j < length (fd_entries t)" "fd_entry_at t j = None" "\<And>k. i \<le> k \<Longrightarrow> k < j \<Longrightarrow> fd_entry_at t k \<noteq> None"
proof -
  let ?xs = "[i..<length (fd_entries t)]"
  obtain n where n: "n < length ?xs" "fd_entries t ! (?xs ! n) = None" "j = ?xs ! n" "\<forall>m < n. fd_entries t ! (?xs ! m) \<noteq> None"
    using assms unfolding free_from_def find_Some_iff by blast
  then have j: "j = i + n" "n < length (fd_entries t) - i" by simp_all
  then show "i \<le> j" "j < length (fd_entries t)" "fd_entry_at t j = None" using n by (simp_all add: fd_entry_at_def)
  show "fd_entry_at t k \<noteq> None" if "i \<le> k" "k < j" for k
    using n(4) [rule_format, of "k - i"] that j by (simp add: fd_entry_at_def)
qed

lemma free_from_None: "free_from t i = None \<Longrightarrow> i \<le> k \<Longrightarrow> k < length (fd_entries t) \<Longrightarrow> fd_entry_at t k \<noteq> None"
  by (auto simp: free_from_def find_None_iff fd_entry_at_def)

lemma insert_at_spec:
  assumes "fd_idx fd < 2 ^ 31"
  obtains t' where "insert_at fd e t = Some (fd_entry_at t (fd_idx fd), t')" "fd_entry_at t' = (fd_entry_at t)(fd_idx fd \<mapsto> e)"
    "next_fd_hint t' = next_fd_hint t" "length (fd_entries t') = max (length (fd_entries t)) (fd_idx fd + 1)"
proof -
  let ?i = "fd_idx fd"
  let ?es = "if ?i \<ge> length (fd_entries t) then fd_entries t @ replicate (?i + 1 - length (fd_entries t)) None else fd_entries t"
  have len: "length ?es = max (length (fd_entries t)) (?i + 1)" by simp
  have nth: "?es ! j = fd_entry_at t j" if "j < length ?es" for j
    using that by (auto simp: fd_entry_at_def nth_append)
  have "insert_at fd e t = Some (fd_entry_at t ?i, t\<lparr>fd_entries := ?es[?i := Some e]\<rparr>)"
    using assms nth [of ?i] len by (simp add: insert_at_def Let_def)
  moreover have "fd_entry_at (t\<lparr>fd_entries := ?es[?i := Some e]\<rparr>) j = ((fd_entry_at t)(?i \<mapsto> e)) j" for j
  proof (cases "j < length ?es")
    case True
    then show ?thesis using nth [OF True] by (simp add: fd_entry_at_def [of "t\<lparr>fd_entries := _\<rparr>"] nth_list_update)
  next
    case False
    then show ?thesis using len fd_entry_at_None [of t j] by (simp add: fd_entry_at_def [of "t\<lparr>fd_entries := _\<rparr>"])
  qed
  ultimately show thesis using that [of "t\<lparr>fd_entries := ?es[?i := Some e]\<rparr>"] len by (simp add: fun_eq_iff)
qed

definition fd_ok :: "fd_table \<Rightarrow> bool" where
  "fd_ok t \<longleftrightarrow> next_fd_hint t \<le> length (fd_entries t) \<and> (\<forall>i < next_fd_hint t. fd_entry_at t i \<noteq> None)"

lemma fd_ok_more:
  assumes "fd_ok t" "next_fd_hint t' = next_fd_hint t" "length (fd_entries t) \<le> length (fd_entries t')"
    "\<And>i. fd_entry_at t i \<noteq> None \<Longrightarrow> fd_entry_at t' i \<noteq> None"
  shows "fd_ok t'"
  using assms by (auto simp: fd_ok_def)

lemma find_free_fd_spec:
  assumes ok: "fd_ok t" and len: "length (fd_entries t) < 2 ^ 31"
  shows "find_free_fd t = (Inl (Fs Fs_TooManyFiles), t) \<and> MAX_FDS \<le> length (fd_entries t) \<and> (\<forall>i < length (fd_entries t). fd_entry_at t i \<noteq> None) \<or>
    (\<exists>i. find_free_fd t = (Inr (fd_of i), t\<lparr>next_fd_hint := i + 1\<rparr>) \<and> i \<le> length (fd_entries t) \<and> fd_idx (fd_of i) = i \<and>
       fd_entry_at t i = None \<and> (\<forall>j < i. fd_entry_at t j \<noteq> None))"
proof (cases "free_from t (next_fd_hint t)")
  case None
  then have all: "\<forall>i < length (fd_entries t). fd_entry_at t i \<noteq> None" using free_from_None ok unfolding fd_ok_def by (meson not_le)
  show ?thesis
  proof (cases "MAX_FDS \<le> length (fd_entries t)")
    case True
    then show ?thesis using None all by (simp add: find_free_fd_def Let_def)
  next
    case False
    then show ?thesis using None all fd_idx_of [OF len] fd_entry_at_None [of t "length (fd_entries t)"]
      by (intro disjI2 exI [of _ "length (fd_entries t)"]) (simp add: find_free_fd_def Let_def)
  qed
next
  case (Some i)
  note i = free_from_Some [OF Some]
  have "\<forall>j < i. fd_entry_at t j \<noteq> None" using i(4) ok unfolding fd_ok_def by (meson not_le)
  then show ?thesis using Some i(2,3) len fd_idx_of [of i] by (intro disjI2 exI [of _ i]) (simp add: find_free_fd_def)
qed

lemma insert_with_flags_spec:
  assumes ok: "fd_ok t" and len: "length (fd_entries t) < 2 ^ 31"
  shows "\<exists>res t'. insert_with_flags f flags t = Some (res, t') \<and> fd_ok t' \<and>
    (case res of
       Inl e \<Rightarrow> e = Fs Fs_TooManyFiles \<and> t' = t \<and> MAX_FDS \<le> length (fd_entries t) \<and> (\<forall>i < length (fd_entries t). fd_entry_at t i \<noteq> None)
     | Inr fd \<Rightarrow> fd_entry_at t (fd_idx fd) = None \<and> (\<forall>i < fd_idx fd. fd_entry_at t i \<noteq> None) \<and>
         fd_entry_at t' = (fd_entry_at t)(fd_idx fd \<mapsto> \<lparr>fe_file = f, fe_flags = flags\<rparr>))"
  using find_free_fd_spec [OF ok len]
proof (elim disjE exE conjE)
  fix i
  assume i: "find_free_fd t = (Inr (fd_of i), t\<lparr>next_fd_hint := i + 1\<rparr>)" "i \<le> length (fd_entries t)" "fd_idx (fd_of i) = i"
    "fd_entry_at t i = None" "\<forall>j < i. fd_entry_at t j \<noteq> None"
  let ?t = "t\<lparr>next_fd_hint := i + 1\<rparr>"
  have same: "fd_entry_at ?t = fd_entry_at t" by (simp add: fd_entry_at_def fun_eq_iff)
  have "fd_idx (fd_of i) < 2 ^ 31" using i(2,3) len by simp
  then obtain t' where t': "insert_at (fd_of i) \<lparr>fe_file = f, fe_flags = flags\<rparr> ?t = Some (fd_entry_at ?t (fd_idx (fd_of i)), t')"
    "fd_entry_at t' = (fd_entry_at ?t)(fd_idx (fd_of i) \<mapsto> \<lparr>fe_file = f, fe_flags = flags\<rparr>)" "next_fd_hint t' = next_fd_hint ?t"
    "length (fd_entries t') = max (length (fd_entries ?t)) (fd_idx (fd_of i) + 1)" by (rule insert_at_spec)
  have "fd_ok t'" using t'(2-4) i(3,5) same by (auto simp: fd_ok_def less_Suc_eq)
  then show ?thesis using i t' same by (intro exI [of _ "Inr (fd_of i)"] exI [of _ t']) (simp add: insert_with_flags_def)
qed (use ok in \<open>simp add: insert_with_flags_def\<close>)

lemma set_flags_view:
  "fd_entry_at (snd (set_flags g fd t)) =
     (case fd_entry_at t (fd_idx fd) of
        None \<Rightarrow> fd_entry_at t
      | Some e \<Rightarrow> (fd_entry_at t)(fd_idx fd \<mapsto> e\<lparr>fe_flags := g (fe_flags e)\<rparr>))"
  "next_fd_hint (snd (set_flags g fd t)) = next_fd_hint t" "length (fd_entries (snd (set_flags g fd t))) = length (fd_entries t)"
  by (auto simp: set_flags_def fd_entry_at_def fun_eq_iff nth_list_update split: option.splits if_splits)

lemma fd_remove_view:
  "fd_entry_at (snd (fd_remove fd t)) = (fd_entry_at t)(fd_idx fd := None)"
  "length (fd_entries (snd (fd_remove fd t))) = length (fd_entries t)" "fst (fd_remove fd t) = fd_get t fd"
  by (auto simp: fd_remove_def fd_get_def fd_entry_at_def fun_eq_iff nth_list_update split: option.splits if_splits)

lemma fd_ok_set_flags: "fd_ok t \<Longrightarrow> fd_ok (snd (set_flags g fd t))"
  by (erule fd_ok_more) (auto simp: set_flags_view split: option.splits if_splits)

lemma fd_ok_remove: "fd_ok t \<Longrightarrow> fd_ok (snd (fd_remove fd t))"
  by (auto simp: fd_ok_def fd_remove_view) (auto simp: fd_remove_def split: option.splits)

lemma fd_ok_insert_at:
  assumes "fd_ok t" "insert_at fd e t = Some (r, t')"
  shows "fd_ok t'"
proof (cases "fd_idx fd < 2 ^ 31")
  case True
  obtain t1 where "insert_at fd e t = Some (fd_entry_at t (fd_idx fd), t1)" "fd_entry_at t1 = (fd_entry_at t)(fd_idx fd \<mapsto> e)"
    "next_fd_hint t1 = next_fd_hint t" "length (fd_entries t1) = max (length (fd_entries t)) (fd_idx fd + 1)"
    using insert_at_spec [OF True] .
  then show ?thesis using assms(2) by (intro fd_ok_more [OF assms(1)]) auto
next
  case False
  then have "2 ^ 63 \<le> fd_idx fd" using fd_idx_range [of fd] by blast
  then have "t' = t\<lparr>fd_entries := (fd_entries t)[fd_idx fd := Some e]\<rparr>"
    using assms(2) by (auto simp: insert_at_def Let_def split: if_splits)
  then show ?thesis using list_update_beyond [of "fd_entries t" "fd_idx fd" "Some e"]
    by (cases "fd_idx fd < length (fd_entries t)"; intro fd_ok_more [OF assms(1)])
      (auto simp: fd_entry_at_def nth_list_update split: if_splits)
qed

lemma fd_ok_insert_above:
  assumes "fd_ok t" "insert_above m f t = Some (r, t')"
  shows "fd_ok t'"
proof (cases "free_from t (fd_idx m)")
  case None
  then show ?thesis using assms(2)
    by (intro fd_ok_more [OF assms(1)]) (auto simp: insert_above_def fd_entry_at_def nth_append split: if_splits)
next
  case (Some i)
  then show ?thesis using assms(2) fd_ok_insert_at [OF assms(1)] by (auto simp: insert_above_def)
qed

lemma fd_ok_dup:
  assumes "fd_ok t" "length (fd_entries t) < 2 ^ 31" "dup_fd fd m t = Some (r, t')"
  shows "fd_ok t'"
proof (cases "fd_get t fd")
  case (Some f)
  have "insert_with_flags f 0 t = Some (r, t') \<Longrightarrow> fd_ok t'" using insert_with_flags_spec [OF assms(1,2), of f 0] by auto
  then show ?thesis using assms(3) Some fd_ok_insert_above [OF assms(1)] by (auto simp: dup_fd_def fd_insert_def split: option.splits)
qed (use assms in \<open>simp add: dup_fd_def\<close>)

lemma fd_ok_fcntl:
  assumes "fd_ok (st_fds st)" "length (fd_entries (st_fds st)) < 2 ^ 31" "sys_fcntl fd cmd arg st = Some (r, st')"
  shows "fd_ok (st_fds st')"
  using assms(1,3) fd_ok_dup [OF assms(1,2), of fd "Some (ucast arg)"] fd_ok_set_flags
  by (auto simp: sys_fcntl_def Let_def add_flags_def split: if_splits option.splits sum.splits bind_splits prod.splits)
    (metis snd_conv)

lemma fd_ok_remove_all: "fd_ok t \<Longrightarrow> fd_ok (snd (remove_all is t))"
proof (induction "is" arbitrary: t)
  case (Cons i "is")
  have "fd_ok (snd (fd_remove (fd_of i) t))" using Cons.prems by (rule fd_ok_remove)
  then show ?case using Cons.IH by (auto split: prod.split option.split)
qed simp

text \<open>The tables a process can have. A table of \<open>2 ^ 31\<close> entries has no descriptor for the next one.\<close>

inductive fd_reach :: "fd_table \<Rightarrow> bool" where
  fd_new: "fd_reach fd_table_new"
| fd_open: "fd_reach t \<Longrightarrow> length (fd_entries t) < 2 ^ 31 \<Longrightarrow> insert_with_flags f flags t = Some (r, t') \<Longrightarrow> fd_reach t'"
| fd_dup3: "fd_reach t \<Longrightarrow> length (fd_entries t) < 2 ^ 31 \<Longrightarrow> sys_dup3 oldfd newfd fl t = Some (r3, t') \<Longrightarrow> fd_reach t'"
| fd_dup: "fd_reach t \<Longrightarrow> length (fd_entries t) < 2 ^ 31 \<Longrightarrow> sys_dup fd t = Some (r3, t') \<Longrightarrow> fd_reach t'"
| fd_fcntl: "fd_reach (st_fds st) \<Longrightarrow> length (fd_entries (st_fds st)) < 2 ^ 31 \<Longrightarrow> sys_fcntl fd cmd arg st = Some (r3, st') \<Longrightarrow>
    fd_reach (st_fds st')"
| fd_close: "fd_reach t \<Longrightarrow> fd_reach (snd (fd_remove fd t))"
| fd_exec: "fd_reach t \<Longrightarrow> fd_reach (snd (close_cloexec_entries t))"

lemma fd_reach_ok: "fd_reach t \<Longrightarrow> fd_ok t"
proof (induction rule: fd_reach.induct)
  case fd_new
  then show ?case by (simp add: fd_ok_def fd_table_new_def)
next
  case (fd_open t f flags r t')
  then show ?case using insert_with_flags_spec [of t f flags] by auto
next
  case (fd_dup3 t oldfd newfd fl r3 t')
  then show ?case using fd_ok_insert_at by (auto simp: sys_dup3_def split: if_splits option.splits)
next
  case (fd_dup t fd r3 t')
  then show ?case using fd_ok_dup [of t fd None] by (auto simp: sys_dup_def)
next
  case (fd_fcntl st fd cmd arg r3 st')
  then show ?case using fd_ok_fcntl by blast
next
  case (fd_close t fd)
  then show ?case using fd_ok_remove by blast
next
  case (fd_exec t)
  then show ?case using fd_ok_remove_all by (simp add: close_cloexec_entries_def)
qed

lemma unat_raw_fd: "unat (raw_fd fd) = fd_idx fd"
  by (simp add: raw_fd_def fd_idx_def)

text \<open>
  Claim C20. \<open>dup\<close> of an open descriptor, on any table that a process can reach by opening, duplicating,
  configuring and closing descriptors and by \<open>execve\<close>: it never panics and returns the lowest
  descriptor that is not in use, whatever the search hint is. The new descriptor refers to the same
  open file, without \<open>CLOEXEC\<close>, and no other descriptor changes. It fails only when every entry of a
  table of at least \<open>MAX_FDS\<close> entries is in use, and then changes nothing.
\<close>

theorem sys_dup_lowest:
  assumes reach: "fd_reach t" and len: "length (fd_entries t) < 2 ^ 31" and fd: "fd_entry_at t (fd_idx fd) = Some e"
  shows "\<exists>res t'. sys_dup fd t = Some (res, t') \<and> fd_reach t' \<and>
    (case res of
       Inl e \<Rightarrow> e = Fs Fs_TooManyFiles \<and> t' = t \<and> MAX_FDS \<le> length (fd_entries t) \<and>
         (\<forall>i < length (fd_entries t). fd_entry_at t i \<noteq> None)
     | Inr n \<Rightarrow> fd_entry_at t (unat n) = None \<and> (\<forall>i < unat n. fd_entry_at t i \<noteq> None) \<and>
         fd_entry_at t' = (fd_entry_at t)(unat n \<mapsto> \<lparr>fe_file = fe_file e, fe_flags = 0\<rparr>))"
proof -
  obtain res t' where ins: "insert_with_flags (fe_file e) 0 t = Some (res, t')"
    and post: "case res of
       Inl e \<Rightarrow> e = Fs Fs_TooManyFiles \<and> t' = t \<and> MAX_FDS \<le> length (fd_entries t) \<and> (\<forall>i < length (fd_entries t). fd_entry_at t i \<noteq> None)
     | Inr fd \<Rightarrow> fd_entry_at t (fd_idx fd) = None \<and> (\<forall>i < fd_idx fd. fd_entry_at t i \<noteq> None) \<and>
         fd_entry_at t' = (fd_entry_at t)(fd_idx fd \<mapsto> \<lparr>fe_file = fe_file e, fe_flags = 0\<rparr>)"
    using insert_with_flags_spec [OF fd_reach_ok [OF reach] len, of "fe_file e" 0] by blast
  have run: "sys_dup fd t = Some (map_sum id raw_fd res, t')"
    using ins fd by (simp add: sys_dup_def dup_fd_def fd_get_def fd_insert_def)
  moreover have "fd_reach t'" using fd_reach.fd_dup [OF reach len run] .
  ultimately show ?thesis using post by (cases res) (auto simp: unat_raw_fd)
qed

lemmas fd_defs = insert_with_flags_def find_free_fd_def free_from_def insert_at_def insert_above_def fd_get_def fd_entry_at_def
  fd_idx_def fd_of_def MAX_FDS_def Let_def

theorem sys_dup_lowest_witness:
  "\<exists>t t'. insert_with_flags 5 1 fd_table_new = Some (Inr 0, t) \<and> sys_dup 0 t = Some (Inr 1, t') \<and>
     fd_entry_at t' 1 = Some \<lparr>fe_file = 5, fe_flags = 0\<rparr>"
proof -
  define t where "t = \<lparr>fd_entries = [Some \<lparr>fe_file = 5, fe_flags = 1\<rparr>], next_fd_hint = 1\<rparr>"
  have ins: "insert_with_flags 5 1 fd_table_new = Some (Inr 0, t)" by (simp add: t_def fd_table_new_def fd_defs)
  have reach: "fd_reach t" by (rule fd_reach.fd_open [OF fd_reach.fd_new _ ins]) (simp add: fd_table_new_def)
  have len: "length (fd_entries t) < 2 ^ 31" by (simp add: t_def)
  have fd: "fd_entry_at t (fd_idx 0) = Some \<lparr>fe_file = 5, fe_flags = 1\<rparr>" by (simp add: t_def fd_entry_at_def fd_idx_def)
  have run: "sys_dup 0 t = Some (Inr 1, \<lparr>fd_entries = [Some \<lparr>fe_file = 5, fe_flags = 1\<rparr>, Some \<lparr>fe_file = 5, fe_flags = 0\<rparr>], next_fd_hint = 2\<rparr>)"
    by (simp add: t_def sys_dup_def dup_fd_def fd_insert_def raw_fd_def fd_defs)
  from sys_dup_lowest [OF reach len fd] run ins show ?thesis by auto
qed

section \<open>Close on exec\<close>

lemma remove_all_view:
  assumes "\<forall>i \<in> set is. i < 2 ^ 31"
  shows "fd_entry_at (snd (remove_all is t)) = (\<lambda>i. if i \<in> set is then None else fd_entry_at t i)"
  using assms
proof (induction "is" arbitrary: t)
  case (Cons i "is")
  have "snd (remove_all (i # is) t) = snd (remove_all is (snd (fd_remove (fd_of i) t)))"
    by (simp split: prod.split option.split)
  then show ?case using Cons fd_idx_of [of i] by (auto simp: fd_remove_view fun_eq_iff)
qed simp

text \<open>
  Claim C21. On \<open>execve\<close> exactly the descriptors marked \<open>CLOEXEC\<close> are closed; every other descriptor keeps
  its file and its flags.
\<close>

theorem close_cloexec_exact:
  assumes "length (fd_entries t) \<le> 2 ^ 31"
  shows "fd_entry_at (snd (close_cloexec_entries t)) i =
    (case fd_entry_at t i of
       None \<Rightarrow> None
     | Some e \<Rightarrow> if fe_flags e AND CLOEXEC = CLOEXEC then None else Some e)"
proof -
  have "\<forall>i \<in> set (cloexec_fds t). i < 2 ^ 31" using assms by (auto simp: cloexec_fds_def)
  then have "fd_entry_at (snd (close_cloexec_entries t)) i = (if i \<in> set (cloexec_fds t) then None else fd_entry_at t i)"
    by (simp add: close_cloexec_entries_def remove_all_view)
  moreover have "i \<in> set (cloexec_fds t) \<longleftrightarrow> (\<exists>e. fd_entry_at t i = Some e \<and> fe_flags e AND CLOEXEC = CLOEXEC)"
    by (auto simp: cloexec_fds_def fd_entry_at_def split: option.splits)
  ultimately show ?thesis by (auto split: option.split)
qed

theorem close_cloexec_exact_witness:
  "fd_entry_at (snd (close_cloexec_entries \<lparr>fd_entries = [Some \<lparr>fe_file = 5, fe_flags = 1\<rparr>, Some \<lparr>fe_file = 6, fe_flags = 0\<rparr>], next_fd_hint = 2\<rparr>)) 1 =
     Some \<lparr>fe_file = 6, fe_flags = 0\<rparr>"
  by (subst close_cloexec_exact) (simp_all add: fd_entry_at_def CLOEXEC_def)

section \<open>Descriptors out of range\<close>

text \<open>
  \<open>dup3\<close> does not check the new descriptor: a negative one panics the kernel. \<open>insert_above\<close> does not
  grow the table up to the minimum: \<open>F_DUPFD\<close> may return a lower descriptor than it was asked for.
  Neither enforces \<open>MAX_FDS\<close>.
\<close>

lemma dup3_negative_panics: "fd_get t oldfd = Some f \<Longrightarrow> length (fd_entries t) < 2 ^ 63 \<Longrightarrow> oldfd \<noteq> -1 \<Longrightarrow> sys_dup3 oldfd (-1) 0 t = None"
proof -
  have "fd_idx (-1) = 2 ^ 64 - 1" by (simp add: fd_idx_def scast_eq unsigned_minus_1_eq_mask mask_eq_exp_minus_1)
  then show "fd_get t oldfd = Some f \<Longrightarrow> length (fd_entries t) < 2 ^ 63 \<Longrightarrow> oldfd \<noteq> -1 \<Longrightarrow> sys_dup3 oldfd (-1) 0 t = None"
    by (simp add: sys_dup3_def insert_at_def Let_def)
qed

lemma dupfd_below_minimum:
  "sys_fcntl 0 F_DUPFD 10 \<lparr>st_fds = \<lparr>fd_entries = [Some \<lparr>fe_file = 5, fe_flags = 0\<rparr>], next_fd_hint = 1\<rparr>, st_files = fs\<rparr> =
     Some (Inr 1, \<lparr>st_fds = \<lparr>fd_entries = [Some \<lparr>fe_file = 5, fe_flags = 0\<rparr>, Some \<lparr>fe_file = 5, fe_flags = 0\<rparr>], next_fd_hint = 1\<rparr>,
                   st_files = fs\<rparr>)"
proof -
  have "dup_fd 0 (Some 10) \<lparr>fd_entries = [Some \<lparr>fe_file = 5, fe_flags = 0\<rparr>], next_fd_hint = 1\<rparr> =
      Some (Inr 1, \<lparr>fd_entries = [Some \<lparr>fe_file = 5, fe_flags = 0\<rparr>, Some \<lparr>fe_file = 5, fe_flags = 0\<rparr>], next_fd_hint = 1\<rparr>)"
    by (simp add: dup_fd_def fd_defs)
  then show ?thesis by (simp add: sys_fcntl_def Let_def raw_fd_def F_DUPFD_def)
qed

end
