(* ===== verification/Sys_Mm.thy ===== *)
theory Sys_Mm
  imports Fault Fd_Table
begin

text \<open>
  The memory system calls (\<^verbatim>\<open>src/src/memory/mmap.rs\<close>, \<^verbatim>\<open>brk.rs\<close>, \<^verbatim>\<open>mincore.rs\<close>). The state is
  that of the calling process, its virtual memory and its descriptors, and the page memory. A call
  takes the lock of the virtual memory once, so that it is one step. \<open>Arc::new(SharedAnon::new())\<close>
  creates a backing object; the object of a call that fails afterwards stays in the list, and
  nothing refers to it.
\<close>

record 'a task =
  tk_vm :: "'a process_vm"
  tk_mem :: kmem
  tk_fds :: fd_state

abbreviation tk_mm :: "'a task \<Rightarrow> 'a memory_map" where
  "tk_mm t \<equiv> vm_mm (tk_vm t)"

definition set_mm :: "'a memory_map \<Rightarrow> 'a task \<Rightarrow> 'a task" where
  "set_mm mm t = t\<lparr>tk_vm := (tk_vm t)\<lparr>vm_mm := mm\<rparr>\<rparr>"

section \<open>mmap and munmap\<close>

definition PROT_READ :: u64 where "PROT_READ = 1"
definition PROT_WRITE :: u64 where "PROT_WRITE = 2"
definition PROT_EXEC :: u64 where "PROT_EXEC = 4"

definition MAP_SHARED :: u64 where "MAP_SHARED = 0x0001"
definition MAP_PRIVATE :: u64 where "MAP_PRIVATE = 0x0002"
definition MAP_FIXED :: u64 where "MAP_FIXED = 0x0010"
definition MAP_FIXED_NOREPLACE :: u64 where "MAP_FIXED_NOREPLACE = 0x100000"
definition MAP_ANON :: u64 where "MAP_ANON = 0x0020"
definition MAP_ANONYMOUS :: u64 where "MAP_ANONYMOUS = 0x0020"

definition MREMAP_MAYMOVE :: u64 where "MREMAP_MAYMOVE = 1"
definition MREMAP_FIXED :: u64 where "MREMAP_FIXED = 2"
definition MREMAP_DONTUNMAP :: u64 where "MREMAP_DONTUNMAP = 4"

text \<open>An atomic that nothing ever stores to.\<close>

definition MMAP_MIN_ADDR :: usize where "MMAP_MIN_ADDR = 0x1000"

definition prot_to_perms :: "u64 \<Rightarrow> VMAPermissions" where
  "prot_to_perms prot =
     \<lparr>vma_read = (prot AND PROT_READ) \<noteq> 0, vma_write = (prot AND PROT_WRITE) \<noteq> 0, vma_execute = (prot AND PROT_EXEC) \<noteq> 0\<rparr>"

fun drop_pages :: "nat list \<Rightarrow> kmem \<Rightarrow> kmem option" where
  "drop_pages [] km = Some km"
| "drop_pages (p # ps) km = Option.bind (cp_drop (as_phys_range p) km) (drop_pages ps)"

definition free_unmapped_pages :: "nat list \<Rightarrow> kmem \<Rightarrow> (unit result \<times> kmem) option" where
  "free_unmapped_pages pages km =
     (if pages = [] then Some (Inr (), km)
      else if page_alloc km = None then Some (Inl NoMemory, km)
      else map_option (Pair (Inr ())) (drop_pages pages km))"

text \<open>The arguments of \<open>mmap\<close> that are refused before anything happens.\<close>

definition mmap_args :: "u64 \<Rightarrow> u64 \<Rightarrow> u64 \<Rightarrow> unit result" where
  "mmap_args a len flags =
     (let mapping_kind = flags AND (MAP_SHARED OR MAP_PRIVATE);
          is_shared = (flags AND MAP_SHARED) \<noteq> 0;
          is_anon = (flags AND (MAP_ANON OR MAP_ANONYMOUS)) \<noteq> 0
      in if len = 0 then Inl InvalidValue
         else if mapping_kind = 0 \<or> mapping_kind = (MAP_SHARED OR MAP_PRIVATE) then Inl InvalidValue
         else if is_shared \<and> \<not> is_anon then Inl NotSupported
         else if (flags AND MAP_FIXED) \<noteq> 0 \<and> (flags AND MAP_FIXED_NOREPLACE) \<noteq> 0 then Inl InvalidValue
         else if (flags AND (MAP_FIXED OR MAP_FIXED_NOREPLACE)) \<noteq> 0 \<and> (\<not> is_page_aligned a \<or> a < MMAP_MIN_ADDR)
         then Inl InvalidValue
         else Inr ())"

definition mmap_backing :: "u64 \<Rightarrow> u64 \<Rightarrow> fd \<Rightarrow> u64 \<Rightarrow> 'a task \<Rightarrow> (VMAreaKind \<times> string) result \<times> 'a task" where
  "mmap_backing len flags fd offset t =
     (if (flags AND (MAP_ANON OR MAP_ANONYMOUS)) \<noteq> 0
      then
        if offset \<noteq> 0 then (Inl InvalidValue, t)
        else if (flags AND MAP_SHARED) \<noteq> 0
        then let (b, km) = shared_anon_new (tk_mem t)
             in (Inr (SharedAnon (vm_shared_mapping_new b), []), t\<lparr>tk_mem := km\<rparr>)
        else (Inr (Anon, []), t)
      else
        (case fd_get (st_fds (tk_fds t)) fd of
           None \<Rightarrow> Inl BadFd
         | Some f \<Rightarrow>
             (case of_inode (st_files (tk_fds t) f) of
                None \<Rightarrow> Inl BadFd
              | Some i \<Rightarrow>
                  Inr (new_file i offset len,
                       case of_path (st_files (tk_fds t) f) of None \<Rightarrow> [] | Some path \<Rightarrow> path)), t))"

definition mmap_request :: "u64 \<Rightarrow> u64 \<Rightarrow> AddressRequest" where
  "mmap_request a flags =
     (if is_null a then AnyAddress
      else if (flags AND MAP_FIXED_NOREPLACE) \<noteq> 0 then Fixed a False
      else if (flags AND MAP_FIXED) \<noteq> 0 then Fixed a True
      else Hint a)"

definition release_pages :: "(addr \<times> nat list) result \<Rightarrow> 'a task \<Rightarrow> (usize result \<times> 'a task) option" where
  "release_pages outcome t =
     (case outcome of
        Inl e \<Rightarrow> Some (Inl e, t)
      | Inr (a, pages) \<Rightarrow>
          map_option (\<lambda>(freed, km). (map_sum id (\<lambda>_. a) freed, t\<lparr>tk_mem := km\<rparr>)) (free_unmapped_pages pages (tk_mem t)))"

definition sys_mmap ::
  "'a address_space_ops \<Rightarrow> u64 \<Rightarrow> u64 \<Rightarrow> u64 \<Rightarrow> u64 \<Rightarrow> fd \<Rightarrow> u64 \<Rightarrow> 'a task \<Rightarrow> (usize result \<times> 'a task) option" where
  "sys_mmap ops a len prot flags fd offset t =
     (case mmap_args a len flags of
        Inl e \<Rightarrow> Some (Inl e, t)
      | Inr _ \<Rightarrow>
          (case mmap_backing len flags fd offset t of
             (Inl e, t) \<Rightarrow> Some (Inl e, t)
           | (Inr (kind, name), t) \<Rightarrow>
               do {
                 (outcome, mm) \<leftarrow> mmap_replacing ops (mmap_request a flags) len (prot_to_perms prot) kind name (tk_mm t);
                 release_pages outcome (set_mm mm t)
               }))"

definition sys_munmap :: "'a address_space_ops \<Rightarrow> addr \<Rightarrow> usize \<Rightarrow> 'a task \<Rightarrow> (usize result \<times> 'a task) option" where
  "sys_munmap ops a len t =
     do {
       (pages, mm) \<leftarrow> munmap ops (rnew a len) (tk_mm t);
       release_pages (map_sum id (Pair 0) pages) (set_mm mm t)
     }"

section \<open>mremap, mprotect, brk and mincore\<close>

definition mremap_destination ::
  "addr \<Rightarrow> usize \<Rightarrow> usize \<Rightarrow> u64 \<Rightarrow> addr \<Rightarrow> RemapDestination result option" where
  "mremap_destination old_addr old_len new_len flags new_addr =
     (if flags AND NOT (MREMAP_MAYMOVE OR MREMAP_FIXED OR MREMAP_DONTUNMAP) \<noteq> 0 then Some (Inl InvalidValue)
      else if old_len = 0 then Some (Inl InvalidValue)
      else if new_len = 0 \<or> \<not> is_page_aligned old_addr then Some (Inl InvalidValue)
      else if (flags AND MREMAP_DONTUNMAP) \<noteq> 0 then Some (Inl InvalidValue)
      else if (flags AND MREMAP_FIXED) \<noteq> 0
      then
        if (flags AND MREMAP_MAYMOVE) = 0 \<or> \<not> is_page_aligned new_addr then Some (Inl InvalidValue)
        else
          do {
            old_region \<leftarrow> align_to_page_boundary (rnew old_addr old_len);
            new_region \<leftarrow> align_to_page_boundary (rnew new_addr new_len);
            Some (if overlaps old_region new_region then Inl InvalidValue else Inr (FixedAt new_addr))
          }
      else if (flags AND MREMAP_MAYMOVE) \<noteq> 0 then Some (Inr MayMove)
      else Some (Inr InPlaceOnly))"

definition sys_mremap ::
  "'a address_space_ops \<Rightarrow> addr \<Rightarrow> usize \<Rightarrow> usize \<Rightarrow> u64 \<Rightarrow> addr \<Rightarrow> 'a task \<Rightarrow> (usize result \<times> 'a task) option" where
  "sys_mremap ops old_addr old_len new_len flags new_addr t =
     do {
       destination \<leftarrow> mremap_destination old_addr old_len new_len flags new_addr;
       (case destination of
          Inl e \<Rightarrow> Some (Inl e, t)
        | Inr destination \<Rightarrow>
            do {
              (outcome, mm) \<leftarrow> mremap ops old_addr old_len new_len destination (tk_mm t);
              release_pages outcome (set_mm mm t)
            })
     }"

definition sys_mprotect :: "'a address_space_ops \<Rightarrow> addr \<Rightarrow> usize \<Rightarrow> u64 \<Rightarrow> 'a task \<Rightarrow> (usize result \<times> 'a task) option" where
  "sys_mprotect ops a len prot t =
     map_option (\<lambda>(outcome, mm). (map_sum id (\<lambda>_. 0) outcome, set_mm mm t))
       (mprotect ops (rnew a len) (prot_to_perms prot) (tk_mm t))"

text \<open>The result of \<open>brk\<close> is always an address.\<close>

definition sys_brk :: "'a address_space_ops \<Rightarrow> addr \<Rightarrow> 'a task \<Rightarrow> (usize \<times> 'a task) option" where
  "sys_brk ops a t =
     (if is_null a then Some (current_brk (tk_vm t), t)
      else
        do {
          (outcome, vm) \<leftarrow> resize_brk ops a (tk_vm t);
          Some (case outcome of Inr new_brk \<Rightarrow> new_brk | Inl _ \<Rightarrow> current_brk vm, t\<lparr>tk_vm := vm\<rparr>)
        })"

text \<open>\<open>copy_to_user\<close> copies a buffer to an address of the user memory \<open>'u\<close>.\<close>

definition sys_mincore ::
  "'a address_space_ops \<Rightarrow> (u8 list \<Rightarrow> addr \<Rightarrow> 'u \<Rightarrow> unit result \<times> 'u) \<Rightarrow> u64 \<Rightarrow> usize \<Rightarrow> addr \<Rightarrow> 'a task \<Rightarrow> 'u \<Rightarrow>
    (usize result \<times> 'u) option" where
  "sys_mincore ops copy_to_user start_va len vec t user =
     (if \<not> is_page_aligned start_va then Some (Inl InvalidValue, user)
      else if len = 0 then Some (Inl InvalidValue, user)
      else
        do {
          mappable \<leftarrow> to_mappable_region (rnew start_va len);
          let rgn = mapped_region mappable;
          (if rsize rgn = 0 then Some (Inl InvalidValue, user)
           else if list_ex (\<lambda>va. find_vma (vmas (tk_mm t)) va = None) (iter_pages rgn) then Some (Inl NoMemory, user)
           else
             let buf = map (\<lambda>va. if as_translate ops (vm_as (tk_vm t)) va \<noteq> None then 1 else 0) (iter_pages rgn)
             in Some (case copy_to_user buf vec user of
                  (Inl _, user) \<Rightarrow> (Inl Fault, user)
                | (Inr _, user) \<Rightarrow> (Inr 0, user)))
        })"

end
