(* ===== verification/Proc_Vm_Props.thy ===== *)
theory Proc_Vm_Props
  imports Memory_Map_Props Proc_Vm
begin

text \<open>
  The correctness of the program break, of the lookup for a page fault and of the copy-on-write clone
  of a process.
\<close>

section \<open>The program break\<close>

text \<open>
  The heap of a well-formed process is a range of whole pages. \<open>vm_ok\<close> says that it is also mapped,
  readable and writable, which a process can undo with \<open>munmap\<close>.
\<close>

definition vm_wf :: "'a process_vm \<Rightarrow> bool" where
  "vm_wf vm \<longleftrightarrow> vmas_ok (vmas (vm_mm vm)) \<and> valid (vm_brk vm) \<and> 4096 dvd lo (vm_brk vm) \<and> 4096 dvd hi (vm_brk vm)"

definition vm_ok :: "'a process_vm \<Rightarrow> bool" where
  "vm_ok vm \<longleftrightarrow> vm_wf vm \<and>
     (\<forall>x. lo (vm_brk vm) \<le> x \<and> x < hi (vm_brk vm) \<longrightarrow> perms_at (vmas (vm_mm vm)) x = Some BRK_PERMISSIONS)"

text \<open>The heap of \<open>vm'\<close> ends at \<open>e\<close>, and nothing else differs from \<open>vm\<close>.\<close>

definition brk_moved :: "'a process_vm \<Rightarrow> nat \<Rightarrow> 'a process_vm \<Rightarrow> bool" where
  "brk_moved vm e vm' \<longleftrightarrow> start_brk vm' = start_brk vm \<and> unat (current_brk vm') = e \<and>
     (\<forall>x. perms_at (vmas (vm_mm vm')) x =
        (if lo (vm_brk vm) \<le> x \<and> x < e then Some BRK_PERMISSIONS
         else if lo (vm_brk vm) \<le> x \<and> x < hi (vm_brk vm) then None else perms_at (vmas (vm_mm vm)) x)) \<and>
     (\<forall>x. hi (vm_brk vm) \<le> x \<and> x < e \<longrightarrow>
        perms_at (vmas (vm_mm vm)) x = None \<and> byte_at (vmas (vm_mm vm')) x = Some ZeroFill)"

lemma brk_region:
  assumes ok: "vm_wf vm" and a: "lo (vm_brk vm) \<le> unat a" "unat a + 4095 < 2 ^ 64"
  defines "e \<equiv> round_up 4096 (unat a)"
  shows "unat (align_up_bits a PAGE_SIZE) = e" "lo (vm_brk vm) \<le> e" "e < 2 ^ 64" "4096 dvd e"
    "from_start_end_address (start_address (vm_brk vm)) (align_up_bits a PAGE_SIZE) = Some (region_of (lo (vm_brk vm)) e)"
    "unat (end_address (vm_brk vm)) = hi (vm_brk vm)"
proof -
  show u: "unat (align_up_bits a PAGE_SIZE) = e" using a(2) by (simp add: unat_align_up_bits e_def)
  have "unat a \<le> e" unfolding e_def by (rule round_up_ge) simp
  then show l: "lo (vm_brk vm) \<le> e" using a(1) by simp
  show "e < 2 ^ 64" "4096 dvd e" using round_up_less [of 4096 "unat a"] a(2) by (simp_all add: e_def)
  show "from_start_end_address (start_address (vm_brk vm)) (align_up_bits a PAGE_SIZE) = Some (region_of (lo (vm_brk vm)) e)"
    using l by (simp add: from_start_end_address_eq u unat_start_address)
  show "unat (end_address (vm_brk vm)) = hi (vm_brk vm)" using ok by (intro unat_end_address) (simp add: vm_wf_def)
qed

lemma grow_brk:
  assumes ok: "vm_wf vm" and e: "hi (vm_brk vm) < e" "e < 2 ^ 64" "4096 dvd e"
  defines "cur \<equiv> end_address (vm_brk vm)"
  obtains err where "mmap ops (Fixed cur False) (of_nat e - cur) BRK_PERMISSIONS Anon name (vm_mm vm) = Some (Inl err, vm_mm vm)"
  | mm' where "mmap ops (Fixed cur False) (of_nat e - cur) BRK_PERMISSIONS Anon name (vm_mm vm) = Some (Inr cur, mm')"
      "vmas_ok (vmas mm')" "mapped (vm_mm vm) cur (e - hi (vm_brk vm)) Anon BRK_PERMISSIONS mm'"
      "\<forall>x. hi (vm_brk vm) \<le> x \<and> x < e \<longrightarrow> perms_at (vmas (vm_mm vm)) x = None"
proof -
  let ?h = "hi (vm_brk vm)"
  have vm: "vmas_ok (vmas (vm_mm vm))" "valid (vm_brk vm)" "4096 dvd ?h" using ok by (simp_all add: vm_wf_def)
  have c: "unat cur = ?h" unfolding cur_def by (rule unat_end_address [OF vm(2)])
  have eu: "unat (of_nat e :: usize) = e" using e(2) by (simp add: unat_of_nat)
  have len: "unat (of_nat e - cur :: usize) = e - ?h" using e c eu by (subst unat_sub_usize) simp_all
  have ru: "round_up 4096 (e - ?h) = e - ?h" using e(3) vm(3) by (intro round_up_dvd dvd_diff_nat) simp_all
  have fits: "request_fits (Fixed cur False) (round_up 4096 (unat (of_nat e - cur :: usize)))"
    using e c by (simp add: request_fits_def len ru)
  have nr: "\<not> request_replaces (Fixed cur False)" by (simp add: request_replaces_def)
  show thesis
  proof (rule mmap_impl_free [OF vm(1) fits nr, of ops BRK_PERMISSIONS Anon name])
    fix err assume "mmap_impl ops (Fixed cur False) (of_nat e - cur) BRK_PERMISSIONS Anon name False (vm_mm vm) = Some (Inl err, vm_mm vm)"
    then show thesis using that(1) by (simp add: mmap_def)
  next
    fix a mm' assume "mmap_impl ops (Fixed cur False) (of_nat e - cur) BRK_PERMISSIONS Anon name False (vm_mm vm) = Some (Inr (a, []), mm')"
      "vmas_ok (vmas mm')" "\<And>b c. Fixed cur False = Fixed b c \<Longrightarrow> a = b"
      "mapped (vm_mm vm) a (round_up 4096 (unat (of_nat e - cur :: usize))) Anon BRK_PERMISSIONS mm'"
      "\<And>x. unat a \<le> x \<Longrightarrow> x < unat a + round_up 4096 (unat (of_nat e - cur :: usize)) \<Longrightarrow> perms_at (vmas (vm_mm vm)) x = None"
    moreover from this(3) have "a = cur" by blast
    ultimately show thesis using that(2) [of mm'] e(1) by (simp add: mmap_def len ru c)
  qed
qed

text \<open>What a change of the break does to any well-formed process, whether its heap is mapped or not.\<close>

definition brk_shift :: "'a process_vm \<Rightarrow> nat \<Rightarrow> 'a process_vm \<Rightarrow> bool" where
  "brk_shift vm e vm' \<longleftrightarrow> vm_wf vm' \<and> start_brk vm' = start_brk vm \<and> unat (current_brk vm') = e \<and>
     (\<forall>x. perms_at (vmas (vm_mm vm')) x =
        (if hi (vm_brk vm) \<le> x \<and> x < e then Some BRK_PERMISSIONS
         else if e \<le> x \<and> x < hi (vm_brk vm) then None else perms_at (vmas (vm_mm vm)) x)) \<and>
     (\<forall>x. hi (vm_brk vm) \<le> x \<and> x < e \<longrightarrow>
        perms_at (vmas (vm_mm vm)) x = None \<and> byte_at (vmas (vm_mm vm')) x = Some ZeroFill)"

lemma vm_wf_region:
  assumes "vm_wf vm" "vmas_ok (vmas mm')" "lo (vm_brk vm) \<le> e" "e < 2 ^ 64" "4096 dvd e"
  shows "vm_wf \<lparr>vm_mm = mm', vm_brk = region_of (lo (vm_brk vm)) e\<rparr>"
  using assms by (simp add: vm_wf_def)

lemma resize_brk_shift:
  assumes ok: "vm_wf vm" and fit: "unat a + 4095 < 2 ^ 64"
  shows "\<exists>res vm'. resize_brk ops a vm = Some (res, vm') \<and> vm_wf vm' \<and>
    (case res of
       Inr b \<Rightarrow> b = a \<and> lo (vm_brk vm) \<le> unat a \<and> brk_shift vm (round_up 4096 (unat a)) vm'
     | Inl e \<Rightarrow> vm_brk vm' = vm_brk vm \<and> (unat a < lo (vm_brk vm) \<or> hi (vm_brk vm) \<le> unat a \<longrightarrow> vm' = vm))"
proof (cases "lo (vm_brk vm) \<le> unat a")
  case False
  then show ?thesis using ok by (simp add: resize_brk_def Let_def usize_order unat_start_address)
next
  case True
  define e where "e = round_up 4096 (unat a)"
  note br = brk_region [OF ok True fit, folded e_def]
  let ?h = "hi (vm_brk vm)" and ?r = "region_of (lo (vm_brk vm)) e" and ?cur = "end_address (vm_brk vm)"
  have vm: "vmas_ok (vmas (vm_mm vm))" "valid (vm_brk vm)" "4096 dvd lo (vm_brk vm)" "4096 dvd ?h"
    using ok by (simp_all add: vm_wf_def)
  have r: "lo ?r = lo (vm_brk vm)" "hi ?r = e" "valid ?r" using br(2,3) by simp_all
  have nb: "start_brk ( \<lparr>vm_mm = mm', vm_brk = ?r\<rparr>) = start_brk vm" "unat (current_brk ( \<lparr>vm_mm = mm', vm_brk = ?r\<rparr>)) = e" for mm'
    using r unat_end_address [OF r(3)] by (simp_all add: start_brk_def current_brk_def start_less(3))
  have ge: "\<not> a < start_address (vm_brk vm)" using True by (simp add: usize_order unat_start_address)
  have al: "align_up_bits a PAGE_SIZE = of_nat e" by (simp add: br(1) [symmetric])
  consider "e = ?h" | "?h < e" | "e < ?h" by linarith
  then show ?thesis
  proof cases
    case 1
    then have "resize_brk ops a vm = Some (Inr a, vm)"
      using br(1,5,6) ge by (simp add: resize_brk_def Let_def unat_eq_usize)
    moreover have "brk_shift vm e vm" using 1 br(6) ok by (auto simp: brk_shift_def current_brk_def)
    ultimately show ?thesis using ok True by (simp add: e_def)
  next
    case 2
    have cmp: "align_up_bits a PAGE_SIZE \<noteq> ?cur" "?cur < align_up_bits a PAGE_SIZE"
      using 2 br(1,6) by (auto simp: unat_eq_usize usize_order)
    show ?thesis
    proof (rule grow_brk [OF ok 2 br(3,4), of ops "''[heap]''"])
      fix err assume "mmap ops (Fixed ?cur False) (of_nat e - ?cur) BRK_PERMISSIONS Anon ''[heap]'' (vm_mm vm) = Some (Inl err, vm_mm vm)"
      then have "resize_brk ops a vm = Some (Inl err, vm)"
        using br(5) ge cmp by (simp add: resize_brk_def Let_def al)
      then show ?thesis using ok by simp
    next
      fix mm' assume m: "mmap ops (Fixed ?cur False) (of_nat e - ?cur) BRK_PERMISSIONS Anon ''[heap]'' (vm_mm vm) = Some (Inr ?cur, mm')"
        and ok': "vmas_ok (vmas mm')" and mp: "mapped (vm_mm vm) ?cur (e - ?h) Anon BRK_PERMISSIONS mm'"
        and free: "\<forall>x. ?h \<le> x \<and> x < e \<longrightarrow> perms_at (vmas (vm_mm vm)) x = None"
      have run: "resize_brk ops a vm = Some (Inr a, \<lparr>vm_mm = mm', vm_brk = ?r\<rparr>)"
        using br(5) ge cmp m by (simp add: resize_brk_def Let_def al)
      note wf = vm_wf_region [OF ok ok' br(2,3,4)]
      have "brk_shift vm e \<lparr>vm_mm = mm', vm_brk = ?r\<rparr>"
        using mp free 2 br(6) nb [of mm'] wf by (auto simp: brk_shift_def mapped_def vma_byte_def vmarea_new_def)
      then show ?thesis using run wf True by (simp add: e_def)
    qed
  next
    case 3
    have cmp: "align_up_bits a PAGE_SIZE \<noteq> ?cur" "\<not> ?cur < align_up_bits a PAGE_SIZE"
      using 3 br(1,6) by (auto simp: unat_eq_usize usize_order)
    let ?u = "region_of e ?h"
    have u: "lo ?u = e" "hi ?u = ?h" "valid ?u" using 3 vm(2) by (simp_all add: valid_def)
    have fu: "from_start_end_address (align_up_bits a PAGE_SIZE) ?cur = Some ?u"
      using 3 by (simp add: from_start_end_address_eq br(1,6))
    have "unat a < ?h" using 3 round_up_ge [of 4096 "unat a"] by (simp add: e_def)
    obtain k where "?h = 4096 * k" using vm(4) by (rule dvdE)
    moreover have "?h < 18446744073709551616" using vm(2) by (simp add: valid_def)
    ultimately have fu4: "hi ?u + 4095 < 2 ^ 64" unfolding u(2) by simp
    have rh: "round_up 4096 (hi ?u) = ?h" unfolding u(2) by (rule round_up_dvd [OF _ vm(4)]) simp
    have lu: "4096 dvd lo ?u" "lo ?u < hi ?u" using u br(4) 3 by simp_all
    obtain res mm' q where m: "munmap ops ?u (vm_mm vm) = Some (res, mm')" "vmas_ok (vmas mm')"
      and q: "lo q = e" "hi q = ?h" and un: "\<And>ps. res = Inr ps \<Longrightarrow> unmapped (vmas (vm_mm vm)) q (vmas mm')"
      using munmap_spec [OF vm(1) fu4 lu, of ops] unfolding u(1) rh by metis
    show ?thesis
    proof (cases res)
      case (Inl err)
      then have "resize_brk ops a vm = Some (Inl err, vm\<lparr>vm_mm := mm'\<rparr>)"
        using br(5) ge cmp fu m(1) by (simp add: resize_brk_def Let_def)
      then show ?thesis using m(2) True \<open>unat a < ?h\<close> ok by (simp add: vm_wf_def)
    next
      case (Inr ps)
      then have run: "resize_brk ops a vm = Some (Inr a, \<lparr>vm_mm = mm', vm_brk = ?r\<rparr>)"
        using br(5) ge cmp fu m(1) by (simp add: resize_brk_def Let_def)
      note wf = vm_wf_region [OF ok m(2) br(2,3,4)]
      have "brk_shift vm e \<lparr>vm_mm = mm', vm_brk = ?r\<rparr>"
        using un [OF Inr] 3 q nb [of mm'] wf by (auto simp: brk_shift_def unmapped_def)
      then show ?thesis using run wf True by (simp add: e_def)
    qed
  qed
qed

lemma shift_moved:
  assumes ok: "vm_ok vm" and le: "lo (vm_brk vm) \<le> e" and sh: "brk_shift vm e vm'"
  shows "vm_ok vm' \<and> brk_moved vm e vm'"
proof -
  have heap: "\<And>x. lo (vm_brk vm) \<le> x \<Longrightarrow> x < hi (vm_brk vm) \<Longrightarrow> perms_at (vmas (vm_mm vm)) x = Some BRK_PERMISSIONS"
    using ok by (simp add: vm_ok_def)
  have l: "hi (vm_brk vm) \<le> x \<Longrightarrow> lo (vm_brk vm) \<le> x" for x using lo_le_hi [of "vm_brk vm"] by linarith
  have p: "perms_at (vmas (vm_mm vm')) x =
      (if lo (vm_brk vm) \<le> x \<and> x < e then Some BRK_PERMISSIONS
       else if lo (vm_brk vm) \<le> x \<and> x < hi (vm_brk vm) then None else perms_at (vmas (vm_mm vm)) x)" for x
    using sh heap [of x] l [of x] le by (auto simp: brk_shift_def)
  have "lo (vm_brk vm') = lo (vm_brk vm)" using sh by (simp add: brk_shift_def start_brk_def flip: unat_start_address)
  moreover have "hi (vm_brk vm') = e"
    using sh unat_end_address [of "vm_brk vm'"] by (simp add: brk_shift_def current_brk_def vm_wf_def)
  moreover have "vm_wf vm'" "start_brk vm' = start_brk vm" "unat (current_brk vm') = e"
    "\<forall>x. hi (vm_brk vm) \<le> x \<and> x < e \<longrightarrow>
       perms_at (vmas (vm_mm vm)) x = None \<and> byte_at (vmas (vm_mm vm')) x = Some ZeroFill" using sh by (simp_all add: brk_shift_def)
  ultimately show ?thesis by (simp add: vm_ok_def brk_moved_def p)
qed

text \<open>
  Claim C19. \<open>resize_brk\<close>, on a process whose heap is mapped and for an address whose page does not wrap
  around: it never panics. An address below the start of the heap is refused. On success the break
  is the address rounded up to a page, the heap from its start to the break is mapped readable and
  writable, new pages were free before and are zero filled, the pages above the break are unmapped, no other address
  changes, and the process is again well formed. When growing fails nothing changes.
\<close>

theorem resize_brk_correct:
  assumes ok: "vm_ok vm" and fit: "unat a + 4095 < 2 ^ 64"
  shows "\<exists>res vm'. resize_brk ops a vm = Some (res, vm') \<and> vmas_ok (vmas (vm_mm vm')) \<and>
    (case res of
       Inr b \<Rightarrow> b = a \<and> lo (vm_brk vm) \<le> unat a \<and> vm_ok vm' \<and> brk_moved vm (round_up 4096 (unat a)) vm'
     | Inl e \<Rightarrow> vm_brk vm' = vm_brk vm \<and> (unat a < lo (vm_brk vm) \<or> hi (vm_brk vm) \<le> unat a \<longrightarrow> vm' = vm))"
proof -
  have heap: "\<And>x. lo (vm_brk vm) \<le> x \<Longrightarrow> x < hi (vm_brk vm) \<Longrightarrow> perms_at (vmas (vm_mm vm)) x = Some BRK_PERMISSIONS"
    and wf: "vm_wf vm" using ok by (simp_all add: vm_ok_def)
  obtain res vm' where run: "resize_brk ops a vm = Some (res, vm')" "vm_wf vm'"
    and post: "case res of Inr b \<Rightarrow> b = a \<and> lo (vm_brk vm) \<le> unat a \<and> brk_shift vm (round_up 4096 (unat a)) vm'
      | Inl e \<Rightarrow> vm_brk vm' = vm_brk vm \<and> (unat a < lo (vm_brk vm) \<or> hi (vm_brk vm) \<le> unat a \<longrightarrow> vm' = vm)"
    using resize_brk_shift [OF wf fit, of ops] by blast
  have "vmas_ok (vmas (vm_mm vm'))" using run(2) by (simp add: vm_wf_def)
  moreover have "vm_ok vm' \<and> brk_moved vm (round_up 4096 (unat a)) vm'"
    if "lo (vm_brk vm) \<le> unat a" "brk_shift vm (round_up 4096 (unat a)) vm'"
    using shift_moved [OF ok _ that(2)] that(1) round_up_ge [of 4096 "unat a"] by simp
  ultimately show ?thesis using run post by (cases res) auto
qed

definition vm0 :: "page_op list process_vm" where
  "vm0 = \<lparr>vm_mm = mm0, vm_brk = rnew 0x16000 0\<rparr>"

theorem resize_brk_correct_witness:
  "\<exists>vm'. resize_brk mock_ops 0x17010 vm0 = Some (Inr 0x17010, vm') \<and> current_brk vm' = 0x18000 \<and>
     perms_at (vmas (vm_mm vm')) 0x17FFF = Some vma_rw"
proof -
  have ok: "vm_ok vm0" using mm0_ok by (auto simp: vm_ok_def vm_wf_def vm0_def lo_def hi_def valid_def dvd_eq_mod_eq_0)
  define vm' where "vm' = \<lparr>vm_mm = mm_of [anon_vma 0x10000 0x3000 vma_rw, file_vma 0x14000 0x2000 0x8000 vma_rx,
      (anon_vma 0x16000 0x2000 vma_rw)\<lparr>vname := ''[heap]''\<rparr>], vm_brk = rnew 0x16000 0x2000\<rparr>"
  have run: "resize_brk mock_ops 0x17010 vm0 = Some (Inr 0x17010, vm')" unfolding vm'_def by code_simp
  have "unat (0x17010 :: usize) + 4095 < 2 ^ 64" by simp
  from resize_brk_correct [OF ok this, of mock_ops] run
  have "brk_moved vm0 (round_up 4096 0x17010) vm'" by simp
  then have "perms_at (vmas (vm_mm vm')) 0x17FFF = Some vma_rw" "unat (current_brk vm') = 0x18000"
    by (simp_all add: brk_moved_def round_up_def vm0_def lo_def hi_def BRK_PERMISSIONS_def)
  then show ?thesis using run by (simp add: unat_eq_usize)
qed

section \<open>Page faults\<close>

definition permits :: "VMAPermissions \<Rightarrow> AccessKind \<Rightarrow> bool" where
  "permits p k = (case k of AccessRead \<Rightarrow> vma_read p | AccessWrite \<Rightarrow> vma_write p | AccessExecute \<Rightarrow> vma_execute p)"

text \<open>
  The lookup for a page fault never reaches its \<open>unreachable!\<close> on a well-formed map. It returns
  the area that contains the address exactly when the area allows the access.
\<close>

lemma find_vma_for_fault_spec:
  assumes "vmas_ok (vmas (vm_mm vm))"
  shows "\<exists>r. find_vma_for_fault vm a k = Some r \<and>
    (\<forall>v. r = Some v \<longleftrightarrow> v \<in> areas (vmas (vm_mm vm)) \<and> unat a \<in> span (vregion v) \<and> permits (vperms v) k)"
proof -
  note find = find_vma_eq [OF assms, of a] and at = vma_at_iff [OF assms, of "unat a"]
  show ?thesis
  proof (cases "vma_at (vmas (vm_mm vm)) (unat a)")
    case None
    then have "find_vma_for_fault vm a k = Some None" using find by (simp add: find_vma_for_fault_def)
    moreover have "\<not> (w \<in> areas (vmas (vm_mm vm)) \<and> unat a \<in> span (vregion w))" for w
      using None at [of w] by (simp add: span_def)
    ultimately show ?thesis by blast
  next
    case (Some v)
    have v: "v \<in> areas (vmas (vm_mm vm))" "unat a \<in> span (vregion v)" using Some at by (simp_all add: span_def)
    have "vma_contains_address v a"
      using v vma_okD(1) [OF vmas_okD(3) [OF assms v(1)]] by (simp add: vma_contains_address_def contains_address_iff)
    then have "find_vma_for_fault vm a k = Some (if permits (vperms v) k then Some v else None)"
      using Some find by (cases k) (simp_all add: find_vma_for_fault_def validate_fault_def permits_def)
    moreover have "w \<in> areas (vmas (vm_mm vm)) \<and> unat a \<in> span (vregion w) \<and> permits (vperms w) k \<longleftrightarrow>
        w = v \<and> permits (vperms v) k" for w using Some at [of w] by (auto simp: span_def)
    ultimately show ?thesis by auto
  qed
qed

section \<open>Copy on write\<close>

text \<open>
  What the trait documents of the page tables for a fork: a new address space has no page, and
  \<open>protect_and_clone_region\<close>, on a region where the other address space has no page, gives every present page of the
  region, in both address spaces, the frame it had and the new permissions, and changes no other page.
\<close>

definition fresh_empty :: "'a address_space_ops \<Rightarrow> bool" where
  "fresh_empty ops \<longleftrightarrow> (\<forall>as a. as_new ops = Inr as \<longrightarrow> as_translate ops as a = None)"

definition clones_region :: "'a address_space_ops \<Rightarrow> bool" where
  "clones_region ops \<longleftrightarrow> (\<forall>as r other c u as' other'.
     (\<forall>a. unat a \<in> span r \<longrightarrow> as_translate ops other a = None) \<longrightarrow>
     as_protect_and_clone_region ops as r other c = (Inr u, as', other') \<longrightarrow>
     (\<forall>a. as_translate ops as' a =
            (if unat a \<in> span r then map_option (info_perms_update (\<lambda>_. c)) (as_translate ops as a) else as_translate ops as a) \<and>
          as_translate ops other' a =
            (if unat a \<in> span r then map_option (info_perms_update (\<lambda>_. c)) (as_translate ops as a) else as_translate ops other a)))"

text \<open>The page permissions of an area in a clone: private writable areas lose the write permission.\<close>

definition cow_perms :: "vmarea \<Rightarrow> PtePermissions" where
  "cow_perms v = (let p = pte_of_vma (vperms v) in if \<not> is_shared v \<and> pte_write p then into_cow p else p)"

lemma cow_perms_private: "\<not> is_shared v \<Longrightarrow> \<not> pte_write (cow_perms v)"
  by (auto simp: cow_perms_def Let_def into_cow_def)

lemma align_page_region:
  assumes "page_region r" and "hi r + 4095 < 2 ^ 64"
  shows "align_to_page_boundary r = Some r"
proof -
  obtain q where q: "align_to_page_boundary r = Some q" "lo q = round_down 4096 (lo r)" "hi q = round_up 4096 (hi r)"
    using align_to_page_boundary_eq [OF assms(2)] by blast
  have "lo q = lo r" "hi q = hi r" using q(2,3) page_regionD(3,4) [OF assms(1)] by (simp_all add: round_up_dvd round_down_def)
  then show ?thesis using q(1) region_eqI by blast
qed

lemma page_region_fits: "page_region r \<Longrightarrow> hi r + 4095 < 2 ^ 64"
proof -
  assume r: "page_region r"
  obtain k where "hi r = 4096 * k" using page_regionD(4) [OF r] by (rule dvdE)
  then show ?thesis using page_regionD(1) [OF r] by (simp add: valid_def)
qed

lemma clone_regions_spec:
  assumes laws: "clones_region ops" and "\<forall>v \<in> set vs. vma_ok v" and "sorted_wrt apart vs"
    and "clone_regions ops vs as new_as = Some (Inr u, as', new')"
    and "\<forall>v \<in> set vs. \<forall>a. covers (unat a) v \<longrightarrow> as_translate ops new_as a = None"
  shows "as_translate ops as' a =
      (case find (covers (unat a)) vs of
         Some v \<Rightarrow> map_option (info_perms_update (\<lambda>_. cow_perms v)) (as_translate ops as a) | None \<Rightarrow> as_translate ops as a) \<and>
    as_translate ops new' a =
      (case find (covers (unat a)) vs of
         Some v \<Rightarrow> map_option (info_perms_update (\<lambda>_. cow_perms v)) (as_translate ops as a) | None \<Rightarrow> as_translate ops new_as a)"
  using assms(2-)
proof (induction vs arbitrary: as new_as)
  case (Cons v vs)
  have pr: "page_region (vregion v)" using Cons.prems(1) vma_ok_iff by simp
  have al: "align_to_page_boundary (vregion v) = Some (vregion v)" by (rule align_page_region [OF pr page_region_fits [OF pr]])
  obtain res as1 new1 where step: "as_protect_and_clone_region ops as (vregion v) new_as (cow_perms v) = (res, as1, new1)"
    by (metis prod_cases3)
  then obtain w where w: "res = Inr w" and rest: "clone_regions ops vs as1 new1 = Some (Inr u, as', new')"
    using Cons.prems(3) al by (cases res) (simp_all add: cow_perms_def Let_def)
  have in_v: "unat b \<in> span (vregion v) \<longleftrightarrow> covers (unat b) v" for b :: addr by (simp add: covers_def span_def)
  have "\<forall>b. unat b \<in> span (vregion v) \<longrightarrow> as_translate ops new_as b = None" using Cons.prems(4) by (simp add: in_v)
  note clone = laws [unfolded clones_region_def, rule_format, OF this [rule_format] step [unfolded w], unfolded in_v]
  have law: "as_translate ops as1 a = (if covers (unat a) v then map_option (info_perms_update (\<lambda>_. cow_perms v)) (as_translate ops as a) else as_translate ops as a)"
    "as_translate ops new1 a = (if covers (unat a) v then map_option (info_perms_update (\<lambda>_. cow_perms v)) (as_translate ops as a) else as_translate ops new_as a)" for a
    using clone by blast+
  have new1: "\<forall>u \<in> set vs. \<forall>b. covers (unat b) u \<longrightarrow> as_translate ops new1 b = None"
    using Cons.prems(2,4) law(2) by (auto simp: apart_def covers_def)
  have none: "find (covers (unat a)) vs = None" if "covers (unat a) v"
    using that Cons.prems(2) by (auto simp: find_None_iff apart_def covers_def)
  show ?case using Cons.IH [OF _ _ rest new1] Cons.prems(1,2) law [of a] none by (auto split: option.splits)
qed simp

lemma vmas_sorted_apart:
  assumes "vmas_ok m"
  shows "sorted_wrt apart (map snd m)"
proof -
  have "sorted_wrt apart (rev (map snd m))"
    using rev_areas_sorted [OF assms] unfolding rev_map
    by (rule sorted_wrt_mono_rel [rotated]) (simp add: apart_def)
  then show ?thesis using apart_sym by (auto simp: sorted_wrt_rev intro: sorted_wrt_mono_rel [rotated])
qed

lemma find_covers: "find (covers x) (map snd m) = vma_at m x"
  by (simp add: vma_at_def covers_def [abs_def])

text \<open>
  Claim C18. A successful copy-on-write clone: parent and child have the same areas and the same break. A
  page of an area has in both the frame the parent had before, and the permissions of the area;
  in a private area no page is writable in either, so that a write by one process is never seen
  by the other without a fault. The child has no page outside the areas.
\<close>

theorem clone_as_cow_isolates:
  assumes laws: "fresh_empty ops" "clones_region ops" and ok: "vmas_ok (vmas (vm_mm vm))"
    and run: "vm_clone_as_cow ops vm = Some (Inr child, parent)"
  shows "vmas (vm_mm child) = vmas (vm_mm vm) \<and> vmas (vm_mm parent) = vmas (vm_mm vm) \<and>
    vm_brk child = vm_brk vm \<and> vm_brk parent = vm_brk vm \<and>
    (\<forall>a. case vma_at (vmas (vm_mm vm)) (unat a) of
       None \<Rightarrow> as_translate ops (address_space (vm_mm child)) a = None
     | Some v \<Rightarrow>
         as_translate ops (address_space (vm_mm child)) a = as_translate ops (address_space (vm_mm parent)) a \<and>
         map_option info_pfn (as_translate ops (address_space (vm_mm child)) a) =
           map_option info_pfn (as_translate ops (address_space (vm_mm vm)) a) \<and>
         (\<forall>i. as_translate ops (address_space (vm_mm child)) a = Some i \<longrightarrow>
            info_perms i = cow_perms v \<and> (\<not> is_shared v \<longrightarrow> \<not> pte_write (info_perms i))))"
proof -
  let ?m = "vmas (vm_mm vm)" and ?as = "address_space (vm_mm vm)"
  obtain new_as u as' new' where new: "as_new ops = Inr new_as"
    and cl: "clone_regions ops (map snd ?m) ?as new_as = Some (Inr u, as', new')"
    and child: "child = \<lparr>vm_mm = \<lparr>vmas = ?m, address_space = new'\<rparr>, vm_brk = vm_brk vm\<rparr>"
    and parent: "parent = vm\<lparr>vm_mm := (vm_mm vm)\<lparr>address_space := as'\<rparr>\<rparr>"
  proof (cases "as_new ops")
    case (Inr new_as)
    obtain res as' new' where cl: "clone_regions ops (map snd ?m) ?as new_as = Some (res, as', new')"
      using run Inr by (cases "clone_regions ops (map snd ?m) ?as new_as") (auto simp: vm_clone_as_cow_def mm_clone_as_cow_def)
    show thesis using that [OF Inr, of _ as' new'] run Inr cl
      by (cases res) (auto simp: vm_clone_as_cow_def mm_clone_as_cow_def)
  qed (use run in \<open>simp add: vm_clone_as_cow_def mm_clone_as_cow_def\<close>)
  have areas: "\<forall>v \<in> set (map snd ?m). vma_ok v" using vmas_okD(3) [OF ok] by (simp add: areas_def)
  have empty: "as_translate ops new_as a = None" for a using laws(1) new by (simp add: fresh_empty_def)
  note tr = clone_regions_spec [OF laws(2) areas vmas_sorted_apart [OF ok] cl, unfolded find_covers]
  have "case vma_at ?m (unat a) of
       None \<Rightarrow> as_translate ops new' a = None
     | Some v \<Rightarrow>
         as_translate ops new' a = as_translate ops as' a \<and>
         map_option info_pfn (as_translate ops new' a) = map_option info_pfn (as_translate ops ?as a) \<and>
         (\<forall>i. as_translate ops new' a = Some i \<longrightarrow>
            info_perms i = cow_perms v \<and> (\<not> is_shared v \<longrightarrow> \<not> pte_write (info_perms i)))" for a
    using tr [of a] empty cow_perms_private by (auto split: option.split simp: option.map_comp comp_def)
  moreover have sel: "address_space (vm_mm child) = new'" "address_space (vm_mm parent) = as'" by (simp_all add: child parent)
  ultimately show ?thesis unfolding sel by (simp add: child parent)
qed

text \<open>Page tables as a function, with the documented behaviour.\<close>

definition map_ops :: "(addr \<Rightarrow> PageInfo option) address_space_ops" where
  "map_ops = \<lparr>
     as_new = Inr (\<lambda>_. None),
     as_map_page = (\<lambda>as p a c. (Inr (), as(a := Some \<lparr>info_pfn = p, info_perms = c\<rparr>))),
     as_unmap = (\<lambda>as a. Some (case as a of None \<Rightarrow> Inl Fault | Some i \<Rightarrow> Inr (info_pfn i), as(a := None))),
     as_remap = (\<lambda>as a p c. (case as a of None \<Rightarrow> Inl Fault | Some i \<Rightarrow> Inr (info_pfn i), as(a := Some \<lparr>info_pfn = p, info_perms = c\<rparr>))),
     as_protect_range = (\<lambda>as r c. (Inr (), \<lambda>a. if unat a \<in> span r then map_option (info_perms_update (\<lambda>_. c)) (as a) else as a)),
     as_unmap_range = (\<lambda>as r. (Inr [], \<lambda>a. if unat a \<in> span r then None else as a)),
     as_translate = (\<lambda>as a. as a),
     as_protect_and_clone_region = (\<lambda>as r other c. (Inr (),
        \<lambda>a. if unat a \<in> span r then map_option (info_perms_update (\<lambda>_. c)) (as a) else as a,
        \<lambda>a. if unat a \<in> span r \<and> as a \<noteq> None then map_option (info_perms_update (\<lambda>_. c)) (as a) else other a))\<rparr>"

theorem clone_as_cow_isolates_witness:
  "\<exists>child parent. vm_clone_as_cow map_ops
       \<lparr>vm_mm = \<lparr>vmas = vmas mm0, address_space = (\<lambda>_. None)(0x11000 := Some \<lparr>info_pfn = 5, info_perms = pte_rw True\<rparr>)\<rparr>,
        vm_brk = rnew 0x16000 0\<rparr> = Some (Inr child, parent) \<and>
     as_translate map_ops (address_space (vm_mm child)) 0x11000 = Some \<lparr>info_pfn = 5, info_perms = into_cow (pte_rw True)\<rparr>"
proof -
  let ?vm = "\<lparr>vm_mm = \<lparr>vmas = vmas mm0, address_space = (\<lambda>_. None)(0x11000 := Some \<lparr>info_pfn = 5, info_perms = pte_rw True\<rparr>)\<rparr>,
        vm_brk = rnew 0x16000 0\<rparr>"
  have laws: "fresh_empty map_ops" "clones_region map_ops" by (auto simp: fresh_empty_def clones_region_def map_ops_def)
  have ok: "vmas_ok (vmas (vm_mm ?vm))" using mm0_ok by simp
  have al: "align_to_page_boundary (rnew 0x10000 0x3000) = Some (rnew 0x10000 0x3000)"
    "align_to_page_boundary (rnew 0x14000 0x2000) = Some (rnew 0x14000 0x2000)" by code_simp+
  have "\<exists>child parent. vm_clone_as_cow map_ops ?vm = Some (Inr child, parent)"
    by (simp add: vm_clone_as_cow_def mm_clone_as_cow_def map_ops_def mm0_def mm_of_def anon_vma_def file_vma_def vmarea_new_def al Let_def)
  then obtain child parent where run: "vm_clone_as_cow map_ops ?vm = Some (Inr child, parent)" by blast
  have at: "vma_at (vmas (vm_mm ?vm)) (unat (0x11000 :: usize)) = Some (anon_vma 0x10000 0x3000 vma_rw)"
    by (simp add: vma_at_def mm0_def example_defs lo_def hi_def)
  have before: "as_translate map_ops (address_space (vm_mm ?vm)) 0x11000 = Some \<lparr>info_pfn = 5, info_perms = pte_rw True\<rparr>"
    by (simp add: map_ops_def)
  have "map_option info_pfn (as_translate map_ops (address_space (vm_mm child)) 0x11000) = Some 5 \<and>
      (\<forall>i. as_translate map_ops (address_space (vm_mm child)) 0x11000 = Some i \<longrightarrow> info_perms i = cow_perms (anon_vma 0x10000 0x3000 vma_rw))"
    using clone_as_cow_isolates [OF laws ok run, THEN conjunct2, THEN conjunct2, THEN conjunct2, THEN conjunct2, THEN spec, of "0x11000"]
    unfolding at before option.case option.map PageInfo.select_convs by blast
  moreover have "cow_perms (anon_vma 0x10000 0x3000 vma_rw) = into_cow (pte_rw True)" by code_simp
  ultimately show ?thesis using run by auto
qed

end
