(* ===== verification/Fault_Props.thy ===== *)
theory Fault_Props
  imports Fault Proc_Vm_Props
begin

text \<open>
  The correctness of the page-fault handlers: reference counts, the isolation of copy-on-write pages,
  and what a faulted-in page contains.
\<close>

section \<open>Copy-on-write faults\<close>

lemma page_aligned_eq_iff: "page_aligned b = page_aligned a \<longleftrightarrow> unat b div 4096 = unat a div 4096"
  by (simp add: unat_eq_usize unat_page_aligned round_down_def)

lemma page_region_of_sel:
  "lo (page_region_of a) = unat a div 4096 * 4096" "hi (page_region_of a) = unat a div 4096 * 4096 + 4096"
  by (simp_all add: page_region_of_def lo_def hi_def unat_page_aligned round_down_def PAGE_SIZE_def)

lemma span_page_region_of: "unat b \<in> span (page_region_of a) \<longleftrightarrow> page_aligned b = page_aligned a"
proof -
  have "unat b \<in> span (page_region_of a) \<longleftrightarrow> unat a div 4096 * 4096 \<le> unat b \<and> unat b < unat a div 4096 * 4096 + 4096"
    by (simp add: span_def page_region_of_sel)
  also have "\<dots> \<longleftrightarrow> unat b div 4096 = unat a div 4096" by linarith
  finally show ?thesis by (simp add: page_aligned_eq_iff)
qed

definition now_private ::
  "'a address_space_ops \<Rightarrow> (nat \<Rightarrow> nat) \<Rightarrow> addr \<Rightarrow> PageInfo \<Rightarrow> 'a process_vm \<times> kmem \<Rightarrow> 'a process_vm \<times> kmem \<Rightarrow> bool" where
  "now_private ops ext a i = (\<lambda>(vm, km) (vm', km').
     \<exists>q. as_translate ops (vm_as vm') =
           (\<lambda>b. if page_aligned b = page_aligned a then Some \<lparr>info_pfn = q, info_perms = from_cow (info_perms i)\<rparr>
                else as_translate ops (vm_as vm) b) \<and>
       page_data km' q = page_data km (info_pfn i) \<and> refs ops ext (vm_as vm') km' q = 1 \<and>
       (if refs ops ext (vm_as vm) km (info_pfn i) = 1 then q = info_pfn i else refs ops ext (vm_as vm) km q = 0))"

lemma cow_take_over:
  assumes laws: "protects_range ops" "by_page ops" and tr: "as_translate ops (vm_as vm) a = Some i"
    and run: "as_protect_range ops (vm_as vm) (page_region_of a) (from_cow (info_perms i)) = (r, as')"
    and one: "refs ops ext (vm_as vm) km (info_pfn i) = 1" and ok: "refs_ok ops ext P (vm, km)"
  shows "refs_ok ops ext P (set_as as' vm, km)" and "r = Inr u \<Longrightarrow> now_private ops ext a i (vm, km) (set_as as' vm, km)"
proof -
  have "4096 dvd lo (page_region_of a)" "4096 dvd hi (page_region_of a)" by (simp_all add: page_region_of_sel)
  note law = laws(1) [unfolded protects_range_def, rule_format, OF this run]
  have same: "refs ops ext as' km = refs ops ext (vm_as vm) km" using law by (intro refs_cong page_refs_cong) simp_all
  then show "refs_ok ops ext P (set_as as' vm, km)" using ok by (simp add: refs_ok_def)
  assume r: "r = Inr u"
  have "as_translate ops as' b = (if page_aligned b = page_aligned a then Some \<lparr>info_pfn = info_pfn i, info_perms = from_cow (info_perms i)\<rparr>
      else as_translate ops (vm_as vm) b)" for b
  proof (cases "page_aligned b = page_aligned a")
    case True
    then have "as_translate ops (vm_as vm) b = Some i" using laws(2) tr unfolding by_page_def by metis
    then show ?thesis using law [of b] r True by (simp add: span_page_region_of)
  next
    case False
    then show ?thesis using law [of b] r by (simp add: span_page_region_of)
  qed
  then show "now_private ops ext a i (vm, km) (set_as as' vm, km)"
    using same one by (auto simp: now_private_def)
qed

lemma page_refs_pos:
  assumes "by_page ops" "as_translate ops as a = Some i"
  shows "0 < page_refs ops as (info_pfn i)"
proof -
  have "page_aligned a \<in> {b. is_page_aligned b \<and> map_option info_pfn (as_translate ops as b) = Some (info_pfn i)}"
    using assms by (simp add: by_page_def)
  then show ?thesis unfolding page_refs_def by (metis (no_types, lifting) card_gt_0_iff empty_iff finite)
qed

text \<open>The copy: the process now holds the old frame, which its page table no longer refers to.\<close>

lemma remapped_holds:
  assumes laws: "by_page ops" and tr: "as_translate ops as a = Some i" and p: "p \<noteq> info_pfn i"
    and new: "as_translate ops as' = (\<lambda>b. if page_aligned b = page_aligned a then Some \<lparr>info_pfn = p, info_perms = c\<rparr>
      else as_translate ops as b)"
  shows "refs ops (holding (info_pfn i) ext) as' km = refs ops (holding p ext) as km"
proof
  fix q
  have "map_option info_pfn (as_translate ops as (page_aligned a)) = Some (info_pfn i)" using laws tr by (simp add: by_page_def)
  then show "refs ops (holding (info_pfn i) ext) as' km q = refs ops (holding p ext) as km q"
    using page_refs_set [OF page_aligned_simps(1) new, of q] p by (auto simp: refs_def split: if_splits)
qed

lemma cow_copy:
  assumes laws: "remaps_page ops" "by_page ops" and tr: "as_translate ops (vm_as vm) a = Some i"
    and old: "0 < refs ops ext (vm_as vm) km (info_pfn i)" and p: "refs ops ext (vm_as vm) km p = 0"
    and ok: "refs_ok ops (holding p ext) P (vm, km1)" and km1: "backings km1 = backings km"
  obtains as' km' where "as_remap ops (vm_as vm) a p c = (Inr (info_pfn i), as')"
    "cp_drop (as_phys_range (info_pfn i)) km1 = Some km'" "refs_ok ops ext P (set_as as' vm, km')"
    "page_data km' = page_data km1" "backings km' = backings km"
    "as_translate ops as' = (\<lambda>b. if page_aligned b = page_aligned a then Some \<lparr>info_pfn = p, info_perms = c\<rparr>
      else as_translate ops (vm_as vm) b)" "refs ops ext as' km' p = 1"
proof -
  obtain as' where run: "as_remap ops (vm_as vm) a p c = (Inr (info_pfn i), as')"
    and new: "as_translate ops as' = (\<lambda>b. if page_aligned b = page_aligned a then Some \<lparr>info_pfn = p, info_perms = c\<rparr>
      else as_translate ops (vm_as vm) b)" using laws(1) tr unfolding remaps_page_def by blast
  have ne: "p \<noteq> info_pfn i" using old p by auto
  note eq = remapped_holds [OF laws(2) tr ne new, of ext km1]
  have "refs_ok ops (holding (info_pfn i) ext) P (set_as as' vm, km1)" using ok eq by (simp add: refs_ok_def)
  from drop_held [OF this, of as'] obtain km' where km': "cp_drop (as_phys_range (info_pfn i)) km1 = Some km'"
    "refs_ok ops ext P (set_as as' vm, km')" "page_data km' = page_data km1" "backings km' = backings km1"
    by (auto simp: set_as_def)
  have "refs ops ext as' km' p = refs ops (holding (info_pfn i) ext) as' km1 p" using ne km'(4) by (simp add: refs_def)
  also have "\<dots> = Suc (refs ops ext (vm_as vm) km1 p)" unfolding eq by (simp add: refs_holding)
  also have "\<dots> = 1" using p km1 by (simp add: refs_def)
  finally have one: "refs ops ext as' km' p = 1" .
  show thesis by (rule that [OF run km'(1-3) _ new one]) (simp add: km'(4) km1)
qed

text \<open>
  Claim C2. A write to a copy-on-write page, on a system whose reference counts are right: the handler
  never panics and the counts stay right, with no frame lost and none freed too early. When it
  resolves the fault, the page is mapped writable to a frame that no one else refers to and
  that has the bytes of the old frame; this is the old frame itself when the process had the only
  reference, and otherwise a frame that was free. No other page of the process changes, and no
  frame that was in use changes its bytes, so that no other process sees anything.
\<close>

theorem cow_fault_correct:
  assumes laws: "remaps_page ops" "protects_range ops" "by_page ops" and ok: "refs_ok ops ext P (vm, km)"
    and tr: "as_translate ops (vm_as vm) a = Some i" and cow: "pte_cow (info_perms i)"
  shows "\<exists>res as' km'. handle_protection_fault ops a AccessWrite i (vm, km) = Some (res, set_as as' vm, km') \<and>
    refs_ok ops ext P (set_as as' vm, km') \<and>
    (\<forall>p. 0 < refs ops ext (vm_as vm) km p \<longrightarrow> page_data km' p = page_data km p) \<and>
    res \<noteq> Inr Denied \<and> (res = Inr Resolved \<longrightarrow> now_private ops ext a i (vm, km) (set_as as' vm, km'))"
proof -
  let ?n = "refs ops ext (vm_as vm) km" and ?p = "info_pfn i" and ?c = "from_cow (info_perms i)"
  have pos: "0 < ?n ?p" using page_refs_pos [OF laws(3) tr] by (simp add: refs_def)
  obtain fa where fa: "page_alloc km = Some fa" "counted ?n fa" by (rule accountsE [OF refs_okD(1) [OF ok]])
  note ex = counted_exclusive [OF fa(2) pos]
  show ?thesis
  proof (cases "?n ?p = 1")
    case True
    obtain r as' where r: "as_protect_range ops (vm_as vm) (page_region_of a) ?c = (r, as')" by fastforce
    note take = cow_take_over [OF laws(2,3) tr r True ok]
    show ?thesis
    proof (cases r)
      case (Inl e)
      then show ?thesis using take(1) r fa(1) ex True cow by (intro exI [of _ "Inl e"] exI [of _ as'] exI [of _ km]) (simp add: handle_protection_fault_def)
    next
      case (Inr u)
      then show ?thesis using take(1) take(2) [OF Inr] r fa(1) ex True cow
        by (intro exI [of _ "Inr Resolved"] exI [of _ as'] exI [of _ km]) (simp add: handle_protection_fault_def)
    qed
  next
    case False
    from alloc_zeroed_held [OF ok] show ?thesis
    proof (elim disjE exE conjE)
      assume "alloc_zeroed km = Some (Inl NoMemory, km)"
      then show ?thesis using fa(1) ex False cow ok
        by (intro exI [of _ "Inl NoMemory"] exI [of _ "vm_as vm"] exI [of _ km]) (simp add: handle_protection_fault_def)
    next
      fix q km1
      assume q: "alloc_zeroed km = Some (Inr (as_phys_range q), km1)" "?n q = 0"
        and km1: "refs_ok ops (holding q ext) P (vm, km1)" "page_data km1 = (page_data km)(q := \<lambda>_. 0)" "backings km1 = backings km"
      let ?km2 = "set_page (as_phys_range q) (page_data km1 ?p) km1"
      have pfn: "cp_pfn (as_phys_range q) = q" "cp_pfn (as_phys_range ?p) = ?p"
        using refs_ok_pfn [OF km1(1)] accounts_pfn [OF refs_okD(1) [OF ok] pos] by simp_all
      have "refs_ok ops (holding q ext) P (vm, ?km2)" using km1(1) by (simp add: refs_ok_def accounts_def set_page_def refs_def [abs_def])
      moreover have "backings ?km2 = backings km" using km1(3) by (simp add: set_page_def)
      ultimately obtain as' km' where m: "as_remap ops (vm_as vm) a q ?c = (Inr ?p, as')" "cp_drop (as_phys_range ?p) ?km2 = Some km'"
        "refs_ok ops ext P (set_as as' vm, km')" "page_data km' = page_data ?km2" "backings km' = backings km"
        "as_translate ops as' = (\<lambda>b. if page_aligned b = page_aligned a then Some \<lparr>info_pfn = q, info_perms = ?c\<rparr> else as_translate ops (vm_as vm) b)"
        "refs ops ext as' km' q = 1" by (rule cow_copy [OF laws(1,3) tr pos q(2)])
      have run: "handle_protection_fault ops a AccessWrite i (vm, km) = Some (Inr Resolved, set_as as' vm, km')"
        using cow fa(1) ex False q(1) pfn m(1,2) by (simp add: handle_protection_fault_def Let_def cp_from_pfn_def)
      have data: "page_data km' = (page_data km)(q := page_data km ?p)"
        using m(4) km1(2) pos q(2) pfn by (auto simp: set_page_def)
      have "now_private ops ext a i (vm, km) (set_as as' vm, km')"
        unfolding now_private_def using m(6,7) data False q(2) by auto
      then show ?thesis using run m(3) data q(2) by (intro exI [of _ "Inr Resolved"] exI [of _ as'] exI [of _ km']) auto
    qed
  qed
qed

text \<open>Page tables as a map from page addresses, on which the laws hold.\<close>

definition page_ops :: "(addr \<Rightarrow> PageInfo option) address_space_ops" where
  "page_ops = \<lparr>
     as_new = Inr (\<lambda>_. None),
     as_map_page = (\<lambda>as p a c. case as (page_aligned a) of
        None \<Rightarrow> (Inr (), as(page_aligned a := Some \<lparr>info_pfn = p, info_perms = c\<rparr>))
      | Some _ \<Rightarrow> (Inl (MappingError Map_AlreadyMapped), as)),
     as_unmap = (\<lambda>as a. case as (page_aligned a) of
        None \<Rightarrow> Some (Inl (MappingError Map_NotL3Mapped), as)
      | Some i \<Rightarrow> Some (Inr (info_pfn i), as(page_aligned a := None))),
     as_remap = (\<lambda>as a p c. case as (page_aligned a) of
        None \<Rightarrow> (Inl (MappingError Map_NotL3Mapped), as)
      | Some i \<Rightarrow> (Inr (info_pfn i), as(page_aligned a := Some \<lparr>info_pfn = p, info_perms = c\<rparr>))),
     as_protect_range = (\<lambda>as r c. (Inr (), \<lambda>a. if lo r \<le> unat a \<and> unat a < hi r
        then map_option (info_perms_update (\<lambda>_. c)) (as a) else as a)),
     as_unmap_range = (\<lambda>as r. (Inr (List.map_filter (\<lambda>a. map_option info_pfn (as a)) (iter_pages r)),
        \<lambda>a. if contains_address r a then None else as a)),
     as_translate = (\<lambda>as a. as (page_aligned a)),
     as_protect_and_clone_region = (\<lambda>as r other c. (Inr (), as, other))\<rparr>"

lemma page_ops_laws: "maps_page page_ops" "remaps_page page_ops" "by_page page_ops"
  by (auto simp: maps_page_def remaps_page_def by_page_def page_ops_def split: option.splits sum.splits)

lemma page_in_region:
  assumes "4096 dvd l" "4096 dvd h"
  shows "l \<le> unat (page_aligned b) \<and> unat (page_aligned b) < h \<longleftrightarrow> l \<le> unat b \<and> unat b < h"
proof -
  obtain i j where ij: "l = 4096 * i" "h = 4096 * j" using assms by (auto elim!: dvdE)
  have "i \<le> unat b div 4096 \<longleftrightarrow> i * 4096 \<le> unat b" "unat b div 4096 < j \<longleftrightarrow> unat b < j * 4096"
    by (simp_all add: less_eq_div_iff_mult_less_eq div_less_iff_less_mult)
  then show ?thesis by (simp add: ij unat_page_aligned round_down_def mult.commute)
qed

lemma page_ops_protects: "protects_range page_ops"
  by (auto simp: protects_range_def page_ops_def page_in_region span_def option.map_comp comp_def)

definition cow_fa :: frame_alloc where
  "cow_fa = \<lparr>frame_list = \<lparr>frames = [\<lparr>state = AllocatedHead \<lparr>ref_count = 2, order = 0\<rparr>, link = False\<rparr>,
                                      \<lparr>state = Free 0, link = True\<rparr>], base_page = 2\<rparr>,
             free_pages = 1, free_lists = (\<lambda>k. if k = 0 then [3] else [])\<rparr>"

definition cow_km :: kmem where
  "cow_km = \<lparr>page_alloc = Some cow_fa, page_data = (\<lambda>p j. if p = 2 then 7 else 0), backings = []\<rparr>"

definition cow_vm :: "(addr \<Rightarrow> PageInfo option) process_vm" where
  "cow_vm = \<lparr>vm_mm = \<lparr>vmas = vmas mm0, address_space = [0x11000 \<mapsto> \<lparr>info_pfn = 2, info_perms = into_cow (pte_rw True)\<rparr>]\<rparr>,
             vm_brk = rnew 0x16000 0\<rparr>"

lemma cow_table: "table cow_fa = [2 \<mapsto> \<lparr>state = AllocatedHead \<lparr>ref_count = 2, order = 0\<rparr>, link = False\<rparr>,
                                  3 \<mapsto> \<lparr>state = Free 0, link = True\<rparr>]"
  by (simp add: cow_fa_def two_frames numeral_eq_Suc)

lemma cow_free: "free_set (table cow_fa) = {3}"
proof -
  have "st_of (table cow_fa) p = Some (Free k) \<longleftrightarrow> p = 3 \<and> k = 0" for p k by (auto simp: cow_table)
  then show ?thesis by (auto simp: free_set_iff blk_0)
qed

lemma cow_fa_inv: "fa_inv cow_fa"
proof -
  have "pf_buddy 3 0 = 2" by (simp add: pf_buddy_def)
  moreover have "free_lists cow_fa = (\<lambda>k. if k = 0 then [3] else [])" by (simp add: cow_fa_def)
  ultimately have "fa_ok cow_fa"
    by (auto simp: buddy_inv_def blocks_ok_def lists_ok_def tails_ok_def coalesced_def cow_table
        MAX_ORDER_def blk_0 split: if_splits)
  moreover have "unat (free_pages cow_fa) = card (free_set (table cow_fa))"
    unfolding cow_free by (simp add: cow_fa_def)
  ultimately show ?thesis by (simp add: fa_inv_def count_ok_def cow_fa_def total_pages_def)
qed

lemma cow_refs: "refs page_ops ((\<lambda>_. 0)(2 := 1)) (vm_as cow_vm) cow_km = (\<lambda>_. 0)(2 := 2)"
proof
  fix p
  have "is_page_aligned 0x11000" by code_simp
  then have "{a. is_page_aligned a \<and> map_option info_pfn (as_translate page_ops (vm_as cow_vm) a) = Some p} = (if p = 2 then {0x11000} else {})"
    by (auto simp: page_ops_def cow_vm_def split: if_splits)
  then have "page_refs page_ops (vm_as cow_vm) p = (if p = 2 then 1 else 0)" unfolding page_refs_def by simp
  then show "refs page_ops ((\<lambda>_. 0)(2 := 1)) (vm_as cow_vm) cow_km p = ((\<lambda>_. 0)(2 := 2)) p"
    by (simp add: refs_def backing_refs_def cow_km_def)
qed

lemma cow_refs_ok: "refs_ok page_ops ((\<lambda>_. 0)(2 := 1)) {2, 3} (cow_vm, cow_km)"
proof -
  have "counted ((\<lambda>_. 0)(2 := 2)) cow_fa" using cow_fa_inv by (simp add: counted_def cow_table)
  moreover have "{p. 0 < ((\<lambda>_. 0)(2 := 2 :: nat)) p} \<union> free_set (table cow_fa) = {2, 3}" unfolding cow_free by auto
  ultimately have "accounts ((\<lambda>_. 0)(2 := 2)) {2, 3} cow_km" unfolding accounts_def by (simp add: cow_km_def)
  then show ?thesis unfolding refs_ok_def prod.case cow_refs by (simp add: backings_ok_def cow_km_def)
qed

theorem cow_fault_correct_witness:
  "\<exists>as' km'. handle_protection_fault page_ops 0x11008 AccessWrite \<lparr>info_pfn = 2, info_perms = into_cow (pte_rw True)\<rparr> (cow_vm, cow_km) =
       Some (Inr Resolved, set_as as' cow_vm, km') \<and> page_data km' 2 5 = 7 \<and>
     (\<exists>q. as' 0x11000 = Some \<lparr>info_pfn = q, info_perms = pte_rw True\<rparr> \<and> q \<noteq> 2 \<and> page_data km' q 5 = 7)"
proof -
  let ?i = "\<lparr>info_pfn = 2, info_perms = into_cow (pte_rw True)\<rparr>" and ?ext = "(\<lambda>_. 0)(2 := 1) :: nat \<Rightarrow> nat"
  have tr: "as_translate page_ops (vm_as cow_vm) 0x11008 = Some ?i" by code_simp
  have cow: "pte_cow (info_perms ?i)" by (simp add: into_cow_def)
  have fc: "from_cow (into_cow (pte_rw True)) = pte_rw True" by code_simp
  have run: "case handle_protection_fault page_ops 0x11008 AccessWrite ?i (cow_vm, cow_km) of Some (Inr Resolved, _) \<Rightarrow> True | _ \<Rightarrow> False"
    by code_simp
  obtain res as' km' where r: "handle_protection_fault page_ops 0x11008 AccessWrite ?i (cow_vm, cow_km) = Some (res, set_as as' cow_vm, km')"
    and keep: "\<forall>p. 0 < refs page_ops ?ext (vm_as cow_vm) cow_km p \<longrightarrow> page_data km' p = page_data cow_km p"
    and priv: "res = Inr Resolved \<longrightarrow> now_private page_ops ?ext 0x11008 ?i (cow_vm, cow_km) (set_as as' cow_vm, km')"
    using cow_fault_correct [OF page_ops_laws(2) page_ops_protects page_ops_laws(3) cow_refs_ok tr cow] by blast
  have res: "res = Inr Resolved" using run r by (auto split: sum.splits FaultResolution.splits)
  have d2: "page_data km' 2 = page_data cow_km 2" using keep unfolding cow_refs by simp
  obtain q where q: "as_translate page_ops as' = (\<lambda>b. if page_aligned b = page_aligned 0x11008 then Some \<lparr>info_pfn = q, info_perms = pte_rw True\<rparr>
      else as_translate page_ops (vm_as cow_vm) b)" "page_data km' q = page_data cow_km 2"
    "if ((\<lambda>_. 0)(2 := 2 :: nat)) (2 :: nat) = 1 then q = 2 else ((\<lambda>_. 0)(2 := 2 :: nat)) q = 0"
    using priv [rule_format, OF res] unfolding now_private_def prod.case set_as_simps cow_refs PageInfo.select_convs fc by blast
  have "page_aligned 0x11008 = 0x11000" "page_aligned 0x11000 = 0x11000" by code_simp+
  then have "as' 0x11000 = Some \<lparr>info_pfn = q, info_perms = pte_rw True\<rparr>"
    using fun_cong [OF q(1), of "0x11000"] by (simp add: page_ops_def)
  moreover have "q \<noteq> 2" using q(3) by (simp split: if_splits)
  ultimately show ?thesis using r res d2 q(2) by (auto simp: cow_km_def)
qed

section \<open>Faults on absent pages\<close>

definition backed :: "'a process_vm \<Rightarrow> kmem \<Rightarrow> bool" where
  "backed vm km \<longleftrightarrow>
     (\<forall>v \<in> areas (vmas (vm_mm vm)). \<forall>s. vkind v = SharedAnon s \<longrightarrow> sh_backing s < length (backings km))"

text \<open>
  What a page of an area gets. In a shared area it is the page that the backing object has at that
  offset, and the object and its pages stay as they are; an object that has none gets a zero page that no
  one referred to, at that offset only. In any other area it is a zero page that no one referred to.
\<close>

definition right_page ::
  "'a address_space_ops \<Rightarrow> (nat \<Rightarrow> nat) \<Rightarrow> vmarea \<Rightarrow> addr \<Rightarrow> nat \<Rightarrow> 'a process_vm \<times> kmem \<Rightarrow> kmem \<Rightarrow> bool" where
  "right_page ops ext v a p = (\<lambda>(vm, km) km'.
     (case vkind v of
        SharedAnon s \<Rightarrow>
          (let k = sh_offset s + (page_aligned a - start_address (vregion v)); b = sh_backing s
           in case bt_get k (backings km ! b) of
                Some page \<Rightarrow> page = as_phys_range p \<and> page_data km' = page_data km \<and> backings km' = backings km
              | None \<Rightarrow> refs ops ext (vm_as vm) km p = 0 \<and> page_data km' p = (\<lambda>_. 0) \<and>
                  backings km' = (backings km)[b := bt_insert k (as_phys_range p) (backings km ! b)])
      | _ \<Rightarrow> refs ops ext (vm_as vm) km p = 0 \<and> page_data km' p = (\<lambda>_. 0) \<and> backings km' = backings km))"

definition faulted_in ::
  "'a address_space_ops \<Rightarrow> (nat \<Rightarrow> nat) \<Rightarrow> vmarea \<Rightarrow> addr \<Rightarrow> 'a process_vm \<times> kmem \<Rightarrow> 'a process_vm \<times> kmem \<Rightarrow> bool" where
  "faulted_in ops ext v a = (\<lambda>(vm, km) (vm', km').
     \<exists>p. right_page ops ext v a p (vm, km) km' \<and>
        as_translate ops (vm_as vm') =
          (if as_translate ops (vm_as vm) (page_aligned a) = None
           then \<lambda>b. if page_aligned b = page_aligned a then Some \<lparr>info_pfn = p, info_perms = pte_of_vma (vperms v)\<rparr>
                    else as_translate ops (vm_as vm) b
           else as_translate ops (vm_as vm)))"

definition demand_done ::
  "'a address_space_ops \<Rightarrow> (nat \<Rightarrow> nat) \<Rightarrow> nat set \<Rightarrow> vmarea \<Rightarrow> addr \<Rightarrow> AccessKind \<Rightarrow> FaultResolution result \<Rightarrow>
    'a process_vm \<times> kmem \<Rightarrow> 'a process_vm \<times> kmem \<Rightarrow> bool" where
  "demand_done ops ext P v a k outcome = (\<lambda>(vm, km) (vm', km').
     (case outcome of
        Inl e \<Rightarrow> refs_ok ops ext P (vm', km') \<and> as_translate ops (vm_as vm') = as_translate ops (vm_as vm) \<and>
          (backings km' = backings km \<or> (\<exists>p. right_page ops ext v a p (vm, km) km'))
      | Inr Denied \<Rightarrow> False
      | Inr Resolved \<Rightarrow> refs_ok ops ext P (vm', km') \<and> faulted_in ops ext v a (vm, km) (vm', km')
      | Inr (Deferred d) \<Rightarrow> vm' = vm \<and>
          (\<exists>p r. d = \<lparr>df_vma = v, df_read = r, df_page = as_phys_range p, df_addr = a, df_access = k\<rparr> \<and>
             resolve_fault v a = Some r \<and> right_page ops ext v a p (vm, km) km' \<and> refs_ok ops (holding p ext) P (vm, km'))))"

lemma map_claimed_done:
  assumes laws: "maps_page ops" and ok: "refs_ok ops (holding p ext) P (vm, km1)"
    and right: "right_page ops ext v a p (vm, km) km1"
  shows "\<exists>res as' km'. map_option (apfst (map_sum id (\<lambda>_. Resolved)))
        (map_claimed ops (as_phys_range p) (page_aligned a) (pte_of_vma (vperms v)) (vm, km1)) = Some (res, set_as as' vm, km') \<and>
      page_data km' = page_data km1 \<and> demand_done ops ext P v a k res (vm, km) (set_as as' vm, km')"
proof (rule map_claimed_spec [OF laws ok page_aligned_simps(1), of a "pte_of_vma (vperms v)"], goal_cases)
  case (1 r as' km')
  have "right_page ops ext v a p (vm, km) km'" using right unfolding right_page_def prod.case 1(3,4) .
  then have "demand_done ops ext P v a k (map_sum id (\<lambda>_. Resolved) r) (vm, km) (set_as as' vm, km')"
    using 1(2,5) by (cases r) (auto simp: demand_done_def faulted_in_def)
  then show ?case using 1(1,3) by (intro exI [of _ "map_sum id (\<lambda>_. Resolved) r"] exI [of _ as'] exI [of _ km']) simp
qed

lemma claim_page_held:
  assumes ok: "refs_ok ops ext P (vm, km)" and b: "sh_backing s < length (backings km)"
    and room: "\<And>p. refs ops ext (vm_as vm) km p + 1 < 2 ^ 32"
  shows "(\<exists>e. claim_page shared_claim_page s k km = Some (Inl e, km)) \<or>
    (\<exists>p km'. claim_page shared_claim_page s k km = Some (Inr p, km') \<and> refs_ok ops (holding p ext) P (vm, km') \<and>
       claimed (sh_backing s) (sh_offset s + k) p km km' \<and>
       (bt_get (sh_offset s + k) (backings km ! sh_backing s) = None \<longrightarrow> refs ops ext (vm_as vm) km p = 0) \<and>
       (\<forall>q. 0 < refs ops ext (vm_as vm) km q \<longrightarrow> page_data km' q = page_data km q))"
proof (cases "checked_add (sh_offset s) k")
  case None
  then show ?thesis by (simp add: claim_page_def)
next
  case (Some off)
  have off: "off = sh_offset s + k" using Some by (auto simp: checked_add_def split: if_splits)
  let ?m = "\<lambda>p. ext p + page_refs ops (vm_as vm) p"
  have acc: "accounts (\<lambda>p. ?m p + backing_refs (backings km) p) P km"
    and room': "\<And>p. ?m p + backing_refs (backings km) p + 1 < 2 ^ 32"
    using refs_okD(1) [OF ok] room by (simp_all add: refs_def [abs_def])
  from shared_claim_page_spec [OF acc refs_okD(2) [OF ok] b room', of off] show ?thesis
  proof (elim disjE exE conjE)
    fix p km'
    assume run: "shared_claim_page (sh_backing s) off km = Some (Inr p, km')" and c: "claimed (sh_backing s) off p km km'"
      and fresh: "bt_get off (backings km ! sh_backing s) = None \<longrightarrow> ?m p + backing_refs (backings km) p = 0"
      and acc': "accounts (\<lambda>q. ?m q + backing_refs (backings km') q + (if q = p then 1 else 0)) P km'"
    have "refs ops (holding p ext) (vm_as vm) km' = (\<lambda>q. ?m q + backing_refs (backings km') q + (if q = p then 1 else 0))"
      by (auto simp: refs_def)
    then have "refs_ok ops (holding p ext) P (vm, km')" using acc' c by (simp add: refs_ok_def claimed_def)
    moreover have "page_data km' q = page_data km q" if "0 < refs ops ext (vm_as vm) km q" for q
      using c fresh that by (auto simp: claimed_def refs_def split: option.splits)
    ultimately show ?thesis using run c Some off fresh by (auto simp: claim_page_def refs_def)
  qed (simp add: claim_page_def Some)
qed

lemma shared_fault:
  assumes laws: "maps_page ops" and ok: "backed vm km" "refs_ok ops ext P (vm, km)"
    and room: "\<And>p. refs ops ext (vm_as vm) km p + 1 < 2 ^ 32"
    and find: "find_vma_for_fault vm a k = Some (Some v)" "v \<in> areas (vmas (vm_mm vm))" and s: "vkind v = SharedAnon s"
  shows "\<exists>res as' km'. handle_demand_fault ops a k (vm, km) = Some (res, set_as as' vm, km') \<and>
    (\<forall>p. 0 < refs ops ext (vm_as vm) km p \<longrightarrow> page_data km' p = page_data km p) \<and>
    demand_done ops ext P v a k res (vm, km) (set_as as' vm, km')"
proof -
  let ?k = "page_aligned a - start_address (vregion v)"
  have "sh_backing s < length (backings km)" using ok(1) find(2) s unfolding backed_def by blast
  from claim_page_held [OF ok(2) this room, of ?k] show ?thesis
  proof (elim disjE exE conjE)
    fix e assume "claim_page shared_claim_page s ?k km = Some (Inl e, km)"
    then show ?thesis using find s ok(2) by (intro exI [of _ "Inl e"] exI [of _ "vm_as vm"] exI [of _ km])
      (simp add: handle_demand_fault_def demand_done_def Let_def)
  next
    fix p km1
    assume p: "claim_page shared_claim_page s ?k km = Some (Inr p, km1)" "refs_ok ops (holding p ext) P (vm, km1)"
      "claimed (sh_backing s) (sh_offset s + ?k) p km km1"
      "bt_get (sh_offset s + ?k) (backings km ! sh_backing s) = None \<longrightarrow> refs ops ext (vm_as vm) km p = 0" "\<forall>q. 0 < refs ops ext (vm_as vm) km q \<longrightarrow> page_data km1 q = page_data km q"
    have "right_page ops ext v a p (vm, km) km1" using p(3,4) s by (simp add: right_page_def claimed_def Let_def split: option.splits)
    from map_claimed_done [OF laws p(2) this, of k] show ?thesis using find s p(1,5)
      by (fastforce simp: handle_demand_fault_def Let_def cp_from_pfn_def)
  qed
qed

lemma private_fault:
  assumes laws: "maps_page ops" and ok: "refs_ok ops ext P (vm, km)"
    and find: "find_vma_for_fault vm a k = Some (Some v)" and priv: "\<nexists>s. vkind v = SharedAnon s"
  shows "\<exists>res as' km'. handle_demand_fault ops a k (vm, km) = Some (res, set_as as' vm, km') \<and>
    (\<forall>p. 0 < refs ops ext (vm_as vm) km p \<longrightarrow> page_data km' p = page_data km p) \<and>
    demand_done ops ext P v a k res (vm, km) (set_as as' vm, km')"
proof -
  have run: "handle_demand_fault ops a k (vm, km) = Option.bind (alloc_zeroed km) (\<lambda>(new_page, km).
      case new_page of Inl e \<Rightarrow> Some (Inl e, vm, km)
      | Inr new_page \<Rightarrow> (case resolve_fault v a of
          Some fr \<Rightarrow> Some (Inr (Deferred \<lparr>df_vma = v, df_read = fr, df_page = new_page, df_addr = a, df_access = k\<rparr>), vm, km)
        | None \<Rightarrow> map_option (apfst (map_sum id (\<lambda>_. Resolved))) (map_claimed ops new_page (page_aligned a) (pte_of_vma (vperms v)) (vm, km))))"
    using find priv by (cases "vkind v") (auto simp: handle_demand_fault_def Let_def)
  from alloc_zeroed_held [OF ok] show ?thesis
  proof (elim disjE exE conjE)
    assume "alloc_zeroed km = Some (Inl NoMemory, km)"
    then show ?thesis using run ok by (intro exI [of _ "Inl NoMemory"] exI [of _ "vm_as vm"] exI [of _ km])
      (simp add: demand_done_def)
  next
    fix p km1
    assume p: "alloc_zeroed km = Some (Inr (as_phys_range p), km1)" "refs ops ext (vm_as vm) km p = 0"
      and km1: "refs_ok ops (holding p ext) P (vm, km1)" "page_data km1 = (page_data km)(p := \<lambda>_. 0)" "backings km1 = backings km"
    have right: "right_page ops ext v a p (vm, km) km1" using priv p(2) km1(2,3) by (cases "vkind v") (auto simp: right_page_def)
    have data: "page_data km1 q = page_data km q" if "0 < refs ops ext (vm_as vm) km q" for q using that p(2) km1(2) by auto
    show ?thesis
    proof (cases "resolve_fault v a")
      case None
      then show ?thesis using map_claimed_done [OF laws km1(1) right, of k] run p(1) data by auto
    next
      case (Some fr)
      let ?d = "\<lparr>df_vma = v, df_read = fr, df_page = as_phys_range p, df_addr = a, df_access = k\<rparr>"
      have "handle_demand_fault ops a k (vm, km) = Some (Inr (Deferred ?d), vm, km1)" using run p(1) Some by simp
      then show ?thesis using data right km1(1) Some
        by (intro exI [of _ "Inr (Deferred ?d)"] exI [of _ "vm_as vm"] exI [of _ km1]) (auto simp: demand_done_def)
    qed
  qed
qed

text \<open>
  Claim C7. A demand fault, on a well-formed process whose shared areas have a backing object, with the
  reference counts right and every count at least two below \<open>2 ^ 32\<close>: the handler never panics. It denies
  exactly the accesses that no area allows. Otherwise the counts stay right, with no frame lost and none
  freed too early, and the bytes of every frame in use stay as they are. When the fault is resolved and the page was absent,
  it is now present with the permissions of its area. Its frame is the one the shared backing object
  has at that offset, and when the object has none, or the area is not shared, a fresh zero page, which in a shared area becomes
  the object's page at that offset and no other. A page that was already
  present, which another thread may have mapped, is left as it is, with its frame and its permissions. No other page changes.
  When the fault is deferred nothing is mapped yet and the new page is held by the future.
\<close>

theorem demand_fault_correct:
  assumes laws: "maps_page ops" and ok: "vmas_ok (vmas (vm_mm vm))" "backed vm km" "refs_ok ops ext P (vm, km)"
    and room: "\<And>p. refs ops ext (vm_as vm) km p + 1 < 2 ^ 32"
  shows "\<exists>res as' km'. handle_demand_fault ops a k (vm, km) = Some (res, set_as as' vm, km') \<and>
    (\<forall>p. 0 < refs ops ext (vm_as vm) km p \<longrightarrow> page_data km' p = page_data km p) \<and>
    (if \<exists>v \<in> areas (vmas (vm_mm vm)). unat a \<in> span (vregion v) \<and> permits (vperms v) k
     then \<exists>v \<in> areas (vmas (vm_mm vm)). unat a \<in> span (vregion v) \<and> permits (vperms v) k \<and>
       demand_done ops ext P v a k res (vm, km) (set_as as' vm, km')
     else res = Inr Denied \<and> as' = vm_as vm \<and> km' = km)"
proof -
  let ?ok = "\<lambda>v. v \<in> areas (vmas (vm_mm vm)) \<and> unat a \<in> span (vregion v) \<and> permits (vperms v) k"
  obtain r where find: "find_vma_for_fault vm a k = Some r" and r: "\<forall>v. r = Some v \<longleftrightarrow> ?ok v"
    using find_vma_for_fault_spec [OF ok(1), of a k] by blast
  show ?thesis
  proof (cases r)
    case None
    then have "(\<exists>v \<in> areas (vmas (vm_mm vm)). unat a \<in> span (vregion v) \<and> permits (vperms v) k) = False" using r by auto
    then show ?thesis unfolding \<open>_ = False\<close> if_False using find None
      by (intro exI [of _ "Inr Denied"] exI [of _ "vm_as vm"] exI [of _ km]) (simp add: handle_demand_fault_def)
  next
    case (Some v)
    have v: "?ok v" using r Some by blast
    have "\<exists>res as' km'. handle_demand_fault ops a k (vm, km) = Some (res, set_as as' vm, km') \<and>
        (\<forall>p. 0 < refs ops ext (vm_as vm) km p \<longrightarrow> page_data km' p = page_data km p) \<and>
        demand_done ops ext P v a k res (vm, km) (set_as as' vm, km')"
      using shared_fault [OF laws ok(2,3) room] private_fault [OF laws ok(3)] find Some v by blast
    then show ?thesis using v by auto
  qed
qed

section \<open>Faults on files\<close>

text \<open>
  What \<open>Inode::read_at\<close> documents: it puts the bytes of the file from the offset on into the buffer, and
  returns how many it read. \<open>content\<close> gives the bytes of a file.
\<close>

definition reads_file :: "(inode \<Rightarrow> u64 \<Rightarrow> nat \<Rightarrow> 8 word list result) \<Rightarrow> (inode \<Rightarrow> u64 \<Rightarrow> 8 word) \<Rightarrow> bool" where
  "reads_file read_at content \<longleftrightarrow> (\<forall>ino off len bs. read_at ino off len = Inr bs \<longrightarrow>
     length bs \<le> len \<and> (\<forall>j < length bs. bs ! j = content ino (off + of_nat j)))"

definition byte_value :: "(inode \<Rightarrow> u64 \<Rightarrow> 8 word) \<Rightarrow> byte_source \<Rightarrow> 8 word" where
  "byte_value content b = (case b of FileByte ino off \<Rightarrow> content ino off | _ \<Rightarrow> 0)"

lemma resolve_fault_slice:
  assumes "resolve_fault v a = Some r"
  shows "unat (read_page_offset r) + unat (read_len r) \<le> 4096"
proof -
  obtain w rl where r: "r = \<lparr>file_offset = file_offset r, read_page_offset = w, read_len = min rl (PAGE_SIZE - w), read_inode = read_inode r\<rparr>"
    and w: "w = 0 \<or> w = start_address (vregion v) AND PAGE_MASK"
    using assms by (auto simp: resolve_fault_def Let_def split: VMAreaKind.splits if_splits)
  have "unat w < 4096" using w by (auto simp: unat_and_PAGE_MASK)
  moreover from this have "unat (PAGE_SIZE - w) = 4096 - unat w" by (subst unat_sub_usize) (simp_all add: PAGE_SIZE_def)
  ultimately have "unat w + unat (min rl (PAGE_SIZE - w)) \<le> 4096" by (simp add: unat_min_word)
  then show ?thesis by (subst (1 2) r) simp
qed

text \<open>
  Claim C22. Reading the file into the zeroed page of a deferred fault, for a mapping whose file offsets do not
  wrap around: the slice of the page is never out of range. On an error the page is given back. On success every
  byte of the page up to the last byte that was read is what the area maps there, the byte of the
  file at the mapped offset or zero, and the bytes after it are zero. When the read was complete, all of the page
  is what the area maps. No other frame changes.
\<close>

theorem deferred_read_fills:
  assumes law: "reads_file read_at content" and ok: "refs_ok ops (holding p ext) P (vm, km)" and zero: "page_data km p = (\<lambda>_. 0)"
    and v: "vkind v = FileKind f" "vma_ok v" "unat a \<in> span (vregion v)" "resolve_fault v a = Some r"
    and fit: "unat (fm_offset f) + unat (fm_len f) < 2 ^ 64" "unat (fm_offset f) + (hi (vregion v) - lo (vregion v)) < 2 ^ 64"
    and d: "d = \<lparr>df_vma = v, df_read = r, df_page = as_phys_range p, df_addr = a, df_access = k\<rparr>"
  shows "\<exists>res km'. deferred_read read_at d km = Some (res, km') \<and>
    (case res of
       Inl e \<Rightarrow> refs_ok ops ext P (vm, km') \<and> page_data km' = page_data km
     | Inr _ \<Rightarrow> refs_ok ops (holding p ext) P (vm, km') \<and> (\<forall>q. q \<noteq> p \<longrightarrow> page_data km' q = page_data km q) \<and>
         (\<exists>bs. read_at (read_inode r) (file_offset r) (unat (read_len r)) = Inr bs \<and>
            (\<forall>j < 4096. page_data km' p j =
               (if j < unat (read_page_offset r) + length bs \<or> length bs = unat (read_len r)
                then byte_value content (vma_byte v (unat a div 4096 * 4096 + j)) else 0))))"
proof -
  note slice = resolve_fault_slice [OF v(4)] and pfn = refs_ok_pfn [OF ok]
  let ?w = "read_page_offset r" and ?n = "read_len r" and ?P = "unat a div 4096 * 4096"
  have "unat (?w + ?n) = unat ?w + unat ?n" using slice by (intro unat_add_usize) simp
  then have range: "\<not> (?w + ?n < ?w \<or> ?w + ?n > PAGE_SIZE)" using slice by (simp add: usize_order PAGE_SIZE_def)
  show ?thesis
  proof (cases "read_at (read_inode r) (file_offset r) (unat ?n)")
    case (Inl e)
    obtain km' where "cp_drop (as_phys_range p) km = Some km'" "refs_ok ops ext P (set_as (vm_as vm) vm, km')" "page_data km' = page_data km"
      using drop_held [OF ok refl] by blast
    then show ?thesis using Inl range by (intro exI [of _ "Inl e"] exI [of _ km']) (simp add: deferred_read_def d Let_def)
  next
    case (Inr bs)
    define g where "g j = (if unat ?w \<le> j \<and> j < unat ?w + min (length bs) (unat ?n) then bs ! (j - unat ?w) else 0)" for j
    have run: "deferred_read read_at d km = Some (Inr (), set_page (as_phys_range p) g km)"
      using Inr range pfn zero by (simp add: deferred_read_def d Let_def g_def [abs_def] cong: if_cong)
    have bs: "length bs \<le> unat ?n" "\<forall>i < length bs. bs ! i = content (read_inode r) (file_offset r + of_nat i)"
      using law [unfolded reads_file_def, rule_format, OF Inr] by blast+
    have "g j = (if j < unat ?w + length bs \<or> length bs = unat ?n then byte_value content (vma_byte v (?P + j)) else 0)"
      if j: "j < 4096" for j
    proof -
      have vr: "valid (vregion v)" "4096 dvd lo (vregion v)" using v(2) by (simp_all add: vma_ok_def)
      have "lo (vregion v) \<le> ?P" using v(3) vr(2) by (auto simp: span_def elim!: dvdE)
      then have "lo (vregion v) \<le> ?P + j" by simp
      moreover have "contains_address (vregion v) a" using v(3) vr(1) by (simp add: contains_address_iff)
      moreover have "lo (vregion v) mod 4096 \<le> unat (fm_offset f)" using vr(2) by simp
      ultimately have "read_inode r = fm_file f \<and> (if unat ?w \<le> j \<and> j < unat ?w + unat ?n
         then vma_byte v (?P + j) = FileByte (fm_file f) (file_offset r + of_nat (j - unat ?w)) else vma_byte v (?P + j) = ZeroFill)"
        using resolve_fault_spec [OF v(1) _ vr(1) _ fit j, of a] v(4) by simp
      moreover have "g j = (if unat ?w \<le> j \<and> j < unat ?w + length bs
          then content (read_inode r) (file_offset r + of_nat (j - unat ?w)) else 0)"
        using bs by (auto simp: g_def min_absorb1)
      ultimately show ?thesis using bs(1) by (auto simp: byte_value_def split: if_splits)
    qed
    then show ?thesis using run ok pfn Inr
      by (intro exI [of _ "Inr ()"] exI [of _ "set_page (as_phys_range p) g km"])
        (simp add: set_page_def refs_ok_def accounts_def refs_def [abs_def])
  qed
qed

text \<open>
  Claim C8. The end of a deferred fault, in whatever state the process is by then: it never panics and
  the reference counts stay right, so that the page is either mapped or given back. It maps the page
  only when the area of the fault is still there, unchanged, and still allows the access; then
  the page is present afterwards, with the area's permissions. No bytes and no other page change.
\<close>

theorem deferred_map_correct:
  assumes laws: "maps_page ops" and ok: "vmas_ok (vmas (vm_mm vm))" "refs_ok ops (holding p ext) P (vm, km)"
    and d: "d = \<lparr>df_vma = v, df_read = r, df_page = as_phys_range p, df_addr = a, df_access = k\<rparr>"
  defines "still \<equiv> v \<in> areas (vmas (vm_mm vm)) \<and> unat a \<in> span (vregion v) \<and> permits (vperms v) k"
  shows "\<exists>res as' km'. deferred_map ops d (vm, km) = Some (res, set_as as' vm, km') \<and>
    refs_ok ops ext P (set_as as' vm, km') \<and> page_data km' = page_data km \<and>
    (as_translate ops as' = as_translate ops (vm_as vm) \<or>
     still \<and> as_translate ops (vm_as vm) (page_aligned a) = None \<and> as_translate ops as' =
       (\<lambda>b. if page_aligned b = page_aligned a then Some \<lparr>info_pfn = p, info_perms = pte_of_vma (vperms v)\<rparr>
            else as_translate ops (vm_as vm) b)) \<and>
    (still \<and> res = Inr () \<longrightarrow> as_translate ops as' (page_aligned a) \<noteq> None)"
proof -
  obtain found where find: "find_vma_for_fault vm a k = Some found" and iff: "found = Some v \<longleftrightarrow> still"
    using find_vma_for_fault_spec [OF ok(1), of a k] unfolding still_def by blast
  show ?thesis
  proof (cases still)
    case True
    then have f: "find_vma_for_fault vm a k = Some (Some v)" using find iff by simp
    show ?thesis
    proof (rule map_claimed_spec [OF laws ok(2) page_aligned_simps(1), of a "pte_of_vma (vperms v)"], goal_cases)
      case (1 res as' km')
      then show ?case using f True by (intro exI [of _ res] exI [of _ as'] exI [of _ km']) (auto simp: deferred_map_def d)
    qed
  next
    case False
    then have "found \<noteq> Some v" using iff by simp
    moreover obtain km' where "cp_drop (as_phys_range p) km = Some km'" "refs_ok ops ext P (set_as (vm_as vm) vm, km')" "page_data km' = page_data km"
      using drop_held [OF ok(2) refl] by blast
    ultimately show ?thesis using find False by (intro exI [of _ "Inr ()"] exI [of _ "vm_as vm"] exI [of _ km']) (simp add: deferred_map_def d)
  qed
qed

lemma vmas_cow: "vmas (vm_mm cow_vm) = vmas mm0"
  by (simp add: cow_vm_def)

lemma cow_area:
  assumes "v \<in> areas (vmas (vm_mm cow_vm))"
  shows "v = anon_vma 0x10000 0x3000 vma_rw \<or> v = file_vma 0x14000 0x2000 0x8000 vma_rx"
  using assms by (auto simp: vmas_cow mm0_def areas_def mm_of_def)

theorem demand_fault_correct_witness:
  "\<exists>as' km' p. handle_demand_fault page_ops 0x12008 AccessWrite (cow_vm, cow_km) = Some (Inr Resolved, set_as as' cow_vm, km') \<and>
     as' 0x12000 = Some \<lparr>info_pfn = p, info_perms = pte_rw True\<rparr> \<and> p \<noteq> 2 \<and> page_data km' p 9 = 0"
proof -
  let ?ext = "(\<lambda>_. 0)(2 := 1) :: nat \<Rightarrow> nat" and ?v = "anon_vma 0x10000 0x3000 vma_rw"
  have run: "case handle_demand_fault page_ops 0x12008 AccessWrite (cow_vm, cow_km) of Some (Inr Resolved, _) \<Rightarrow> True | _ \<Rightarrow> False"
    by code_simp
  have "vkind v \<noteq> SharedAnon s" if "v \<in> areas (vmas (vm_mm cow_vm))" for v s
    using cow_area [OF that] by (auto simp: anon_vma_def file_vma_def vmarea_new_def new_file_def)
  then have ok: "vmas_ok (vmas (vm_mm cow_vm))" "backed cow_vm cow_km"
    using mm0_ok by (simp_all add: vmas_cow backed_def)
  have room: "refs page_ops ?ext (vm_as cow_vm) cow_km p + 1 < 2 ^ 32" for p unfolding cow_refs by simp
  have v: "?v \<in> areas (vmas (vm_mm cow_vm))" "unat (0x12008 :: usize) \<in> span (vregion ?v) \<and> permits (vperms ?v) AccessWrite"
    by (simp_all add: vmas_cow mm0_def areas_def mm_of_def anon_vma_def vmarea_new_def span_def lo_def hi_def permits_def vma_rw_def)
  have far: "unat (0x12008 :: usize) \<notin> span (vregion (file_vma 0x14000 0x2000 0x8000 vma_rx))"
    by (simp add: file_vma_def vmarea_new_def span_def lo_def)
  obtain res as' km' w where r: "handle_demand_fault page_ops 0x12008 AccessWrite (cow_vm, cow_km) = Some (res, set_as as' cow_vm, km')"
    and w: "w \<in> areas (vmas (vm_mm cow_vm))" "unat (0x12008 :: usize) \<in> span (vregion w)"
      "demand_done page_ops ?ext {2, 3} w 0x12008 AccessWrite res (cow_vm, cow_km) (set_as as' cow_vm, km')"
    using demand_fault_correct [OF page_ops_laws(1) ok cow_refs_ok room, of "0x12008" AccessWrite] v by (auto split: if_splits)
  have "w = ?v" using cow_area [OF w(1)] w(2) far by auto
  moreover have res: "res = Inr Resolved" using run r by (auto split: sum.splits FaultResolution.splits)
  ultimately have f: "faulted_in page_ops ?ext ?v 0x12008 (cow_vm, cow_km) (set_as as' cow_vm, km')"
    using w(3) by (simp add: demand_done_def)
  have al: "page_aligned 0x12008 = 0x12000" "page_aligned 0x12000 = 0x12000" by code_simp+
  then have none: "as_translate page_ops (vm_as cow_vm) (page_aligned 0x12008) = None" by (simp add: page_ops_def cow_vm_def)
  obtain p where p: "right_page page_ops ?ext ?v 0x12008 p (cow_vm, cow_km) km'"
    "as_translate page_ops as' = (\<lambda>b. if page_aligned b = page_aligned 0x12008 then Some \<lparr>info_pfn = p, info_perms = pte_of_vma (vperms ?v)\<rparr>
       else as_translate page_ops (vm_as cow_vm) b)" using f none unfolding faulted_in_def by auto
  have "pte_of_vma (vperms ?v) = pte_rw True" by code_simp
  then have "as' 0x12000 = Some \<lparr>info_pfn = p, info_perms = pte_rw True\<rparr>"
    using fun_cong [OF p(2), of "0x12000"] by (simp add: page_ops_def al)
  moreover have "((\<lambda>_. 0)(2 := 2 :: nat)) p = 0 \<and> page_data km' p = (\<lambda>_. 0)"
    using p(1) unfolding right_page_def prod.case cow_refs by (simp add: anon_vma_def vmarea_new_def)
  ultimately show ?thesis using r res by (intro exI [of _ as'] exI [of _ km'] exI [of _ p]) (auto split: if_splits)
qed

text \<open>The same process while a fault on the file holds frame 3.\<close>

definition held_fa :: frame_alloc where
  "held_fa = \<lparr>frame_list = \<lparr>frames = [\<lparr>state = AllocatedHead \<lparr>ref_count = 2, order = 0\<rparr>, link = False\<rparr>,
                                       \<lparr>state = AllocatedHead \<lparr>ref_count = 1, order = 0\<rparr>, link = False\<rparr>], base_page = 2\<rparr>,
              free_pages = 0, free_lists = (\<lambda>k. [])\<rparr>"

definition held_km :: kmem where
  "held_km = \<lparr>page_alloc = Some held_fa, page_data = (\<lambda>p j. if p = 2 then 7 else 0), backings = []\<rparr>"

definition held_fault :: deferred_fault where
  "held_fault = \<lparr>df_vma = file_vma 0x14000 0x2000 0x8000 vma_rx,
     df_read = \<lparr>file_offset = 0x8000, read_page_offset = 0, read_len = 0x1000, read_inode = 7\<rparr>,
     df_page = as_phys_range 3, df_addr = 0x14008, df_access = AccessRead\<rparr>"

lemma held_table: "table held_fa = [2 \<mapsto> \<lparr>state = AllocatedHead \<lparr>ref_count = 2, order = 0\<rparr>, link = False\<rparr>,
                                    3 \<mapsto> \<lparr>state = AllocatedHead \<lparr>ref_count = 1, order = 0\<rparr>, link = False\<rparr>]"
  by (simp add: held_fa_def two_frames numeral_eq_Suc)

lemma held_refs_ok: "refs_ok page_ops (holding 3 ((\<lambda>_. 0)(2 := 1))) {2, 3} (cow_vm, held_km)"
proof -
  have free: "free_set (table held_fa) = {}" by (auto simp: held_table free_set_iff split: if_splits)
  have "free_lists held_fa = (\<lambda>k. [])" by (simp add: held_fa_def)
  then have "fa_ok held_fa"
    by (auto simp: buddy_inv_def blocks_ok_def lists_ok_def tails_ok_def coalesced_def held_table
        MAX_ORDER_def blk_0 split: if_splits)
  then have inv: "fa_inv held_fa" using free by (simp add: fa_inv_def count_ok_def) (simp add: held_fa_def total_pages_def)
  have "refs page_ops ((\<lambda>_. 0)(2 := 1)) (vm_as cow_vm) held_km = (\<lambda>_. 0)(2 := 2)"
    using cow_refs by (simp add: refs_def [abs_def] held_km_def cow_km_def)
  then have n: "refs page_ops (holding 3 ((\<lambda>_. 0)(2 := 1))) (vm_as cow_vm) held_km = (\<lambda>_. 0)(2 := 2, 3 := 1)"
    unfolding refs_holding by auto
  have "counted ((\<lambda>_. 0)(2 := 2, 3 := 1)) held_fa" using inv by (simp add: counted_def held_table)
  moreover have "{p. 0 < ((\<lambda>_. 0)(2 := 2, 3 := 1 :: nat)) p} \<union> free_set (table held_fa) = {2, 3}" unfolding free by auto
  ultimately have "accounts ((\<lambda>_. 0)(2 := 2, 3 := 1)) {2, 3} held_km" unfolding accounts_def by (simp add: held_km_def)
  then show ?thesis unfolding refs_ok_def prod.case n by (simp add: backings_ok_def held_km_def)
qed

theorem deferred_read_fills_witness:
  "\<exists>km'. deferred_read (\<lambda>_ _ n. Inr (replicate n 9)) held_fault held_km = Some (Inr (), km') \<and> page_data km' 3 5 = 9"
proof -
  let ?v = "file_vma 0x14000 0x2000 0x8000 vma_rx" and ?rd = "\<lambda>(_ :: inode) (_ :: u64) n. Inr (replicate n 9) :: 8 word list result"
  let ?r = "\<lparr>file_offset = 0x8000, read_page_offset = 0, read_len = 0x1000, read_inode = 7\<rparr>"
  have law: "reads_file ?rd (\<lambda>_ _. 9)" by (auto simp: reads_file_def)
  have zero: "page_data held_km 3 = (\<lambda>_. 0)" by (simp add: held_km_def)
  have v: "vkind ?v = FileKind \<lparr>fm_file = 7, fm_offset = 0x8000, fm_len = 0x2000\<rparr>" "vma_ok ?v" "unat (0x14008 :: usize) \<in> span (vregion ?v)"
    by (simp_all add: file_vma_def vmarea_new_def new_file_def vma_ok_def valid_def span_def lo_def hi_def dvd_eq_mod_eq_0)
  have r: "resolve_fault ?v 0x14008 = Some ?r" by code_simp
  have fit: "unat (fm_offset \<lparr>fm_file = 7, fm_offset = 0x8000, fm_len = 0x2000\<rparr>) + unat (fm_len \<lparr>fm_file = 7, fm_offset = 0x8000, fm_len = 0x2000\<rparr>) < 2 ^ 64"
    "unat (fm_offset \<lparr>fm_file = 7, fm_offset = 0x8000, fm_len = 0x2000\<rparr>) + (hi (vregion ?v) - lo (vregion ?v)) < 2 ^ 64"
    by (simp_all add: file_vma_def vmarea_new_def lo_def hi_def)
  obtain res km' where run: "deferred_read ?rd held_fault held_km = Some (res, km')"
    and post: "case res of Inl e \<Rightarrow> refs_ok page_ops ((\<lambda>_. 0)(2 := 1)) {2, 3} (cow_vm, km') \<and> page_data km' = page_data held_km
      | Inr _ \<Rightarrow> refs_ok page_ops (holding 3 ((\<lambda>_. 0)(2 := 1))) {2, 3} (cow_vm, km') \<and> (\<forall>q. q \<noteq> 3 \<longrightarrow> page_data km' q = page_data held_km q) \<and>
          (\<exists>bs. ?rd 7 0x8000 (unat (0x1000 :: usize)) = Inr bs \<and> (\<forall>j < 4096. page_data km' 3 j =
             (if j < unat (0 :: usize) + length bs \<or> length bs = unat (0x1000 :: usize)
              then byte_value (\<lambda>_ _. 9) (vma_byte ?v (unat (0x14008 :: usize) div 4096 * 4096 + j)) else 0)))"
    using deferred_read_fills [OF law held_refs_ok zero v r fit held_fault_def] unfolding VMAFileRead.select_convs by blast
  have res: "res = Inr ()" using run by (auto simp: deferred_read_def Let_def held_fault_def split: if_splits)
  have "vma_byte ?v (unat (0x14008 :: usize) div 4096 * 4096 + 5) = FileByte 7 0x8005"
    by (simp add: vma_byte_def file_vma_def vmarea_new_def new_file_def lo_def)
  then have "page_data km' 3 5 = 9" using post unfolding res sum.case by (simp add: byte_value_def)
  then show ?thesis using run res by blast
qed

text \<open>
  The number of bytes that were read is not looked at: after a short read, here of no byte at all, the
  page has zeros where the area maps bytes of the file.
\<close>

lemma short_read_zeros:
  "reads_file (\<lambda>_ _ _. Inr []) (\<lambda>_ _. 9)"
  "map_option (\<lambda>(res, km). (res, page_data km 3 5)) (deferred_read (\<lambda>_ _ _. Inr []) held_fault held_km) = Some (Inr (), 0)"
  "byte_value (\<lambda>_ _. 9) (vma_byte (df_vma held_fault) 0x14005) = 9"
  by (simp_all add: reads_file_def held_fault_def held_km_def deferred_read_def set_page_def PAGE_SIZE_def
      byte_value_def vma_byte_def file_vma_def vmarea_new_def new_file_def lo_def)

theorem deferred_map_correct_witness:
  "\<exists>as' km'. deferred_map page_ops held_fault (cow_vm, held_km) = Some (Inr (), set_as as' cow_vm, km') \<and> as' 0x14000 \<noteq> None"
proof -
  let ?v = "file_vma 0x14000 0x2000 0x8000 vma_rx"
  have ok: "vmas_ok (vmas (vm_mm cow_vm))" using mm0_ok by (simp add: vmas_cow)
  have run: "case deferred_map page_ops held_fault (cow_vm, held_km) of Some (Inr _, _) \<Rightarrow> True | _ \<Rightarrow> False" by code_simp
  have still: "?v \<in> areas (vmas (vm_mm cow_vm)) \<and> unat (0x14008 :: usize) \<in> span (vregion ?v) \<and> permits (vperms ?v) AccessRead"
    by (simp add: vmas_cow mm0_def areas_def mm_of_def file_vma_def vmarea_new_def span_def lo_def hi_def permits_def vma_rx_def)
  obtain res as' km' where r: "deferred_map page_ops held_fault (cow_vm, held_km) = Some (res, set_as as' cow_vm, km')"
    and post: "res = Inr () \<longrightarrow> as_translate page_ops as' (page_aligned 0x14008) \<noteq> None"
    using deferred_map_correct [OF page_ops_laws(1) ok held_refs_ok held_fault_def] still by blast
  have "res = Inr ()" using run r by (auto split: sum.splits)
  moreover have "page_aligned 0x14008 = 0x14000" "page_aligned 0x14000 = 0x14000" by code_simp+
  ultimately show ?thesis using r post by (auto simp: page_ops_def)
qed

end
