(* ===== verification/Sys_Mm_Props.thy ===== *)
theory Sys_Mm_Props
  imports Sys_Mm Mremap Fault_Props
begin

text \<open>
  The correctness of the memory system calls: the frames of unmapped pages are released and no
  others, and the addresses of the calls are mapped and unmapped as asked.
\<close>

section \<open>Frames of unmapped pages\<close>

text \<open>
  What the trait documents of \<open>unmap_range\<close>: on success no page of the range is mapped and no other
  page changes, and the result lists the frames that were unmapped.
\<close>

definition unmaps_range :: "'a address_space_ops \<Rightarrow> bool" where
  "unmaps_range ops \<longleftrightarrow> (\<forall>as r ps as'. valid r \<longrightarrow> 4096 dvd lo r \<longrightarrow> 4096 dvd hi r \<longrightarrow> as_unmap_range ops as r = (Inr ps, as') \<longrightarrow>
     as_translate ops as' = (\<lambda>b. if unat b \<in> span r then None else as_translate ops as b) \<and>
     (\<forall>p. count_list ps p = card {a. is_page_aligned a \<and> unat a \<in> span r \<and> map_option info_pfn (as_translate ops as a) = Some p}))"

lemma unmaps_range_refs:
  assumes "unmaps_range ops" "valid r" "4096 dvd lo r" "4096 dvd hi r" "as_unmap_range ops as r = (Inr ps, as')"
  shows "as_translate ops as' = (\<lambda>b. if unat b \<in> span r then None else as_translate ops as b)"
    and "page_refs ops as p = page_refs ops as' p + count_list ps p"
proof -
  note law = assms(1) [unfolded unmaps_range_def, rule_format, OF assms(2-)]
  show tr: "as_translate ops as' = (\<lambda>b. if unat b \<in> span r then None else as_translate ops as b)" using law by blast
  let ?S = "{a. is_page_aligned a \<and> map_option info_pfn (as_translate ops as a) = Some p}"
  let ?A = "{a. is_page_aligned a \<and> unat a \<in> span r \<and> map_option info_pfn (as_translate ops as a) = Some p}"
  let ?B = "{a. is_page_aligned a \<and> map_option info_pfn (as_translate ops as' a) = Some p}"
  have "?S = ?B \<union> ?A" "?B \<inter> ?A = {}" by (auto simp: tr split: if_splits)
  then have "card ?S = card ?B + card ?A" by (simp add: card_Un_disjoint)
  then show "page_refs ops as p = page_refs ops as' p + count_list ps p" using law by (simp add: page_refs_def)
qed

lemma intersection_pages:
  assumes r: "page_region r" and q: "page_region q"
  shows "intersection r q = None \<Longrightarrow> span r \<inter> span q = {}"
    and "intersection r q = Some i \<Longrightarrow> span i = span r \<inter> span q \<and> valid i \<and> 4096 dvd lo i \<and> 4096 dvd hi i"
proof -
  have "hi r \<le> 2 ^ 64" "hi q \<le> 2 ^ 64" using page_regionD(1) [OF r] page_regionD(1) [OF q] by (simp_all add: valid_def)
  note sp = intersection_span [OF this]
  show "intersection r q = None \<Longrightarrow> span r \<inter> span q = {}" using sp by simp
  assume i: "intersection r q = Some i"
  then have si: "span i = span r \<inter> span q" "span r \<inter> span q \<noteq> {}" using sp by auto
  have eq: "{lo i..<hi i} = {max (lo r) (lo q)..<min (hi r) (hi q)}" using si(1) by (auto simp: span_def)
  have ne: "{lo i..<hi i} \<noteq> {}" using si unfolding span_def by (metis (no_types))
  have "lo i < hi i" using ne unfolding atLeastLessThan_empty_iff by blast
  moreover have "max (lo r) (lo q) < min (hi r) (hi q)" using ne unfolding eq atLeastLessThan_empty_iff by blast
  ultimately have "lo i = max (lo r) (lo q)" "hi i = min (hi r) (hi q)" using atLeastLessThan_inj [OF eq] by blast+
  moreover have "4096 dvd max (lo r) (lo q)" "4096 dvd min (hi r) (hi q)"
    using page_regionD(3,4) [OF r] page_regionD(3,4) [OF q] by (simp_all add: max_def min_def)
  ultimately show "span i = span r \<inter> span q \<and> valid i \<and> 4096 dvd lo i \<and> 4096 dvd hi i"
    using si(1) page_regionD(1) [OF r] by (simp add: valid_def)
qed

text \<open>The page tables after unmapping a list of areas from a region, and the frames returned.\<close>

definition pages_gone :: "'a address_space_ops \<Rightarrow> nat set \<Rightarrow> nat list \<Rightarrow> 'a \<Rightarrow> 'a \<Rightarrow> bool" where
  "pages_gone ops X ps as as' \<longleftrightarrow>
     as_translate ops as' = (\<lambda>b. if unat b \<in> X then None else as_translate ops as b) \<and>
     (\<forall>p. page_refs ops as p = page_refs ops as' p + count_list ps p)"

lemma pages_gone_refl: "pages_gone ops {} [] as as"
  by (simp add: pages_gone_def)

lemma pages_gone_trans:
  "pages_gone ops X ps as as' \<Longrightarrow> pages_gone ops Y qs as' as'' \<Longrightarrow> pages_gone ops (X \<union> Y) (ps @ qs) as as''"
  by (auto simp: pages_gone_def fun_eq_iff)

lemma fixup_pages:
  assumes law: "unmaps_range ops" and r: "page_region r" and v: "vma_ok v"
    and run: "fixup_pg_tables ops as r v None = (Inr ps, as')"
  shows "pages_gone ops (span r \<inter> span (vregion v)) ps as as'"
proof (cases "intersection r (vregion v)")
  case None
  then show ?thesis using run intersection_pages(1) [OF r v [unfolded vma_ok_iff] None] pages_gone_refl [of ops as]
    by (simp add: fixup_pg_tables_def)
next
  case (Some i)
  have i: "span i = span r \<inter> span (vregion v) \<and> valid i \<and> 4096 dvd lo i \<and> 4096 dvd hi i"
    using intersection_pages(2) [OF r v [unfolded vma_ok_iff] Some] .
  then have "as_unmap_range ops as i = (Inr ps, as')" using run Some by (simp add: fixup_pg_tables_def)
  from unmaps_range_refs [OF law _ _ _ this] i show ?thesis by (simp add: pages_gone_def)
qed

lemma unmap_vmas_pages:
  assumes "unmaps_range ops" "page_region r" "\<forall>v \<in> set vs. vma_ok v"
    and "unmap_vmas ops r None vs pages mm = Some (Inr ps, mm')"
  shows "\<exists>qs. ps = pages @ qs \<and>
    pages_gone ops (span r \<inter> (\<Union>v \<in> set vs. span (vregion v))) qs (address_space mm) (address_space mm')"
  using assms(3-)
proof (induction vs arbitrary: pages mm)
  case Nil
  then show ?case using pages_gone_refl by simp
next
  case (Cons v vs)
  obtain res as where fu: "fixup_pg_tables ops (address_space mm) r v None = (res, as)" by fastforce
  then obtain qs where qs: "res = Inr qs" and get: "bt_get (start_address (vregion v)) (vmas mm) \<noteq> None"
    using Cons.prems(2) by (cases res) (auto simp: Let_def split: option.splits)
  let ?mm = "\<lparr>vmas = remainders r v (bt_remove (start_address (vregion v)) (vmas mm)), address_space = as\<rparr>"
  have rec: "unmap_vmas ops r None vs (pages @ qs) ?mm = Some (Inr ps, mm')"
    using Cons.prems(2) fu qs get by (auto simp: Let_def split: option.splits)
  obtain ts where ts: "ps = (pages @ qs) @ ts"
    "pages_gone ops (span r \<inter> (\<Union>v \<in> set vs. span (vregion v))) ts (address_space ?mm) (address_space mm')"
    using Cons.IH [OF _ rec] Cons.prems(1) by auto
  have "pages_gone ops (span r \<inter> span (vregion v)) qs (address_space mm) (address_space ?mm)"
    using fixup_pages [OF assms(1,2), of v] fu qs Cons.prems(1) by simp
  from pages_gone_trans [OF this ts(2)] have "pages_gone ops (span r \<inter> (\<Union>w \<in> set (v # vs). span (vregion w))) (qs @ ts) (address_space mm) (address_space mm')"
    by (simp add: Int_Un_distrib)
  then show ?case using ts(1) by auto
qed

lemma unmap_region_pages:
  assumes law: "unmaps_range ops" and ok: "vmas_ok (vmas mm)" and r: "page_region r"
    and run: "unmap_region ops r None mm = Some (Inr ps, mm')"
  shows "pages_gone ops {x \<in> span r. perms_at (vmas mm) x \<noteq> None} ps (address_space mm) (address_space mm')"
proof -
  note aff = affected_vmas(1) [OF ok r]
  have vs: "\<forall>v \<in> set (affected_vmas (vmas mm) r). vma_ok v" unfolding aff using vmas_okD(3) [OF ok] by blast
  have "span r \<inter> (\<Union>v \<in> set (affected_vmas (vmas mm) r). span (vregion v)) = {x \<in> span r. perms_at (vmas mm) x \<noteq> None}"
    unfolding aff perms_at_None vma_at_None by (auto simp: span_def meets_def)
  then show ?thesis using unmap_vmas_pages [OF law r vs run [unfolded unmap_region_def]] by simp
qed

section \<open>Releasing them\<close>

lemma drop_pages_spec:
  assumes "accounts n P km" "\<And>p. count_list ps p \<le> n p"
  shows "\<exists>km'. drop_pages ps km = Some km' \<and> accounts (\<lambda>p. n p - count_list ps p) P km' \<and>
    page_data km' = page_data km \<and> backings km' = backings km"
  using assms
proof (induction ps arbitrary: n km)
  case (Cons p ps)
  have pos: "0 < n p" using Cons.prems(2) [of p] by simp
  obtain km1 where km1: "cp_drop (as_phys_range p) km = Some km1" "accounts (n(p := n p - 1)) P km1"
    "page_data km1 = page_data km" "backings km1 = backings km" using cp_drop_spec [OF Cons.prems(1) pos] .
  have "count_list ps q \<le> (n(p := n p - 1)) q" for q using Cons.prems(2) [of q] by (auto split: if_splits)
  from Cons.IH [OF km1(2) this] obtain km' where km': "drop_pages ps km1 = Some km'"
    "accounts (\<lambda>q. (n(p := n p - 1)) q - count_list ps q) P km'" "page_data km' = page_data km1" "backings km' = backings km1" by auto
  have "(\<lambda>q. (n(p := n p - 1)) q - count_list ps q) = (\<lambda>q. n q - count_list (p # ps) q)" by auto
  then show ?case using km1 km' by auto
qed simp

lemma free_unmapped_pages_spec:
  assumes gone: "pages_gone ops X ps (vm_as vm) as'" and ok: "refs_ok ops ext P (vm, km)"
  shows "\<exists>km'. free_unmapped_pages ps km = Some (Inr (), km') \<and> refs_ok ops ext P (set_as as' vm, km') \<and>
    page_data km' = page_data km \<and> backings km' = backings km"
proof -
  have eq: "page_refs ops (vm_as vm) p = page_refs ops as' p + count_list ps p" for p using gone by (simp add: pages_gone_def)
  have le: "count_list ps p \<le> refs ops ext (vm_as vm) km p" for p using eq [of p] by (simp add: refs_def)
  obtain km' where km': "drop_pages ps km = Some km'" "accounts (\<lambda>p. refs ops ext (vm_as vm) km p - count_list ps p) P km'"
    "page_data km' = page_data km" "backings km' = backings km" using drop_pages_spec [OF refs_okD(1) [OF ok] le] by blast
  have "(\<lambda>p. refs ops ext (vm_as vm) km p - count_list ps p) = refs ops ext as' km'"
    using eq km'(4) by (simp add: refs_def fun_eq_iff)
  then have "refs_ok ops ext P (set_as as' vm, km')" using km'(2,4) refs_okD(2) [OF ok] by (simp add: refs_ok_def)
  moreover have "page_alloc km \<noteq> None" using accountsE [OF refs_okD(1) [OF ok]] by blast
  ultimately show ?thesis using km' by (auto simp: free_unmapped_pages_def)
qed

section \<open>munmap\<close>

text \<open>The addresses of a range that are mapped.\<close>

abbreviation mapped_in :: "vmas \<Rightarrow> nat \<Rightarrow> nat \<Rightarrow> nat set" where
  "mapped_in m l h \<equiv> {x. l \<le> x \<and> x < h \<and> perms_at m x \<noteq> None}"

lemma set_mm_simps [simp]:
  "tk_mm (set_mm mm t) = mm" "tk_mem (set_mm mm t) = tk_mem t" "vm_brk (tk_vm (set_mm mm t)) = vm_brk (tk_vm t)"
  "vm_as (tk_vm (set_mm mm t)) = address_space mm"
  by (simp_all add: set_mm_def)

lemma refs_ok_as: "vm_as vm' = vm_as vm \<Longrightarrow> refs_ok ops ext P (vm, km) \<Longrightarrow> refs_ok ops ext P (vm', km)"
  by (simp add: refs_ok_def)

text \<open>What a call that unmaps pages leaves behind: the frames of the pages are released.\<close>

definition released :: "'a address_space_ops \<Rightarrow> (nat \<Rightarrow> nat) \<Rightarrow> nat set \<Rightarrow> nat set \<Rightarrow> 'a task \<Rightarrow> 'a task \<Rightarrow> bool" where
  "released ops ext P X t t' \<longleftrightarrow> refs_ok ops ext P (tk_vm t', tk_mem t') \<and> page_data (tk_mem t') = page_data (tk_mem t) \<and>
     as_translate ops (vm_as (tk_vm t')) = (\<lambda>b. if unat b \<in> X then None else as_translate ops (vm_as (tk_vm t)) b)"

lemma release_pages_spec:
  assumes gone: "pages_gone ops X ps (vm_as (tk_vm t)) (address_space mm)" and ok: "refs_ok ops ext P (tk_vm t, tk_mem t)"
  obtains t' where "release_pages (Inr (a, ps)) (set_mm mm t) = Some (Inr a, t')" "tk_mm t' = mm" "released ops ext P X t t'"
proof -
  obtain km' where km': "free_unmapped_pages ps (tk_mem t) = Some (Inr (), km')" "refs_ok ops ext P (set_as (address_space mm) (tk_vm t), km')"
    "page_data km' = page_data (tk_mem t)" using free_unmapped_pages_spec [OF gone ok] by blast
  let ?t = "(set_mm mm t)\<lparr>tk_mem := km'\<rparr>"
  have "refs_ok ops ext P (tk_vm ?t, tk_mem ?t)" using refs_ok_as [OF _ km'(2), of "tk_vm ?t"] by (simp add: set_mm_def)
  moreover have "tk_mm ?t = mm" by (simp add: set_mm_def)
  ultimately show thesis using that [of ?t] km'(1,3) gone by (simp add: release_pages_def released_def pages_gone_def)
qed

text \<open>
  Claim C3. The system call \<open>munmap\<close>, on a well-formed process with the reference counts right and for a range
  whose end, rounded up to a page, does not wrap around: it never panics and keeps the process well formed. A misaligned or
  empty range is refused. On success the addresses of the range, rounded up to whole pages, are
  unmapped in the areas and in the page tables, the reference of every unmapped page to its frame
  is released and no other, so that a frame is free exactly when its last reference is gone, and
  no other page of the page tables and no byte of a frame changes. Every address outside the range keeps its
  permissions in the areas. It also keeps the source of its byte, except above the range in a file-backed area that the
  range cuts, by a hole or at its front.
\<close>

theorem sys_munmap_correct:
  assumes law: "unmaps_range ops" and ok: "vmas_ok (vmas (tk_mm t))" "refs_ok ops ext P (tk_vm t, tk_mem t)"
    and fit: "unat a + unat len + 4095 < 2 ^ 64"
  shows "\<exists>res t'. sys_munmap ops a len t = Some (res, t') \<and> vmas_ok (vmas (tk_mm t')) \<and>
    (if \<not> 4096 dvd unat a \<or> len = 0 then res = Inl InvalidValue \<and> t' = t
     else \<forall>n. res = Inr n \<longrightarrow> n = 0 \<and>
       unmapped (vmas (tk_mm t)) (region_of (unat a) (round_up 4096 (unat a + unat len))) (vmas (tk_mm t')) \<and>
       released ops ext P (mapped_in (vmas (tk_mm t)) (unat a) (round_up 4096 (unat a + unat len))) t t')"
proof -
  have lh: "lo (rnew a len) = unat a" "hi (rnew a len) = unat a + unat len" by (simp_all add: lo_def hi_def)
  have empty: "unat a = unat a + unat len \<longleftrightarrow> len = 0" by (simp add: unat_eq_0)
  obtain res mm' where run: "munmap ops (rnew a len) (tk_mm t) = Some (res, mm')" "vmas_ok (vmas mm')"
    and post: "if \<not> 4096 dvd unat a \<or> len = 0 then res = Inl InvalidValue \<and> mm' = tk_mm t
      else \<forall>ps. res = Inr ps \<longrightarrow> unmapped (vmas (tk_mm t)) (region_of (unat a) (round_up 4096 (unat a + unat len))) (vmas mm')"
    using munmap_run [OF ok(1), of "rnew a len" ops, unfolded lh empty, OF fit] by blast
  show ?thesis
  proof (cases res)
    case (Inl e)
    then show ?thesis using run post by (auto simp: sys_munmap_def release_pages_def set_mm_def)
  next
    case (Inr ps)
    then have al: "4096 dvd unat a" "len \<noteq> 0" using post by (auto split: if_splits)
    then obtain q where q: "munmap ops (rnew a len) (tk_mm t) = unmap_region ops q None (tk_mm t)" "page_region q" "lo q = unat a"
      "hi q = round_up 4096 (unat a + unat len)"
      using munmap_eq [of "rnew a len" ops "tk_mm t"] fit unfolding lh by (auto simp: unat_gt_0)
    have g: "pages_gone ops {x \<in> span q. perms_at (vmas (tk_mm t)) x \<noteq> None} ps (vm_as (tk_vm t)) (address_space mm')"
      using unmap_region_pages [OF law ok(1) q(2)] run(1) q(1) Inr by simp
    have eq: "{x \<in> span q. perms_at (vmas (tk_mm t)) x \<noteq> None} = mapped_in (vmas (tk_mm t)) (unat a) (round_up 4096 (unat a + unat len))"
      by (auto simp: span_def q)
    obtain t' where "release_pages (Inr (0, ps)) (set_mm mm' t) = Some (Inr 0, t')" "tk_mm t' = mm'"
      "released ops ext P (mapped_in (vmas (tk_mm t)) (unat a) (round_up 4096 (unat a + unat len))) t t'"
      by (rule release_pages_spec [OF g [unfolded eq] ok(2)])
    then show ?thesis using run post Inr al by (auto simp: sys_munmap_def)
  qed
qed

section \<open>mmap\<close>

lemma mmap_replacing_pages:
  assumes law: "unmaps_range ops" and ok: "vmas_ok (vmas mm)" and fits: "request_fits req (round_up 4096 (unat len))"
    and run: "mmap_replacing ops req len perms kind name mm = Some (Inr (a, ps), mm')"
  shows "pages_gone ops (mapped_in (vmas mm) (unat a) (unat a + round_up 4096 (unat len))) ps (address_space mm) (address_space mm')"
proof -
  obtain n where n: "checked_add len PAGE_MASK = Some n" and nz: "len \<noteq> 0"
    using run by (auto simp: mmap_replacing_def mmap_impl_def split: if_splits option.splits)
  define m where "m = n AND NOT PAGE_MASK"
  have m: "unat m = round_up 4096 (unat len)" using page_len [OF n] by (simp add: m_def)
  moreover have "0 < unat len" using nz by (simp add: unat_gt_0)
  ultimately have pos: "0 < unat m" "4096 dvd unat m" using round_up_ge [of 4096 "unat len"] by simp_all
  obtain r where r: "choose_region (vmas mm) req m = Inr r"
    using run n nz by (auto simp: mmap_replacing_def mmap_impl_def Let_def m_def split: sum.splits)
  note rr = choose_region_spec [OF ok pos _ r]
  have pr: "page_region r" "rsize r = m" using rr(1,2) fits m by simp_all
  obtain res mm1 where un: "unmap_region ops r None mm = Some (res, mm1)" "vmas_ok (vmas mm1)"
    "\<And>qs. res = Inr qs \<Longrightarrow> unmapped (vmas mm) r (vmas mm1)" using unmap_region_unmapped [OF ok pr(1)] by metis
  then obtain qs where qs: "res = Inr qs" using run n nz r by (cases res) (auto simp: mmap_replacing_def mmap_impl_def Let_def m_def)
  obtain mm2 where mm2: "insert_and_merge ops (set_name (vmarea_new r kind perms) name) mm1 = Some mm2" "address_space mm2 = address_space mm1"
    using place_area [OF un(2) pr(1) unmapped_free [OF un(2) pr(1) un(3) [OF qs]], of ops kind perms name] by metis
  have "a = start_address r" "ps = qs" "mm' = mm2"
    using run n nz r un(1) qs mm2(1) by (auto simp: mmap_replacing_def mmap_impl_def Let_def m_def)
  moreover have "pages_gone ops {x \<in> span r. perms_at (vmas mm) x \<noteq> None} qs (address_space mm) (address_space mm1)"
    using unmap_region_pages [OF law ok pr(1)] un(1) qs by simp
  moreover have "lo r = unat (start_address r)" "hi r = unat (start_address r) + round_up 4096 (unat len)"
    using pr(2) m by (simp_all add: lo_def hi_def start_address_def)
  then have "{x \<in> span r. perms_at (vmas mm) x \<noteq> None} =
      mapped_in (vmas mm) (unat (start_address r)) (unat (start_address r) + round_up 4096 (unat len))" by (auto simp: span_def)
  ultimately show ?thesis using mm2(2) by simp
qed

lemma mmap_backing_spec:
  assumes "refs_ok ops ext P (tk_vm t, tk_mem t)" "mmap_backing len flags fd offset t = (bk, t1)"
  shows "tk_vm t1 = tk_vm t" "page_data (tk_mem t1) = page_data (tk_mem t)" "refs_ok ops ext P (tk_vm t1, tk_mem t1)"
proof -
  have "refs_ok ops ext P (tk_vm t, snd (shared_anon_new (tk_mem t)))"
    using assms(1) by (simp add: refs_ok_def shared_anon_new_def refs_def [abs_def] backing_refs_simps backings_ok_def accounts_def)
  then show "tk_vm t1 = tk_vm t" "page_data (tk_mem t1) = page_data (tk_mem t)" "refs_ok ops ext P (tk_vm t1, tk_mem t1)"
    using assms by (auto simp: mmap_backing_def shared_anon_new_def split: if_splits)
qed

lemma mmap_request_spec:
  assumes args: "mmap_args a len flags = Inr ()" and fit: "unat a + round_up 4096 (unat len) < 2 ^ 64"
  shows "request_fits (mmap_request a flags) (round_up 4096 (unat len))"
    and "flags AND MAP_FIXED = 0 \<Longrightarrow> \<not> request_replaces (mmap_request a flags)"
    and "flags AND (MAP_FIXED OR MAP_FIXED_NOREPLACE) \<noteq> 0 \<Longrightarrow> \<exists>b. mmap_request a flags = Fixed a b"
proof -
  show "request_fits (mmap_request a flags) (round_up 4096 (unat len))"
    using fit by (simp add: request_fits_def mmap_request_def)
  show "flags AND MAP_FIXED = 0 \<Longrightarrow> \<not> request_replaces (mmap_request a flags)"
    by (simp add: request_replaces_def mmap_request_def)
  assume fixed: "flags AND (MAP_FIXED OR MAP_FIXED_NOREPLACE) \<noteq> 0"
  then have "MMAP_MIN_ADDR \<le> a" using args by (auto simp: mmap_args_def Let_def not_less split: if_splits)
  then have "\<not> is_null a" by (auto simp: is_null_def MMAP_MIN_ADDR_def)
  moreover have "flags AND MAP_FIXED \<noteq> 0 \<or> flags AND MAP_FIXED_NOREPLACE \<noteq> 0"
    using fixed by (auto simp: bit.conj_disj_distrib)
  ultimately show "\<exists>b. mmap_request a flags = Fixed a b" by (auto simp: mmap_request_def)
qed

text \<open>
  Claim C4. The system call \<open>mmap\<close>, on a well-formed process with the reference counts right and for a range
  that does not wrap around: it never panics and keeps the process well formed. It succeeds only
  with arguments that are allowed. Then the result is page aligned, and it is the given address with
  \<open>MAP_FIXED\<close> and \<open>MAP_FIXED_NOREPLACE\<close>; exactly the addresses of the new mapping get the requested
  permissions; without \<open>MAP_FIXED\<close> they were all free before. What was mapped there with
  \<open>MAP_FIXED\<close> is unmapped and the references of its pages are released, and no others.
\<close>

theorem sys_mmap_correct:
  assumes law: "unmaps_range ops" and ok: "vmas_ok (vmas (tk_mm t))" "refs_ok ops ext P (tk_vm t, tk_mem t)"
    and fit: "unat a + round_up 4096 (unat len) < 2 ^ 64"
  shows "\<exists>res t'. sys_mmap ops a len prot flags fd offset t = Some (res, t') \<and> vmas_ok (vmas (tk_mm t')) \<and>
    (\<forall>b. res = Inr b \<longrightarrow> mmap_args a len flags = Inr () \<and> 4096 dvd unat b \<and>
       (flags AND (MAP_FIXED OR MAP_FIXED_NOREPLACE) \<noteq> 0 \<longrightarrow> b = a) \<and>
       (flags AND MAP_FIXED = 0 \<longrightarrow> mapped_in (vmas (tk_mm t)) (unat b) (unat b + round_up 4096 (unat len)) = {}) \<and>
       (\<forall>x. perms_at (vmas (tk_mm t')) x =
          (if unat b \<le> x \<and> x < unat b + round_up 4096 (unat len) then Some (prot_to_perms prot) else perms_at (vmas (tk_mm t)) x)) \<and>
       released ops ext P (mapped_in (vmas (tk_mm t)) (unat b) (unat b + round_up 4096 (unat len))) t t')"
proof (cases "mmap_args a len flags")
  case (Inl e)
  then show ?thesis using ok(1) by (simp add: sys_mmap_def)
next
  case (Inr u)
  then have args: "mmap_args a len flags = Inr ()" by simp
  obtain src t1 where bk: "mmap_backing len flags fd offset t = (src, t1)" by fastforce
  note t1 = mmap_backing_spec [OF ok(2) bk]
  show ?thesis
  proof (cases src)
    case (Inl e)
    then show ?thesis using ok(1) args bk t1(1) by (simp add: sys_mmap_def)
  next
    case (Inr kn)
    then obtain kind name where kn: "src = Inr (kind, name)" by (cases kn) simp
    let ?req = "mmap_request a flags" and ?p = "prot_to_perms prot"
    note req = mmap_request_spec [OF args fit]
    from mmap_replacing_run [OF ok(1) req(1), of ops ?p kind name] show ?thesis
    proof (elim exE conjE, goal_cases)
      case (1 res mm')
      note run = 1(1,2) and post = 1(3) [rule_format]
      have sys: "sys_mmap ops a len prot flags fd offset t = release_pages res (set_mm mm' t1)"
        using args bk kn run(1) t1(1) by (simp add: sys_mmap_def)
      show ?case
      proof (cases res)
        case (Inl e)
        then show ?thesis using sys run(2) by (simp add: release_pages_def)
      next
        case (Inr bp)
        then obtain b ps where bp: "res = Inr (b, ps)" by (cases bp) simp
        let ?X = "mapped_in (vmas (tk_mm t)) (unat b) (unat b + round_up 4096 (unat len))"
        note gone = mmap_replacing_pages [OF law ok(1) req(1) run(1) [unfolded bp], folded t1(1)]
        obtain t' where t': "release_pages (Inr (b, ps)) (set_mm mm' t1) = Some (Inr b, t')" "tk_mm t' = mm'" "released ops ext P ?X t1 t'"
          using release_pages_spec [OF gone t1(3)] unfolding t1(1) .
        have rel: "released ops ext P ?X t t'" using t'(3) unfolding released_def t1(1,2) .
        note p = post [OF bp]
        have fixed: "flags AND (MAP_FIXED OR MAP_FIXED_NOREPLACE) \<noteq> 0 \<longrightarrow> b = a" using p req(3) by blast
        have free: "flags AND MAP_FIXED = 0 \<longrightarrow> ?X = {}" using p req(2) by simp
        show ?thesis using sys bp t'(1,2) run(2) args rel fixed free p
          by (intro exI [of _ "Inr b"] exI [of _ t']) simp
      qed
    qed
  qed
qed

section \<open>Witnesses\<close>

lemma set_iter_pages:
  assumes "valid r" "4096 dvd lo r" "4096 dvd hi r"
  shows "set (iter_pages r) = {a. is_page_aligned a \<and> unat a \<in> span r}" and "distinct (iter_pages r)"
proof -
  let ?n = "(hi r - lo r) div 4096"
  have pages: "map unat (iter_pages r) = map (\<lambda>k. lo r + k * 4096) [0..<?n]" using iter_pages_tile [OF assms(1)] by blast
  have "distinct (map unat (iter_pages r))" unfolding pages by (simp add: distinct_map inj_on_def)
  then show "distinct (iter_pages r)" by (simp add: distinct_map)
  have "unat ` set (iter_pages r) = (\<lambda>k. lo r + k * 4096) ` {0..<?n}" using arg_cong [OF pages, of set] by simp
  also have "\<dots> = unat ` {a :: usize. is_page_aligned a \<and> unat a \<in> span r}"
  proof (intro set_eqI iffI)
    fix x assume "x \<in> (\<lambda>k. lo r + k * 4096) ` {0..<?n}"
    then obtain k where k: "x = lo r + k * 4096" "k < ?n" by auto
    then have "k * 4096 < ?n * 4096" by simp
    then have x: "x < hi r" using k(1) div_times_less_eq_dividend [of "hi r - lo r" 4096] by linarith
    then have "unat (of_nat x :: usize) = x" using assms(1) by (simp add: valid_def unat_of_nat)
    moreover have "4096 dvd x" using k(1) assms(2) by simp
    ultimately show "x \<in> unat ` {a :: usize. is_page_aligned a \<and> unat a \<in> span r}"
      using k(1) x by (intro image_eqI [of _ _ "of_nat x"]) (simp_all add: is_page_aligned_dvd span_def)
  next
    fix x assume "x \<in> unat ` {a :: usize. is_page_aligned a \<and> unat a \<in> span r}"
    then have x: "4096 dvd x" "lo r \<le> x" "x < hi r" by (auto simp: is_page_aligned_dvd span_def)
    then have "4096 dvd x - lo r" "4096 dvd hi r - lo r" using assms(2,3) by simp_all
    then have "x = lo r + (x - lo r) div 4096 * 4096" "(x - lo r) div 4096 < ?n"
      using x by (simp_all add: div_less_iff_less_mult)
    then show "x \<in> (\<lambda>k. lo r + k * 4096) ` {0..<?n}" by auto
  qed
  finally show "set (iter_pages r) = {a. is_page_aligned a \<and> unat a \<in> span r}"
    by (simp add: inj_image_eq_iff inj_def unat_eq_usize)
qed

lemma count_map_filter: "distinct xs \<Longrightarrow> count_list (List.map_filter f xs) p = card {x \<in> set xs. f x = Some p}"
proof (induction xs)
  case (Cons x xs)
  have "{y \<in> set (x # xs). f y = Some p} = (if f x = Some p then insert x {y \<in> set xs. f y = Some p} else {y \<in> set xs. f y = Some p})"
    by auto
  then show ?case using Cons by (auto simp: map_filter_simps split: option.split)
qed (simp add: map_filter_simps)

lemma page_ops_unmaps: "unmaps_range page_ops"
  unfolding unmaps_range_def
proof (intro allI impI conjI)
  fix as r ps as'
  assume r: "valid r" "4096 dvd lo r" "4096 dvd hi r" and run: "as_unmap_range page_ops as r = (Inr ps, as')"
  show "as_translate page_ops as' = (\<lambda>b. if unat b \<in> span r then None else as_translate page_ops as b)"
    using run page_in_region [OF r(2,3)] by (auto simp: page_ops_def contains_address_iff [OF r(1)] span_def)
  fix p
  have "ps = List.map_filter (\<lambda>a. map_option info_pfn (as a)) (iter_pages r)" using run by (simp add: page_ops_def)
  then have "count_list ps p = card {a \<in> set (iter_pages r). map_option info_pfn (as a) = Some p}"
    using count_map_filter [OF set_iter_pages(2) [OF r], of "\<lambda>a. map_option info_pfn (as a)" p] by (simp only:)
  also have "{a \<in> set (iter_pages r). map_option info_pfn (as a) = Some p} =
      {a. is_page_aligned a \<and> unat a \<in> span r \<and> map_option info_pfn (as_translate page_ops as a) = Some p}"
    unfolding set_iter_pages(1) [OF r] by (intro Collect_cong) (auto simp: page_ops_def page_aligned_simps)
  finally show "count_list ps p = card {a. is_page_aligned a \<and> unat a \<in> span r \<and> map_option info_pfn (as_translate page_ops as a) = Some p}" .
qed

definition cow_task :: "(addr \<Rightarrow> PageInfo option) task" where
  "cow_task = \<lparr>tk_vm = cow_vm, tk_mem = cow_km,
     tk_fds = \<lparr>st_fds = fd_table_new, st_files = (\<lambda>_. \<lparr>of_inode = None, of_path = None, of_flags = 0\<rparr>)\<rparr>\<rparr>"

lemma cow_task_ok:
  "vmas_ok (vmas (tk_mm cow_task))" "refs_ok page_ops ((\<lambda>_. 0)(2 := 1)) {2, 3} (tk_vm cow_task, tk_mem cow_task)"
  using cow_refs_ok mm0_ok by (simp_all add: cow_task_def vmas_cow)

theorem sys_munmap_correct_witness:
  "\<exists>t'. sys_munmap page_ops 0x11000 0x800 cow_task = Some (Inr 0, t') \<and>
     perms_at (vmas (tk_mm t')) 0x11800 = None \<and> as_translate page_ops (vm_as (tk_vm t')) 0x11000 = None"
proof -
  have run: "case sys_munmap page_ops 0x11000 0x800 cow_task of Some (Inr _, _) \<Rightarrow> True | _ \<Rightarrow> False" by code_simp
  have fit: "unat (0x11000 :: usize) + unat (0x800 :: usize) + 4095 < 2 ^ 64" by simp
  obtain res t' where r: "sys_munmap page_ops 0x11000 0x800 cow_task = Some (res, t')"
    and post: "\<forall>n. res = Inr n \<longrightarrow> n = 0 \<and> unmapped (vmas (tk_mm cow_task)) (region_of 0x11000 0x12000) (vmas (tk_mm t')) \<and>
       released page_ops ((\<lambda>_. 0)(2 := 1)) {2, 3} (mapped_in (vmas (tk_mm cow_task)) 0x11000 0x12000) cow_task t'"
    using sys_munmap_correct [OF page_ops_unmaps cow_task_ok fit] by (auto simp: round_up_def dvd_eq_mod_eq_0)
  obtain n where n: "res = Inr n" using run r by (cases res) simp_all
  have "perms_at (vmas (tk_mm cow_task)) 0x11000 \<noteq> None"
    by (simp add: cow_task_def vmas_cow perms_at_def vma_at_def mm0_def example_defs lo_def hi_def)
  then have "as_translate page_ops (vm_as (tk_vm t')) 0x11000 = None" using post n by (simp add: released_def)
  moreover have "perms_at (vmas (tk_mm t')) 0x11800 = None" using post n by (simp add: unmapped_def)
  ultimately show ?thesis using r n post by auto
qed

theorem sys_mmap_correct_witness:
  "\<exists>t'. sys_mmap page_ops 0x11000 0x800 1 0x32 0 0 cow_task = Some (Inr 0x11000, t') \<and>
     perms_at (vmas (tk_mm t')) 0x11800 = Some vma_ro \<and> as_translate page_ops (vm_as (tk_vm t')) 0x11000 = None"
proof -
  have run: "case sys_mmap page_ops 0x11000 0x800 1 0x32 0 0 cow_task of Some (Inr _, _) \<Rightarrow> True | _ \<Rightarrow> False" by code_simp
  have fit: "unat (0x11000 :: usize) + round_up 4096 (unat (0x800 :: usize)) < 2 ^ 64" by (simp add: round_up_def)
  have ru: "round_up 4096 (unat (0x800 :: usize)) = 0x1000" by (simp add: round_up_def)
  obtain res t' where r: "sys_mmap page_ops 0x11000 0x800 1 0x32 0 0 cow_task = Some (res, t')"
    and post: "\<forall>b. res = Inr b \<longrightarrow> ((0x32 :: u64) AND (MAP_FIXED OR MAP_FIXED_NOREPLACE) \<noteq> 0 \<longrightarrow> b = 0x11000) \<and>
       (\<forall>x. perms_at (vmas (tk_mm t')) x =
          (if unat b \<le> x \<and> x < unat b + 0x1000 then Some (prot_to_perms 1) else perms_at (vmas (tk_mm cow_task)) x)) \<and>
       released page_ops ((\<lambda>_. 0)(2 := 1)) {2, 3} (mapped_in (vmas (tk_mm cow_task)) (unat b) (unat b + 0x1000)) cow_task t'"
    using sys_mmap_correct [OF page_ops_unmaps cow_task_ok fit, of 1 "0x32" 0 0] unfolding ru by blast
  obtain b where b: "res = Inr b" using run r by (cases res) simp_all
  have "(0x32 :: u64) AND (MAP_FIXED OR MAP_FIXED_NOREPLACE) \<noteq> 0" "prot_to_perms 1 = vma_ro" by code_simp+
  moreover have "perms_at (vmas (tk_mm cow_task)) 0x11000 \<noteq> None"
    by (simp add: cow_task_def vmas_cow perms_at_def vma_at_def mm0_def example_defs lo_def hi_def)
  ultimately show ?thesis using r b post by (simp add: released_def)
qed

section \<open>Frames lost by the break\<close>

text \<open>
  Lowering the break unmaps the pages above it, but \<open>resize_brk\<close> drops the list of their frames, so
  that their references are never released.
\<close>

lemma sys_brk_releases_nothing: "sys_brk ops a t = Some (b, t') \<Longrightarrow> tk_mem t' = tk_mem t"
  by (auto simp: sys_brk_def split: if_splits bind_splits)

definition heap_task :: "(addr \<Rightarrow> PageInfo option) task" where
  "heap_task = cow_task\<lparr>tk_mem := held_km,
     tk_vm := \<lparr>vm_mm = \<lparr>vmas = vmas (mm_of [anon_vma 0x16000 0x1000 vma_rw]), address_space = [0x16000 \<mapsto> \<lparr>info_pfn = 3, info_perms = pte_rw True\<rparr>]\<rparr>,
               vm_brk = rnew 0x16000 0x1000\<rparr>\<rparr>"

lemma brk_loses_frame:
  "\<exists>t'. sys_brk page_ops 0x16000 heap_task = Some (0x16000, t') \<and> vmas (tk_mm t') = [] \<and> tk_mem t' = tk_mem heap_task \<and>
     st_of (table held_fa) 3 = Some (AllocatedHead \<lparr>ref_count = 1, order = 0\<rparr>)"
proof -
  have "case sys_brk page_ops 0x16000 heap_task of Some (b, t') \<Rightarrow> b = 0x16000 \<and> vmas (tk_mm t') = [] | None \<Rightarrow> False" by code_simp
  then obtain t' where "sys_brk page_ops 0x16000 heap_task = Some (0x16000, t')" "vmas (tk_mm t') = []" by (auto split: option.splits)
  then show ?thesis using sys_brk_releases_nothing by (auto simp: held_table)
qed

end
