(* ===== verification/Mm_Calls.thy ===== *)
theory Mm_Calls
  imports Sys_Mm_Props
begin

text \<open>
  Sequences of memory system calls. The calls of a process are the steps of a transition system whose
  labels are a call and its result. Every step keeps the process well formed, and the calls that
  complete refine an abstract address space: a function from addresses to permissions, and the heap.
\<close>

section \<open>Runs, invariants and simulation\<close>

inductive steps :: "('s \<Rightarrow> 'l \<Rightarrow> 's \<Rightarrow> bool) \<Rightarrow> 's \<Rightarrow> 'l list \<Rightarrow> 's \<Rightarrow> bool" for step where
  steps_Nil: "steps step s [] s"
| steps_Cons: "step s l s' \<Longrightarrow> steps step s' ls s'' \<Longrightarrow> steps step s (l # ls) s''"

inductive_simps steps_Nil_iff [simp]: "steps step s [] s'"
inductive_simps steps_Cons_iff [simp]: "steps step s (l # ls) s'"

locale step_invariant =
  fixes step :: "'s \<Rightarrow> 'l \<Rightarrow> 's \<Rightarrow> bool" and inv :: "'s \<Rightarrow> bool"
  assumes inv_step: "inv s \<Longrightarrow> step s l s' \<Longrightarrow> inv s'"
begin

lemma inv_steps: "steps step s ls s' \<Longrightarrow> inv s \<Longrightarrow> inv s'"
  by (induction rule: steps.induct) (blast intro: inv_step)+

end

locale simulation = step_invariant step inv
  for step :: "'s \<Rightarrow> 'l \<Rightarrow> 's \<Rightarrow> bool" and inv :: "'s \<Rightarrow> bool" +
  fixes astep :: "'a \<Rightarrow> 'l \<Rightarrow> 'a \<Rightarrow> bool" and abs_of :: "'s \<Rightarrow> 'a"
  assumes sim_step: "inv s \<Longrightarrow> step s l s' \<Longrightarrow> astep (abs_of s) l (abs_of s')"
begin

lemma sim_steps: "steps step s ls s' \<Longrightarrow> inv s \<Longrightarrow> steps astep (abs_of s) ls (abs_of s')"
  by (induction rule: steps.induct) (blast intro: inv_step sim_step steps.intros)+

end

section \<open>The calls of a process\<close>

datatype mm_call =
  Mmap u64 u64 u64 u64 fd u64
| Munmap addr usize
| Mremap addr usize usize u64 addr
| Mprotect addr usize u64
| Brk addr

text \<open>A call as the dispatcher makes it. The result of \<open>brk\<close> is never an error.\<close>

fun run_call :: "'a address_space_ops \<Rightarrow> mm_call \<Rightarrow> 'a task \<Rightarrow> (usize result \<times> 'a task) option" where
  "run_call ops (Mmap a len prot flags fd offset) t = sys_mmap ops a len prot flags fd offset t"
| "run_call ops (Munmap a len) t = sys_munmap ops a len t"
| "run_call ops (Mremap old_addr old_len new_len flags new_addr) t = sys_mremap ops old_addr old_len new_len flags new_addr t"
| "run_call ops (Mprotect a len prot) t = sys_mprotect ops a len prot t"
| "run_call ops (Brk a) t = map_option (\<lambda>(b, t'). (Inr b, t')) (sys_brk ops a t)"

text \<open>
  The ranges do not wrap around at \<open>2 ^ 64\<close>, and \<open>mprotect\<close>, which does not round its length, is called
  with whole pages.
\<close>

fun call_fits :: "mm_call \<Rightarrow> bool" where
  "call_fits (Mmap a len _ _ _ _) \<longleftrightarrow> unat a + round_up 4096 (unat len) < 2 ^ 64"
| "call_fits (Munmap a len) \<longleftrightarrow> unat a + unat len + 4095 < 2 ^ 64"
| "call_fits (Mremap old_addr old_len new_len _ new_addr) \<longleftrightarrow> unat old_addr + unat old_len + 4095 < 2 ^ 64 \<and>
     unat old_addr + unat new_len + 4095 < 2 ^ 64 \<and> unat new_addr + unat new_len + 4095 < 2 ^ 64"
| "call_fits (Mprotect a len _) \<longleftrightarrow> unat a + unat len < 2 ^ 64 \<and> 4096 dvd unat len"
| "call_fits (Brk a) \<longleftrightarrow> unat a + 4095 < 2 ^ 64"

definition mm_step :: "'a address_space_ops \<Rightarrow> 'a task \<Rightarrow> mm_call \<times> usize result \<Rightarrow> 'a task \<Rightarrow> bool" where
  "mm_step ops t = (\<lambda>(c, r) t'. call_fits c \<and> run_call ops c t = Some (r, t'))"

section \<open>The abstract address space\<close>

record amap =
  am_perms :: "nat \<Rightarrow> VMAPermissions option"
  am_start :: nat
  am_end :: nat

definition fill :: "nat \<Rightarrow> nat \<Rightarrow> 'b \<Rightarrow> (nat \<Rightarrow> 'b) \<Rightarrow> nat \<Rightarrow> 'b" where
  "fill l h v m = (\<lambda>x. if l \<le> x \<and> x < h then v else m x)"

text \<open>
  \<open>mmap\<close> gives a range its permissions, \<open>munmap\<close> takes a range away, \<open>mprotect\<close> changes the permissions
  of a mapped range, \<open>mremap\<close> takes a range with one set of permissions away and gives the new range
  these permissions, \<open>brk\<close> moves the end of the heap.
\<close>

inductive amap_step :: "amap \<Rightarrow> mm_call \<times> usize result \<Rightarrow> amap \<Rightarrow> bool" where
  a_mmap: "4096 dvd unat b \<Longrightarrow> (flags AND (MAP_FIXED OR MAP_FIXED_NOREPLACE) \<noteq> 0 \<longrightarrow> b = a) \<Longrightarrow>
    (flags AND MAP_FIXED = 0 \<longrightarrow> (\<forall>x. unat b \<le> x \<and> x < unat b + round_up 4096 (unat len) \<longrightarrow> am_perms s x = None)) \<Longrightarrow>
    amap_step s (Mmap a len prot flags fd offset, Inr b)
      (s\<lparr>am_perms := fill (unat b) (unat b + round_up 4096 (unat len)) (Some (prot_to_perms prot)) (am_perms s)\<rparr>)"
| a_munmap: "4096 dvd unat a \<Longrightarrow> len \<noteq> 0 \<Longrightarrow>
    amap_step s (Munmap a len, Inr 0) (s\<lparr>am_perms := fill (unat a) (round_up 4096 (unat a + unat len)) None (am_perms s)\<rparr>)"
| a_mremap: "(\<forall>x. unat old_addr \<le> x \<and> x < unat old_addr + round_up 4096 (unat old_len) \<longrightarrow> am_perms s x = Some p) \<Longrightarrow>
    (flags AND MREMAP_MAYMOVE = 0 \<longrightarrow> b = old_addr) \<Longrightarrow> (flags AND MREMAP_FIXED \<noteq> 0 \<longrightarrow> b = new_addr) \<Longrightarrow>
    amap_step s (Mremap old_addr old_len new_len flags new_addr, Inr b)
      (s\<lparr>am_perms := fill (unat b) (unat b + round_up 4096 (unat new_len)) (Some p)
           (fill (unat old_addr) (unat old_addr + round_up 4096 (unat old_len)) None (am_perms s))\<rparr>)"
| a_mprotect: "(\<forall>x. unat a \<le> x \<and> x < unat a + unat len \<longrightarrow> am_perms s x \<noteq> None) \<Longrightarrow>
    amap_step s (Mprotect a len prot, Inr 0)
      (s\<lparr>am_perms := fill (unat a) (unat a + unat len) (Some (prot_to_perms prot)) (am_perms s)\<rparr>)"
| a_brk: "am_start s \<le> unat a \<Longrightarrow> e = round_up 4096 (unat a) \<Longrightarrow> (\<forall>x. am_end s \<le> x \<and> x < e \<longrightarrow> am_perms s x = None) \<Longrightarrow>
    amap_step s (Brk a, Inr a)
      (s\<lparr>am_perms := fill (am_end s) e (Some BRK_PERMISSIONS) (fill e (am_end s) None (am_perms s)), am_end := e\<rparr>)"
| a_brk_kept: "unat b = am_end s \<Longrightarrow> a = 0 \<or> unat a < am_start s \<or> am_end s \<le> unat a \<Longrightarrow> amap_step s (Brk a, Inr b) s"

inductive_simps amap_step_simps [simp]:
  "amap_step s (Mmap a len prot flags fd offset, r) s'" "amap_step s (Munmap a len, r) s'"
  "amap_step s (Mremap old_addr old_len new_len flags new_addr, r) s'" "amap_step s (Mprotect a len prot, r) s'" "amap_step s (Brk a, r) s'"

definition abs_task :: "'a task \<Rightarrow> amap" where
  "abs_task t = \<lparr>am_perms = perms_at (vmas (tk_mm t)), am_start = lo (vm_brk (tk_vm t)), am_end = hi (vm_brk (tk_vm t))\<rparr>"

text \<open>
  The call did what it was asked for. A \<open>brk\<close> that could not unmap the top of the heap returns the old
  break; the others that return the old break had nothing to do, or could not grow the heap.
\<close>

fun completed :: "'a task \<Rightarrow> mm_call \<times> usize result \<Rightarrow> bool" where
  "completed t (Brk a, r) \<longleftrightarrow> r = Inr a \<or> a = 0 \<or> unat a < lo (vm_brk (tk_vm t)) \<or> hi (vm_brk (tk_vm t)) \<le> unat a"
| "completed t (c, r) \<longleftrightarrow> (\<exists>b. r = Inr b)"

definition mm_done :: "'a address_space_ops \<Rightarrow> 'a task \<Rightarrow> mm_call \<times> usize result \<Rightarrow> 'a task \<Rightarrow> bool" where
  "mm_done ops t l t' \<longleftrightarrow> mm_step ops t l t' \<and> completed t l"

section \<open>One call\<close>

lemma map_sum_Inr: "map_sum f g x = Inr b \<longleftrightarrow> (\<exists>y. x = Inr y \<and> g y = b)"
  by (cases x) auto

lemma release_pages_Some:
  assumes "release_pages outcome t = Some (r, t')"
  shows "tk_vm t' = tk_vm t" "r = Inr b \<Longrightarrow> \<exists>ps. outcome = Inr (b, ps)"
  using assms by (auto simp: release_pages_def map_sum_Inr split: sum.splits)

lemma vm_wf_set: "vm_wf (tk_vm t) \<Longrightarrow> vmas_ok (vmas mm) \<Longrightarrow> vm_wf (tk_vm (set_mm mm t))"
  by (simp add: vm_wf_def)

text \<open>A call that changes the memory map only.\<close>

definition keeps_brk :: "'a task \<Rightarrow> 'a task \<Rightarrow> bool" where
  "keeps_brk t t' \<longleftrightarrow> vmas_ok (vmas (tk_mm t')) \<and> vm_brk (tk_vm t') = vm_brk (tk_vm t)"

lemma keeps_brk_wf: "vm_wf (tk_vm t) \<Longrightarrow> keeps_brk t t' \<Longrightarrow> vm_wf (tk_vm t')"
  by (simp add: vm_wf_def keeps_brk_def)

lemma released_mm:
  assumes "release_pages outcome (set_mm mm t) = Some (r, t')" "vmas_ok (vmas mm)"
  shows "keeps_brk t t'" "tk_mm t' = mm"
  using release_pages_Some(1) [OF assms(1)] assms(2) by (simp_all add: keeps_brk_def)

lemma munmap_call:
  assumes ok: "vmas_ok (vmas (tk_mm t))" and fit: "call_fits (Munmap a len)" and run: "sys_munmap ops a len t = Some (r, t')"
  shows "keeps_brk t t'" "r = Inr b \<Longrightarrow> amap_step (abs_task t) (Munmap a len, r) (abs_task t')"
proof -
  have lh: "lo (rnew a len) = unat a" "hi (rnew a len) = unat a + unat len" by (simp_all add: lo_def hi_def)
  have empty: "unat a = unat a + unat len \<longleftrightarrow> len = 0" by (simp add: unat_eq_0)
  obtain res mm' where m: "munmap ops (rnew a len) (tk_mm t) = Some (res, mm')" "vmas_ok (vmas mm')"
    and post: "if \<not> 4096 dvd unat a \<or> len = 0 then res = Inl InvalidValue \<and> mm' = tk_mm t
      else \<forall>ps. res = Inr ps \<longrightarrow> unmapped (vmas (tk_mm t)) (region_of (unat a) (round_up 4096 (unat a + unat len))) (vmas mm')"
    using munmap_run [OF ok, of "rnew a len" ops, unfolded lh empty, OF fit [unfolded call_fits.simps]] by blast
  have rel: "release_pages (map_sum id (Pair 0) res) (set_mm mm' t) = Some (r, t')" using run m(1) by (simp add: sys_munmap_def)
  note t' = released_mm [OF rel m(2)]
  show "keeps_brk t t'" by (rule t'(1))
  assume r: "r = Inr b"
  then obtain ps where ps: "res = Inr ps" "b = 0" using release_pages_Some(2) [OF rel, of b] by (cases res) auto
  have hi: "unat a \<le> round_up 4096 (unat a + unat len)" "round_up 4096 (unat a + unat len) < 2 ^ 64"
    using round_up_ge [of 4096 "unat a + unat len"] round_up_less [of 4096 "unat a + unat len"] fit by simp_all
  then have "am_perms (abs_task t') = fill (unat a) (round_up 4096 (unat a + unat len)) None (am_perms (abs_task t))"
    using post ps t'(2) by (intro ext) (simp add: abs_task_def fill_def unmapped_def split: if_splits)
  then show "amap_step (abs_task t) (Munmap a len, r) (abs_task t')"
    using post ps r t'(1) by (auto simp: abs_task_def keeps_brk_def split: if_splits)
qed

lemma mprotect_call:
  assumes ok: "vmas_ok (vmas (tk_mm t))" and fit: "call_fits (Mprotect a len prot)" and run: "sys_mprotect ops a len prot t = Some (r, t')"
  shows "keeps_brk t t'" "r = Inr b \<Longrightarrow> amap_step (abs_task t) (Mprotect a len prot, r) (abs_task t')"
proof -
  have lh: "lo (rnew a len) = unat a" "hi (rnew a len) = unat a + unat len" by (simp_all add: lo_def hi_def)
  have v: "valid (rnew a len)" "4096 dvd unat (rsize (rnew a len))" using fit lh(2) by (simp_all add: valid_def)
  obtain res mm' where m: "mprotect ops (rnew a len) (prot_to_perms prot) (tk_mm t) = Some (res, mm')" "vmas_ok (vmas mm')"
    and post: "case res of Inl e \<Rightarrow> vmas mm' = vmas (tk_mm t)
      | Inr _ \<Rightarrow> \<exists>v \<in> areas (vmas (tk_mm t)). lo (vregion v) \<le> unat a \<and> unat a + unat len \<le> hi (vregion v) \<and>
         (\<forall>x. perms_at (vmas mm') x = (if unat a \<le> x \<and> x < unat a + unat len then Some (prot_to_perms prot) else perms_at (vmas (tk_mm t)) x)) \<and>
         (\<not> is_file_backed v \<longrightarrow> (\<forall>x. byte_at (vmas mm') x = byte_at (vmas (tk_mm t)) x))"
    using mprotect_all [OF ok v, of ops "prot_to_perms prot", unfolded lh] by blast
  have eq: "r = map_sum id (\<lambda>_. 0) res" "t' = set_mm mm' t" using run m(1) by (simp_all add: sys_mprotect_def)
  then show keep: "keeps_brk t t'" using m(2) by (simp add: keeps_brk_def)
  assume r: "r = Inr b"
  then obtain u where u: "res = Inr u" "b = 0" using eq(1) by (auto simp: map_sum_Inr)
  obtain v where v: "v \<in> areas (vmas (tk_mm t))" "lo (vregion v) \<le> unat a" "unat a + unat len \<le> hi (vregion v)"
    and perms: "\<And>x. perms_at (vmas mm') x = (if unat a \<le> x \<and> x < unat a + unat len then Some (prot_to_perms prot) else perms_at (vmas (tk_mm t)) x)"
    using post unfolding u(1) sum.case by blast
  have "perms_at (vmas (tk_mm t)) x \<noteq> None" if "unat a \<le> x" "x < unat a + unat len" for x
    using look_area [OF ok v(1), of x "\<lambda>v x. vperms v"] that v(2,3) by (simp add: perms_at_look)
  moreover have "am_perms (abs_task t') = fill (unat a) (unat a + unat len) (Some (prot_to_perms prot)) (am_perms (abs_task t))"
    using perms eq(2) by (intro ext) (simp add: abs_task_def fill_def)
  ultimately show "amap_step (abs_task t) (Mprotect a len prot, r) (abs_task t')"
    using r u keep by (auto simp: abs_task_def keeps_brk_def)
qed

lemma mmap_call:
  assumes ok: "vmas_ok (vmas (tk_mm t))" and fit: "call_fits (Mmap a len prot flags fd offset)"
    and run: "sys_mmap ops a len prot flags fd offset t = Some (r, t')"
  shows "keeps_brk t t'" "r = Inr b \<Longrightarrow> amap_step (abs_task t) (Mmap a len prot flags fd offset, r) (abs_task t')"
proof -
  obtain src t1 where bk: "mmap_backing len flags fd offset t = (src, t1)" by fastforce
  have t1: "tk_vm t1 = tk_vm t" using bk by (auto simp: mmap_backing_def shared_anon_new_def split: if_splits)
  have refused: "keeps_brk t t' \<and> (r = Inr b \<longrightarrow> amap_step (abs_task t) (Mmap a len prot flags fd offset, r) (abs_task t'))"
    if "\<exists>e t1. r = Inl e \<and> tk_vm t' = tk_vm t" using that ok by (auto simp: keeps_brk_def)
  have "keeps_brk t t' \<and> (r = Inr b \<longrightarrow> amap_step (abs_task t) (Mmap a len prot flags fd offset, r) (abs_task t'))"
  proof (cases "mmap_args a len flags = Inr () \<and> (\<exists>kind name. src = Inr (kind, name))")
    case False
    then show ?thesis using run bk t1 by (intro refused) (auto simp: sys_mmap_def split: sum.splits)
  next
    case True
    then obtain kind name where args: "mmap_args a len flags = Inr ()" and kn: "src = Inr (kind, name)" by blast
    note req = mmap_request_spec [OF args fit [unfolded call_fits.simps]]
    from mmap_replacing_run [OF ok req(1), of ops "prot_to_perms prot" kind name] show ?thesis
    proof (elim exE conjE, goal_cases)
      case (1 res mm')
      have rel: "release_pages res (set_mm mm' t1) = Some (r, t')" using run args bk kn 1(1) t1 by (simp add: sys_mmap_def)
      note t' = released_mm [OF rel 1(2)]
      have keep: "keeps_brk t t'" using t'(1) t1 by (simp add: keeps_brk_def)
      have "amap_step (abs_task t) (Mmap a len prot flags fd offset, r) (abs_task t')" if r: "r = Inr b"
      proof -
        obtain ps where "res = Inr (b, ps)" using release_pages_Some(2) [OF rel r] by blast
        note p = 1(3) [rule_format, OF this]
        have "am_perms (abs_task t') = fill (unat b) (unat b + round_up 4096 (unat len)) (Some (prot_to_perms prot)) (am_perms (abs_task t))"
          using p t'(2) by (intro ext) (simp add: abs_task_def fill_def)
        then have "abs_task t' = (abs_task t)\<lparr>am_perms := fill (unat b) (unat b + round_up 4096 (unat len)) (Some (prot_to_perms prot)) (am_perms (abs_task t))\<rparr>"
          using keep by (simp add: abs_task_def keeps_brk_def)
        moreover have "flags AND (MAP_FIXED OR MAP_FIXED_NOREPLACE) \<noteq> 0 \<longrightarrow> b = a" using p req(3) by blast
        moreover have "flags AND MAP_FIXED = 0 \<longrightarrow> (\<forall>x. unat b \<le> x \<and> x < unat b + round_up 4096 (unat len) \<longrightarrow> am_perms (abs_task t) x = None)"
          using p req(2) by (simp add: abs_task_def)
        ultimately show ?thesis unfolding r using p by (simp only: a_mmap)
      qed
      then show ?thesis using keep by blast
    qed
  qed
  then show "keeps_brk t t'" "r = Inr b \<Longrightarrow> amap_step (abs_task t) (Mmap a len prot flags fd offset, r) (abs_task t')" by blast+
qed

lemma mremap_destination_Some:
  assumes "mremap_destination old_addr old_len new_len flags new_addr = Some (Inr dest)"
  shows "flags AND MREMAP_MAYMOVE = 0 \<Longrightarrow> dest = InPlaceOnly" "flags AND MREMAP_FIXED \<noteq> 0 \<Longrightarrow> dest = FixedAt new_addr"
    "dest = FixedAt na \<Longrightarrow> na = new_addr"
  using assms by (auto simp: mremap_destination_def split: if_splits bind_splits)

lemma rounded_region:
  assumes "unat a + unat n + 4095 < 2 ^ 64"
  shows "lo (rnew a (of_nat (round_up 4096 (unat n)))) = unat a"
    "hi (rnew a (of_nat (round_up 4096 (unat n)))) = unat a + round_up 4096 (unat n)"
proof -
  have "round_up 4096 (unat n) < 2 ^ 64" using round_up_less [of 4096 "unat n"] assms by simp
  then have "unat (of_nat (round_up 4096 (unat n)) :: usize) = round_up 4096 (unat n)" by (simp add: unat_of_nat)
  then show "lo (rnew a (of_nat (round_up 4096 (unat n)))) = unat a"
    "hi (rnew a (of_nat (round_up 4096 (unat n)))) = unat a + round_up 4096 (unat n)" by (simp_all add: lo_def hi_def)
qed

lemma mremap_call:
  fixes old_addr new_addr :: addr
  assumes ok: "vmas_ok (vmas (tk_mm t))" and fit: "call_fits (Mremap old_addr old_len new_len flags new_addr)"
    and run: "sys_mremap ops old_addr old_len new_len flags new_addr t = Some (r, t')"
  shows "keeps_brk t t'" "r = Inr b \<Longrightarrow> amap_step (abs_task t) (Mremap old_addr old_len new_len flags new_addr, r) (abs_task t')"
proof -
  let ?o = "rnew old_addr (of_nat (round_up 4096 (unat old_len)))" and ?l = "of_nat (round_up 4096 (unat new_len)) :: usize"
  obtain d where d: "mremap_destination old_addr old_len new_len flags new_addr = Some d"
    using run by (auto simp: sys_mremap_def split: bind_splits)
  have "keeps_brk t t' \<and> (r = Inr b \<longrightarrow> amap_step (abs_task t) (Mremap old_addr old_len new_len flags new_addr, r) (abs_task t'))"
  proof (cases d)
    case (Inl e)
    then show ?thesis using run d ok by (auto simp: sys_mremap_def keeps_brk_def)
  next
    case (Inr dest)
    note dest = mremap_destination_Some [OF d [unfolded Inr]]
    have fits: "unat old_addr + unat old_len + 4095 < 2 ^ 64" "unat old_addr + unat new_len + 4095 < 2 ^ 64"
      "unat new_addr + unat new_len + 4095 < 2 ^ 64" using fit by simp_all
    have fixed: "case dest of FixedAt na \<Rightarrow> unat na + unat new_len + 4095 < 2 ^ 64 | _ \<Rightarrow> True"
      using dest(3) fits(3) by (cases dest) auto
    have some: "mremap ops old_addr old_len new_len dest (tk_mm t) \<noteq> None" using run d Inr by (auto simp: sys_mremap_def bind_eq_Some_conv)
    from mremap_run [OF ok fits(1,2) fixed some] show ?thesis
    proof (elim exE conjE, goal_cases)
      case (1 res mm')
      have rel: "release_pages res (set_mm mm' t) = Some (r, t')" using run d Inr 1(1) by (simp add: sys_mremap_def)
      note t' = released_mm [OF rel 1(2)]
      have "amap_step (abs_task t) (Mremap old_addr old_len new_len flags new_addr, r) (abs_task t')" if r: "r = Inr b"
      proof -
        obtain ps where "res = Inr (b, ps)" using release_pages_Some(2) [OF rel r] by blast
        then have done_: "remap_done (vmas (tk_mm t)) ?o ?l dest b (vmas mm')" using 1(3) by blast
        then obtain v where v: "v \<in> areas (vmas (tk_mm t))" "part_of ?o v" "remapped (vmas (tk_mm t)) v ?o (rnew b ?l) (vmas mm')"
          by (auto simp: remap_done_def)
        note o = rounded_region [OF fits(1)]
        have "round_up 4096 (unat new_len) < 2 ^ 64" using round_up_less [of 4096 "unat new_len"] fits(2) by simp
        then have n: "lo (rnew b ?l) = unat b" "hi (rnew b ?l) = unat b + round_up 4096 (unat new_len)"
          by (simp_all add: lo_def hi_def unat_of_nat)
        have "am_perms (abs_task t) x = Some (vperms v)" if "unat old_addr \<le> x" "x < unat old_addr + round_up 4096 (unat old_len)" for x
          using look_area [OF ok v(1), of x "\<lambda>v x. vperms v"] that v(2) o by (simp add: perms_at_look part_of_def abs_task_def)
        moreover have "flags AND MREMAP_MAYMOVE = 0 \<longrightarrow> b = old_addr" "flags AND MREMAP_FIXED \<noteq> 0 \<longrightarrow> b = new_addr"
          using dest(1,2) done_ by (simp_all add: remap_done_def start_address_def)
        moreover have "am_perms (abs_task t') = fill (unat b) (unat b + round_up 4096 (unat new_len)) (Some (vperms v))
            (fill (unat old_addr) (unat old_addr + round_up 4096 (unat old_len)) None (am_perms (abs_task t)))"
          using v(3) t'(2) unfolding remapped_def n o by (intro ext) (simp add: abs_task_def fill_def)
        then have "abs_task t' = (abs_task t)\<lparr>am_perms := fill (unat b) (unat b + round_up 4096 (unat new_len)) (Some (vperms v))
            (fill (unat old_addr) (unat old_addr + round_up 4096 (unat old_len)) None (am_perms (abs_task t)))\<rparr>"
          using t'(1) by (simp add: abs_task_def keeps_brk_def)
        ultimately show ?thesis unfolding r by (simp only:) (rule a_mremap; blast)
      qed
      then show ?thesis using t'(1) by blast
    qed
  qed
  then show "keeps_brk t t'" "r = Inr b \<Longrightarrow> amap_step (abs_task t) (Mremap old_addr old_len new_len flags new_addr, r) (abs_task t')" by blast+
qed

lemma brk_call:
  assumes ok: "vm_wf (tk_vm t)" and fit: "call_fits (Brk a)" and run: "run_call ops (Brk a) t = Some (r, t')"
  shows "vm_wf (tk_vm t') \<and> lo (vm_brk (tk_vm t')) = lo (vm_brk (tk_vm t))"
    and "completed t (Brk a, r) \<Longrightarrow> amap_step (abs_task t) (Brk a, r) (abs_task t')"
proof -
  have cur: "unat (current_brk vm) = hi (vm_brk vm)" if "vm_wf vm" for vm :: "'a process_vm"
    using that unat_end_address [of "vm_brk vm"] by (simp add: current_brk_def vm_wf_def)
  have "vm_wf (tk_vm t') \<and> lo (vm_brk (tk_vm t')) = lo (vm_brk (tk_vm t)) \<and>
      (completed t (Brk a, r) \<longrightarrow> amap_step (abs_task t) (Brk a, r) (abs_task t'))"
  proof (cases "is_null a")
    case True
    then have "r = Inr (current_brk (tk_vm t))" "t' = t" "a = 0" using run by (auto simp: sys_brk_def is_null_def)
    moreover from this have "amap_step (abs_task t) (Brk a, r) (abs_task t)"
      using cur [OF ok] a_brk_kept [of "current_brk (tk_vm t)" "abs_task t" a] by (simp add: abs_task_def)
    ultimately show ?thesis using ok by simp
  next
    case False
    then have nz: "a \<noteq> 0" by (simp add: is_null_def)
    from resize_brk_shift [OF ok fit [unfolded call_fits.simps], of ops] show ?thesis
    proof (elim exE conjE, goal_cases)
      case (1 res vm')
      have eq: "r = Inr (case res of Inr b \<Rightarrow> b | Inl _ \<Rightarrow> current_brk vm')" "t' = t\<lparr>tk_vm := vm'\<rparr>"
        using run False 1(1) by (auto simp: sys_brk_def)
      show ?case
      proof (cases res)
        case (Inl e)
        then have brk: "vm_brk vm' = vm_brk (tk_vm t)" "r = Inr (current_brk vm')" "unat (current_brk vm') = hi (vm_brk (tk_vm t))"
          and same: "unat a < lo (vm_brk (tk_vm t)) \<or> hi (vm_brk (tk_vm t)) \<le> unat a \<Longrightarrow> vm' = tk_vm t"
          using 1(3) eq cur [OF 1(2)] by simp_all
        have "amap_step (abs_task t) (Brk a, r) (abs_task t')" if "completed t (Brk a, r)"
        proof -
          have out: "unat a < lo (vm_brk (tk_vm t)) \<or> hi (vm_brk (tk_vm t)) \<le> unat a" using that brk nz by auto
          then have "t' = t" using same eq(2) by simp
          then show ?thesis using out brk a_brk_kept [of "current_brk vm'" "abs_task t" a] by (simp add: abs_task_def)
        qed
        then show ?thesis using 1(2) eq(2) brk by simp
      next
        case (Inr b)
        let ?e = "round_up 4096 (unat a)"
        have b: "r = Inr a" "lo (vm_brk (tk_vm t)) \<le> unat a" and sh: "brk_shift (tk_vm t) ?e vm'" using 1(3) eq Inr by simp_all
        have l: "lo (vm_brk vm') = lo (vm_brk (tk_vm t))" using sh by (simp add: brk_shift_def start_brk_def flip: unat_start_address)
        have h: "hi (vm_brk vm') = ?e" using sh cur [OF 1(2)] by (simp add: brk_shift_def)
        have "perms_at (vmas (vm_mm vm')) = fill (hi (vm_brk (tk_vm t))) ?e (Some BRK_PERMISSIONS)
            (fill ?e (hi (vm_brk (tk_vm t))) None (perms_at (vmas (tk_mm t))))"
          using sh by (intro ext) (simp add: brk_shift_def fill_def)
        then have "abs_task t' = (abs_task t)\<lparr>am_perms := fill (am_end (abs_task t)) ?e (Some BRK_PERMISSIONS)
            (fill ?e (am_end (abs_task t)) None (am_perms (abs_task t))), am_end := ?e\<rparr>"
          using eq(2) l h by (simp add: abs_task_def)
        moreover have "am_start (abs_task t) \<le> unat a" using b(2) by (simp add: abs_task_def)
        moreover have "\<forall>x. am_end (abs_task t) \<le> x \<and> x < ?e \<longrightarrow> am_perms (abs_task t) x = None"
          using sh by (simp add: abs_task_def brk_shift_def)
        ultimately have "amap_step (abs_task t) (Brk a, r) (abs_task t')" unfolding b(1) by (simp only: a_brk)
        then show ?thesis using 1(2) eq(2) l by simp
      qed
    qed
  qed
  then show "vm_wf (tk_vm t') \<and> lo (vm_brk (tk_vm t')) = lo (vm_brk (tk_vm t))"
    "completed t (Brk a, r) \<Longrightarrow> amap_step (abs_task t) (Brk a, r) (abs_task t')" by blast+
qed

section \<open>Every call keeps the process well formed\<close>

lemma call_keeps:
  assumes ok: "vm_wf (tk_vm t)" and st: "mm_step ops t (c, r) t'"
  shows "vm_wf (tk_vm t') \<and> lo (vm_brk (tk_vm t')) = lo (vm_brk (tk_vm t))"
proof (cases "\<exists>a. c = Brk a")
  case True
  then show ?thesis using brk_call(1) [OF ok] st by (auto simp: mm_step_def)
next
  case False
  have "vmas_ok (vmas (tk_mm t))" using ok by (simp add: vm_wf_def)
  then have "keeps_brk t t'"
    using False st munmap_call(1) mprotect_call(1) mmap_call(1) mremap_call(1) by (cases c) (auto simp only: mm_step_def run_call.simps prod.case)
  then show ?thesis using keeps_brk_wf [OF ok] by (simp add: keeps_brk_def)
qed

interpretation mm_inv: step_invariant "mm_step ops" "\<lambda>t. vm_wf (tk_vm t) \<and> lo (vm_brk (tk_vm t)) = s"
  for ops :: "'a address_space_ops" and s
proof
  fix t t' :: "'a task" and l
  assume "vm_wf (tk_vm t) \<and> lo (vm_brk (tk_vm t)) = s" "mm_step ops t l t'"
  then show "vm_wf (tk_vm t') \<and> lo (vm_brk (tk_vm t')) = s" using call_keeps by (cases l) blast
qed

text \<open>
  Claim C9. Whatever sequence of \<open>mmap\<close>, \<open>munmap\<close>, \<open>mremap\<close>, \<open>mprotect\<close> and \<open>brk\<close> calls a well-formed process
  makes, with ranges that do not wrap around when they are rounded up to pages and with \<open>mprotect\<close> lengths that are multiples
  of the page size (the code does not round them, and another length leaves areas that end inside a page), whatever the page tables answer and whether the calls
  succeed or fail, the process is well formed after the calls that returned: its areas are sorted,
  disjoint ranges of whole pages, keyed by their start, its heap is a range of whole pages, and the
  heap starts where it started.
\<close>

theorem mm_calls_well_formed:
  assumes "vm_wf (tk_vm t)" and "steps (mm_step ops) t calls t'"
  shows "vm_wf (tk_vm t') \<and> start_brk (tk_vm t') = start_brk (tk_vm t)"
proof -
  have "vm_wf (tk_vm t') \<and> lo (vm_brk (tk_vm t')) = lo (vm_brk (tk_vm t))" by (rule mm_inv.inv_steps [OF assms(2)]) (simp add: assms(1))
  then show ?thesis by (simp add: start_brk_def unat_eq_usize unat_start_address)
qed

section \<open>The calls refine the abstract address space\<close>

lemma call_refines:
  assumes ok: "vm_wf (tk_vm t)" and st: "mm_done ops t (c, r) t'"
  shows "amap_step (abs_task t) (c, r) (abs_task t')"
proof (cases "\<exists>a. c = Brk a")
  case True
  then show ?thesis using brk_call(2) [OF ok] st by (auto simp only: mm_done_def mm_step_def prod.case)
next
  case False
  then obtain b where b: "r = Inr b" using st by (cases c) (auto simp: mm_done_def)
  have "vmas_ok (vmas (tk_mm t))" using ok by (simp add: vm_wf_def)
  then show ?thesis
    using False st b munmap_call(2) mprotect_call(2) mmap_call(2) mremap_call(2)
    by (cases c) (auto simp only: mm_done_def mm_step_def run_call.simps prod.case)
qed

interpretation mm_sim: simulation "mm_done ops" "\<lambda>t. vm_wf (tk_vm t)" amap_step abs_task
  for ops :: "'a address_space_ops"
proof
  fix t t' :: "'a task" and l
  assume ok: "vm_wf (tk_vm t)" and st: "mm_done ops t l t'"
  then show "vm_wf (tk_vm t')" using call_keeps unfolding mm_done_def by (cases l) blast
  show "amap_step (abs_task t) l (abs_task t')" using call_refines ok st by (cases l) blast
qed

text \<open>
  Claim C1. The memory system calls refine an abstract address space, a function from addresses to
  permissions with the bounds of the heap. Every sequence of calls that complete on a well-formed
  process, with ranges that do not wrap around when they are rounded up to pages and with \<open>mprotect\<close> lengths that are multiples of
  the page size (the code does not round them), is a sequence of steps of the abstract address
  space with the same results: \<open>mmap\<close> gives exactly its range the requested permissions, and only
  \<open>MAP_FIXED\<close> takes addresses that were mapped; \<open>munmap\<close> takes exactly its range away; \<open>mprotect\<close>
  changes exactly its range, all of it mapped before; \<open>mremap\<close> takes away exactly the old range, which
  had one set of permissions, and gives it to the new one; \<open>brk\<close> moves the end of the heap, into free
  addresses only. Merging, splitting and the order of the areas cannot be observed.
\<close>

theorem mm_calls_refine:
  assumes "vm_wf (tk_vm t)" and "steps (mm_done ops) t calls t'"
  shows "steps amap_step (abs_task t) calls (abs_task t')"
  by (rule mm_sim.sim_steps [OF assms(2,1)])

section \<open>A run\<close>

lemma cow_wf: "vm_wf (tk_vm cow_task)"
  using cow_task_ok(1) by (simp add: vm_wf_def cow_task_def cow_vm_def lo_def hi_def valid_def dvd_eq_mod_eq_0)

definition cow_run :: "(mm_call \<times> usize result) list" where
  "cow_run = [(Munmap 0x11000 0x1000, Inr 0), (Brk 0x17000, Inr 0x17000), (Mmap 0x11000 0x1000 1 0x32 0 0, Inr 0x11000),
     (Mremap 0x14000 0x2000 0x1000 0 0, Inr 0x14000)]"

text \<open>The run of a list of calls, given the results to expect.\<close>

fun replay :: "'a address_space_ops \<Rightarrow> (mm_call \<times> usize result) list \<Rightarrow> 'a task \<Rightarrow> 'a task option" where
  "replay ops [] t = Some t"
| "replay ops ((c, r) # ls) t = (case run_call ops c t of None \<Rightarrow> None | Some (r', t') \<Rightarrow> if r' = r then replay ops ls t' else None)"

lemma replay_steps:
  fixes t :: "'a task"
  assumes "replay ops ls t = Some t'" "\<forall>(c, r) \<in> set ls. call_fits c \<and> (\<forall>u :: 'a task. completed u (c, r))"
  shows "steps (mm_done ops) t ls t'"
  using assms
proof (induction ops ls t rule: replay.induct)
  case (2 ops c r ls t)
  obtain t1 where t1: "run_call ops c t = Some (r, t1)" "replay ops ls t1 = Some t'"
    using 2(2) by (simp split: option.splits prod.splits if_splits)
  then have "steps (mm_done ops) t1 ls t'" using 2(1) [OF t1(1) refl refl] 2(3) by simp
  moreover have "mm_done ops t (c, r) t1" using t1(1) 2(3) by (simp add: mm_done_def mm_step_def)
  ultimately show ?case by (rule steps_Cons [rotated])
qed simp

lemma cow_steps: "\<exists>t'. steps (mm_done page_ops) cow_task cow_run t'"
proof -
  have "replay page_ops cow_run cow_task \<noteq> None" by code_simp
  moreover have "\<forall>(c, r) \<in> set cow_run. call_fits c \<and> (\<forall>t :: (addr \<Rightarrow> PageInfo option) task. completed t (c, r))"
    by (simp add: cow_run_def round_up_def)
  ultimately show ?thesis using replay_steps by blast
qed

theorem mm_calls_well_formed_witness:
  "\<exists>t'. steps (mm_step page_ops) cow_task cow_run t' \<and> vm_wf (tk_vm t') \<and> start_brk (tk_vm t') = 0x16000"
proof -
  obtain t' where "steps (mm_done page_ops) cow_task cow_run t'" using cow_steps by blast
  then have run: "steps (mm_step page_ops) cow_task cow_run t'"
    by (induction rule: steps.induct) (auto intro: steps.intros simp: mm_done_def)
  moreover have "start_brk (tk_vm cow_task) = 0x16000" by code_simp
  ultimately show ?thesis using mm_calls_well_formed [OF cow_wf run] by auto
qed

theorem mm_calls_refine_witness:
  "\<exists>t'. steps (mm_done page_ops) cow_task cow_run t' \<and> am_end (abs_task t') = 0x17000 \<and>
     am_perms (abs_task t') 0x11800 = Some vma_ro \<and> am_perms (abs_task t') 0x16800 = Some vma_rw \<and>
     am_perms (abs_task t') 0x15000 = None"
proof -
  obtain t' where run: "steps (mm_done page_ops) cow_task cow_run t'" using cow_steps by blast
  note sim = mm_calls_refine [OF cow_wf run]
  have e: "am_end (abs_task cow_task) = 0x16000" "am_start (abs_task cow_task) = 0x16000"
    by (simp_all add: abs_task_def cow_task_def cow_vm_def lo_def hi_def)
  have "prot_to_perms 1 = vma_ro" "BRK_PERMISSIONS = vma_rw" by code_simp+
  then have "am_end (abs_task t') = 0x17000" "am_perms (abs_task t') 0x11800 = Some vma_ro" "am_perms (abs_task t') 0x16800 = Some vma_rw"
     "am_perms (abs_task t') 0x15000 = None"
    using sim e by (auto simp: cow_run_def fill_def round_up_def)
  then show ?thesis using run by blast
qed

end
