(* ===== verification/Spec2Isabelle.thy ===== *)
theory Spec2Isabelle
  imports Smalloc_Iter Buddy_Init Kernel_Heap Memory_Map_Cases Mm_Calls
begin

text \<open>
  \<^bold>\<open>The memory subsystem of the moss kernel.\<close>

  moss is a Unix-like kernel written in Rust. Its library \<^verbatim>\<open>libkernel\<close> holds the architecture-independent
  code, the crate \<^verbatim>\<open>src\<close> the kernel itself. This development models how the kernel manages memory,
  from the boot allocator up to the memory system calls, and the table of file descriptors. All
  paths below are relative to the source tree \<^verbatim>\<open>src/\<close>.

  \<^bold>\<open>The parts and how they interact.\<close> At boot, \<open>Smalloc\<close> keeps the lists of memory and of reservations.
  When it is done the frame allocator takes over what it did not reserve: a buddy allocator with
  reference-counted blocks. On top of it are the slab allocator with its per-CPU caches, which is the
  kernel heap, and the claimed pages, single frames for user memory. A process has a memory map, an
  ordered map of areas beside its page tables, and a heap that \<open>brk\<close> moves. The page-fault handlers
  look up the area of an address, claim a page and enter it into the page tables, or give a process
  its own copy of a shared page. The memory system calls change the memory map and release the frames
  of the pages that are gone.

  \<^bold>\<open>How the code is modelled.\<close> \<open>usize\<close>, \<open>u64\<close>, \<open>u32\<close> are words, with the wrap-around of a release build;
  \<open>Result\<close> is a sum type over \<open>KernelError\<close>; a panic (\<open>assert!\<close>, \<open>unwrap\<close>, \<open>todo!\<close>, an index out of range)
  is \<open>None\<close>; mutable state is passed and returned. A section under a lock is one step. Frames are
  numbered by natural numbers. \<open>lo\<close>, \<open>hi\<close> and \<open>span\<close> read a region as a set of natural numbers.

  \<^bold>\<open>The theories.\<close>
  \<^item> \<open>Prelude\<close>: words, the operations of Rust's core library on them, arithmetic of rounding.
  \<^item> \<open>Kernel_Error\<close>: \<^verbatim>\<open>libkernel/src/error.rs\<close>, \<^verbatim>\<open>error/syscall_error.rs\<close>. The errors and their errno values.
  \<^item> \<open>Address\<close>, \<open>Region\<close>: \<^verbatim>\<open>libkernel/src/memory/address.rs\<close>, \<^verbatim>\<open>page.rs\<close>, \<^verbatim>\<open>region.rs\<close>. Every operation on
    regions is the one on sets of addresses; the locale \<open>address_translator\<close> is interpreted on both translators.
  \<^item> \<open>Region_List\<close>, \<open>Smalloc\<close>, \<open>Smalloc_Proofs\<close>, \<open>Smalloc_Iter\<close>: \<^verbatim>\<open>libkernel/src/memory/allocators/smalloc.rs\<close>.
    Lists of regions stay sorted and apart; allocation reserves the first suitable free bytes, freeing
    and claiming remove exactly theirs; the errors; the iterator over the free regions.
  \<^item> \<open>Frame_Alloc\<close>, \<open>Buddy\<close>, \<open>Buddy_Ops\<close>, \<open>Buddy_Props\<close>, \<open>Buddy_Init\<close>: \<^verbatim>\<open>allocators/frame.rs\<close>, \<^verbatim>\<open>phys.rs\<close>. The
    invariant \<open>fa_inv\<close> of the frame table and the free lists; allocation gives a block that was free,
    freeing gives it back and merges buddies; round trips; any sequence of clones and drops of an
    allocation; after initialisation the free frames are those of the whole blocks that are not reserved.
  \<^item> \<open>Slab\<close>, \<open>Slab_Alloc\<close>, \<open>Slab_Manager\<close>, \<open>Kernel_Heap\<close>: \<^verbatim>\<open>allocators/slab/\<close>. A slab is an \<open>object_pool\<close>; a manager
    keeps its lists in agreement with its slabs; the heap never hands out a live object, and the
    objects that its clients hold, after any sequence of the allocations and frees of \<open>heap_step\<close>, are disjoint.
  \<^item> \<open>Sorted_Map\<close>: \<open>BTreeMap\<close> as an association list, the locale \<open>ordered_map\<close> and its interpretation.
  \<^item> \<open>Vm_Area\<close>: \<^verbatim>\<open>memory/paging/permissions.rs\<close>, \<^verbatim>\<open>memory/proc_vm/vmarea.rs\<close>. What byte an area maps at an
    address (\<open>vma_byte\<close>), and that cutting and faulting keep to it.
  \<^item> \<open>Memory_Map\<close>, \<open>Memory_Map_Proofs\<close>, \<open>Memory_Map_Props\<close>, \<open>Mremap\<close>, \<open>Memory_Map_Cases\<close>:
    \<^verbatim>\<open>memory/proc_vm/memory_map/mod.rs\<close>. The invariant \<open>vmas_ok\<close> and, address by address, what every call
    does to the permissions (\<open>perms_at\<close>) and contents (\<open>byte_at\<close>); \<open>Memory_Map_Cases\<close> evaluates inputs on
    which the code departs from its comments.
  \<^item> \<open>Proc_Vm\<close>, \<open>Proc_Vm_Props\<close>: \<^verbatim>\<open>memory/proc_vm/mod.rs\<close>. The heap, the lookup for a fault, and the isolation
    of a copy-on-write clone.
  \<^item> \<open>Claimed_Page\<close>: \<^verbatim>\<open>memory/claimed_page.rs\<close>, \<^verbatim>\<open>src/memory/shared_anon.rs\<close>. Accounting of references:
    \<open>accounts n P km\<close> says that every frame has \<open>n\<close> references and that the frames in use together with the
    free ones are always \<open>P\<close>, so that none is lost and none is freed early.
  \<^item> \<open>Fault\<close>, \<open>Fault_Props\<close>: \<^verbatim>\<open>src/memory/fault.rs\<close>. Demand faults, deferred reads of files and copy on write:
    what the page contains, who can write to it, and the references.
  \<^item> \<open>Fd_Table\<close>: \<^verbatim>\<open>src/process/fd_table.rs\<close>, \<^verbatim>\<open>fd_table/dup.rs\<close>, \<^verbatim>\<open>fd_table/fcntl.rs\<close>. On every reachable table \<open>dup\<close>
    returns the lowest free descriptor, and \<open>execve\<close> closes exactly the marked ones.
  \<^item> \<open>Sys_Mm\<close>, \<open>Sys_Mm_Props\<close>: \<^verbatim>\<open>src/memory/mmap.rs\<close>, \<^verbatim>\<open>brk.rs\<close>, \<^verbatim>\<open>mincore.rs\<close>. \<open>mmap\<close> and \<open>munmap\<close> on the memory map, the
    page tables and the references of the frames together.
  \<^item> \<open>Mm_Calls\<close>: sequences of memory system calls. The locales \<open>step_invariant\<close> and \<open>simulation\<close>, interpreted on
    the calls: every sequence keeps the process well formed and refines an abstract address space.

  \<^bold>\<open>Parameters.\<close> The page tables are the dictionary \<open>address_space_ops\<close> of the trait \<open>UserAddressSpace\<close>. The
  theorems about page tables name what they need of it: \<open>maps_page\<close>, \<open>remaps_page\<close>, \<open>protects_range\<close>, \<open>by_page\<close>,
  \<open>unmaps_range\<close>, and for a fork \<open>fresh_empty\<close> and \<open>clones_region\<close>; the examples run on \<open>page_ops\<close> and \<open>map_ops\<close>,
  which satisfy them. The operation \<open>unmap\<close> may panic, as the one for arm64 does; the others are taken to return. For arm64, \<open>translate\<close>
  panics on a block mapping, which user memory, mapped page by page, never has, and \<open>protect_and_clone_region\<close>
  panics when there is no memory for the child's page tables; the theorem on clones is about those that succeed. \<open>Inode::read_at\<close> (\<open>reads_file\<close>: it may
  read fewer bytes than asked for) and \<open>copy_to_user\<close> are parameters too. The references that other processes hold are the function \<open>ext\<close>.

  \<^bold>\<open>Bounds.\<close> The ranges of the theorems on system calls do not wrap around at \<open>2 ^ 64\<close> when they are rounded up to
  pages, and \<open>mprotect\<close>, which does not round its length, is called with whole pages; \<open>Memory_Map_Cases\<close> shows
  what happens otherwise. The mutual recursion of \<open>free\<close> and \<open>grow_region_list\<close> in \<open>Smalloc\<close> has a depth
  bound; by \<open>realloc_depth_enough\<close> a larger bound never changes a result. All other loops are total functions or, where they may
  not end, return \<open>None\<close>, and the theorems show that they return.

  \<^bold>\<open>Not modelled.\<close> The page tables themselves, which the code reaches through raw pointers and whose effect
  is that of the hardware; interleavings inside a locked section, and the locks; dropping a backing object of
  shared memory, which the count of its \<open>Arc\<close> triggers; the accounting of the frames that \<open>mremap\<close> moves (its effect on
  the areas is modelled and proved); running out of heap memory in \<open>Vec\<close> and \<open>BTreeMap\<close>; file systems, sockets,
  drivers, terminals, scheduling, signals and the rest of process management, which are futures over trait
  objects, devices and interrupts; formatting and logging.
\<close>

end
